(* ===== verification/Argus_Prelude.thy ===== *)
theory Argus_Prelude
  imports Main "HOL-Library.Word"
begin

text \<open>
  The prelude of the ArgusOS development: the fixed-width integer types of the C
  sources, the word-addressed physical memory that the allocators, the page tables and
  the process loader share, and the generic facts on words, bits and lists that the
  component theories use. The collections \<open>argus_defs\<close> (definitions that a proof unfolds
  to reach the code) and \<open>argus_word\<close> (facts that move a machine word to \<open>nat\<close>) are
  filled here and by the components.
\<close>

unbundle bit_operations_syntax

named_theorems argus_defs
named_theorems argus_word

section \<open>Machine integers\<close>

type_synonym u8 = "8 word"
type_synonym u16 = "16 word"
type_synonym u32 = "32 word"
type_synonym u64 = "64 word"

abbreviation (input) UINT64_MAX :: u64 where "UINT64_MAX \<equiv> 0xFFFFFFFFFFFFFFFF"
abbreviation (input) UINT32_MAX :: u32 where "UINT32_MAX \<equiv> 0xFFFFFFFF"

lemma unat_u8_less [argus_word]: "unat (w::u8) < 2 ^ 8"
  by (rule order_less_le_trans [OF unsigned_less]) simp

lemma unat_u16_less [argus_word]: "unat (w::u16) < 2 ^ 16"
  by (rule order_less_le_trans [OF unsigned_less]) simp

lemma unat_u32_less [argus_word]: "unat (w::u32) < 2 ^ 32"
  by (rule order_less_le_trans [OF unsigned_less]) simp

lemma unat_u64_less [argus_word]: "unat (w::u64) < 2 ^ 64"
  by (rule order_less_le_trans [OF unsigned_less]) simp

subsection \<open>Conversions between widths\<close>

lemma unat_ucast_up:
  fixes w :: "'a::len word"
  assumes "LENGTH('a) \<le> LENGTH('b::len)"
  shows "unat (ucast w :: 'b word) = unat w"
proof -
  have "unat w < 2 ^ LENGTH('b)"
    by (rule order_less_le_trans [OF unsigned_less]) (use assms in simp)
  then show ?thesis by (simp add: unsigned_ucast_eq take_bit_nat_eq_self)
qed

lemma unat_ucast_widen [simp]:
  "unat (ucast (a::u8) :: u16) = unat a" "unat (ucast (a::u8) :: u32) = unat a"
  "unat (ucast (a::u8) :: u64) = unat a" "unat (ucast (b::u16) :: u32) = unat b"
  "unat (ucast (b::u16) :: u64) = unat b" "unat (ucast (c::u32) :: u64) = unat c"
  by (simp_all add: unat_ucast_up)

lemma unat_of_nat_u64: "n < 2 ^ 64 \<Longrightarrow> unat (of_nat n :: u64) = n"
  by (simp add: unat_of_nat)

lemma of_nat_unat_id: "of_nat (unat w) = (w :: 'a::len word)"
  by (rule word_unat_eq_iff [THEN iffD2]) simp

lemma unat_ucast_narrow:
  "unat (ucast (w::'a::len word) :: 'b::len word) = unat w mod 2 ^ LENGTH('b)"
  by (simp add: unsigned_ucast_eq take_bit_eq_mod)

subsection \<open>Bits of small words\<close>

lemma bit_smallD: "bit (w::'a::len word) n \<Longrightarrow> unat w < 2 ^ k \<Longrightarrow> n < k"
  by (metis bit_take_bit_iff bit_unsigned_iff take_bit_nat_eq_self_iff possible_bit_nat)

lemma word_and_mask_mod: "unat (w AND mask k) = unat (w::'a::len word) mod 2 ^ k"
  by (metis take_bit_eq_mask take_bit_eq_mod unsigned_take_bit_eq)

lemma ucast_u32_u64: "(ucast (ucast (w::u32) :: u64) :: u32) = w"
  by (rule bit_word_eqI) (auto simp: bit_simps)

lemma ucast_u16_u32: "(ucast (ucast (w::u16) :: u32) :: u16) = w"
  by (rule bit_word_eqI) (auto simp: bit_simps)

lemma ucast_u16_u32_inj: "(ucast (x::u16) :: u32) = ucast (y::u16) \<longleftrightarrow> x = y"
  by (metis (no_types, lifting) ucast_u16_u32)

lemma mask_literals:
  "(0xFF :: u64) = mask 8" "(0xFFFFFFFF :: u64) = mask 32"
  by (simp_all add: mask_eq_exp_minus_1)

lemma slot_plus_one:
  assumes "slot < 16"
  shows "unat (of_nat slot + 1 :: u32) = slot + 1" "(of_nat slot + 1 :: u32) \<noteq> 0"
    "(of_nat slot + 1 :: u32) \<le> 16"
proof -
  show *: "unat (of_nat slot + 1 :: u32) = slot + 1"
    using assms by (simp add: unat_word_ariths unat_of_nat)
  show "(of_nat slot + 1 :: u32) \<noteq> 0" using * by (metis Suc_eq_plus1 nat.distinct(1) unat_0)
  show "(of_nat slot + 1 :: u32) \<le> 16" using * assms by (simp add: word_le_nat_alt)
qed

subsection \<open>Generations of reusable slots\<close>

text \<open>
  The capability table and the IPC endpoints both advance a 32-bit generation when a slot
  is released and skip the value 0 on wrap-around. The step walks a cycle of length
  \<open>2 ^ 32 - 1\<close>, so a generation comes back only after that many releases.
\<close>

definition next_generation :: "u32 \<Rightarrow> u32" where
  "next_generation g = (if g + 1 = 0 then 1 else g + 1)"

lemma next_generation_nonzero [simp]: "next_generation g \<noteq> 0"
  by (simp add: next_generation_def)

lemma unat_next_generation:
  assumes "g \<noteq> 0"
  shows "unat (next_generation g) = unat g mod (2 ^ 32 - 1) + 1"
proof (cases "g + 1 = 0")
  case True
  then have "g = -1" by (simp add: eq_neg_iff_add_eq_0)
  then show ?thesis by (simp add: next_generation_def unsigned_minus_1_eq_mask mask_eq_exp_minus_1)
next
  case False
  then have "unat (g + 1) = unat g + 1" by (simp add: unatSuc add.commute)
  moreover have "unat (g + 1) < 2 ^ 32" using unat_u32_less [of "g + 1"] by simp
  ultimately show ?thesis using False by (simp add: next_generation_def)
qed

lemma unat_next_generation_iter:
  assumes "g \<noteq> 0"
  shows "unat ((next_generation ^^ k) g) = (unat g - 1 + k) mod (2 ^ 32 - 1) + 1
    \<and> (next_generation ^^ k) g \<noteq> 0"
proof (induction k)
  case 0
  have "0 < unat g" "unat g < 2 ^ 32"
    using assms unat_u32_less [of g] by (simp_all add: unat_gt_0)
  then show ?case using assms by (simp add: mod_less)
next
  case (Suc k)
  then show ?case
    by (simp add: unat_next_generation mod_Suc_eq add.commute)
qed

lemma next_generation_no_return:
  assumes "g \<noteq> 0" and "0 < k" and "k < 2 ^ 32 - 1"
  shows "(next_generation ^^ k) g \<noteq> g"
proof
  assume "(next_generation ^^ k) g = g"
  then have "unat g = (unat g - 1 + k) mod (2 ^ 32 - 1) + 1"
    using unat_next_generation_iter [OF assms(1), of k] by metis
  moreover have "0 < unat g" "unat g < 2 ^ 32"
    using assms unat_u32_less [of g] by (simp_all add: unat_gt_0)
  ultimately have "(unat g - 1 + k) mod (2 ^ 32 - 1) = (unat g - 1) mod (2 ^ 32 - 1)"
    by (metis add_diff_cancel_right' mod_mod_trivial)
  then show False
    using assms(2,3) by (metis mod_eq_dvd_iff_nat add_diff_cancel_left' le_add1 nat_dvd_not_less)
qed

text \<open>The number of releases until a slot at generation \<open>c\<close> reaches generation \<open>g\<close>.\<close>

definition generation_distance :: "u32 \<Rightarrow> u32 \<Rightarrow> nat" where
  "generation_distance g c = (unat g + (2 ^ 32 - 1) - unat c) mod (2 ^ 32 - 1)"

lemma generation_distance_self: "generation_distance g g = 0"
  by (simp add: generation_distance_def)

lemma generation_distance_next:
  assumes "c \<noteq> 0"
  shows "generation_distance g c \<le> Suc (generation_distance g (next_generation c))"
proof -
  define P :: nat where "P = 2 ^ 32 - 1"
  have c: "0 < unat c" "unat c \<le> P"
    using assms unat_u32_less [of c] by (simp_all add: unat_gt_0 P_def)
  have "(unat g + P - unat c) mod P \<le> Suc ((unat g + P - (unat c mod P + 1)) mod P)"
  proof (cases "unat c = P")
    case True
    then show ?thesis
      using c by (cases "unat g") (auto simp: mod_Suc)
  next
    case False
    then have "unat g + P - unat c = Suc (unat g + P - (unat c mod P + 1))"
      using c by simp
    then show ?thesis by (simp add: mod_Suc)
  qed
  then show ?thesis
    using unat_next_generation [OF assms] by (simp add: generation_distance_def P_def)
qed

lemma generation_distance_released:
  assumes "g \<noteq> 0"
  shows "generation_distance g (next_generation g) = 2 ^ 32 - 2"
proof -
  define P :: nat where "P = 2 ^ 32 - 1"
  have g: "0 < unat g" "unat g \<le> P"
    using assms unat_u32_less [of g] by (simp_all add: unat_gt_0 P_def)
  have "(unat g + P - (unat g mod P + 1)) mod P = P - 1"
  proof (cases "unat g = P")
    case True
    then have "unat g + P - (unat g mod P + 1) = (P - 1) + P" using g by simp
    then show ?thesis using g by (simp only: mod_add_self2) simp
  next
    case False
    then have "unat g + P - (unat g mod P + 1) = P - 1" using g by simp
    then show ?thesis using g by simp
  qed
  then show ?thesis
    using unat_next_generation [OF assms] by (simp add: generation_distance_def P_def)
qed

section \<open>Lists as C arrays\<close>

lemma find_upt_Some:
  "find P [0..<n] = Some i \<longleftrightarrow> i < n \<and> P i \<and> (\<forall>j<i. \<not> P j)"
  by (auto simp: find_Some_iff)

lemma find_upt_None: "find P [0..<n] = None \<longleftrightarrow> (\<forall>i<n. \<not> P i)"
  by (auto simp: find_None_iff)

text \<open>A loop that assigns element after element of an array.\<close>

lemma fold_update_upt:
  assumes "n \<le> length xs"
  shows "fold (\<lambda>i ys. ys[i := f i]) [0..<n] xs = map f [0..<n] @ drop n xs"
  using assms
proof (induction n)
  case (Suc n)
  then have "fold (\<lambda>i ys. ys[i := f i]) [0..<Suc n] xs = map f [0..<n] @ (drop n xs)[0 := f n]"
    by (simp add: list_update_append)
  also have "drop n xs = xs ! n # drop (Suc n) xs"
    using Suc.prems by (simp add: Cons_nth_drop_Suc)
  finally show ?case by simp
qed simp

lemma map_nth_upt: "n \<le> length xs \<Longrightarrow> map ((!) xs) [0..<n] = take n xs"
  by (auto intro: nth_equalityI)

text \<open>
  The byte-copy loop that the sources write out wherever they move a buffer: element
  \<open>index\<close> of the source goes to element \<open>index\<close> of the destination, for \<open>index\<close> from 0 up.
\<close>

definition copy_loop :: "'a list \<Rightarrow> 'a list \<Rightarrow> nat \<Rightarrow> 'a list" where
  "copy_loop dst src n = fold (\<lambda>index d. d[index := src ! index]) [0..<n] dst"

lemma copy_loop_eq:
  assumes "n \<le> length src" and "n \<le> length dst"
  shows "copy_loop dst src n = take n src @ drop n dst"
  using fold_update_upt [OF assms(2), of "(!) src"] assms(1) by (simp add: copy_loop_def map_nth_upt)

lemma length_copy_loop [simp]: "length (copy_loop dst src n) = length dst"
  by (induction n) (simp_all add: copy_loop_def)

section \<open>Little-endian reads\<close>

text \<open>
  The fields of packed structures that the kernel reads out of raw bytes (the firmware memory
  map, ELF images, ACPI tables, disk sectors), at the byte offset of the field.
\<close>

definition le16 :: "u8 list \<Rightarrow> nat \<Rightarrow> u16" where
  "le16 b i = ucast (b ! i) OR push_bit 8 (ucast (b ! (i + 1)))"

definition le32 :: "u8 list \<Rightarrow> nat \<Rightarrow> u32" where
  "le32 b i = ucast (le16 b i) OR push_bit 16 (ucast (le16 b (i + 2)))"

definition le64 :: "u8 list \<Rightarrow> nat \<Rightarrow> u64" where
  "le64 b i = ucast (le32 b i) OR push_bit 32 (ucast (le32 b (i + 4)))"

end
