(* ===== verification/Handle_Store.thy ===== *)
theory Handle_Store
  imports Argus_Prelude
begin

text \<open>
  The contract shared by the two tables that hand out 64-bit handles to slots that are
  reused: the capability table (\<^verbatim>\<open>capability.c\<close>) and the IPC endpoints (\<^verbatim>\<open>ipc.c\<close>).
  A store has a view, the finite map from live handles to what they denote; issuing and
  releasing a handle are the map's insertion and deletion. The \<open>distance\<close> of a handle is
  the number of releases that must happen before the store could issue that very handle
  again; it is what makes a stale handle harmless. The lemmas inside the locale are proved
  once and instantiated for both tables.
\<close>

datatype 'i store_op = Issue 'i | Release u64

fun store_step :: "('i \<Rightarrow> 's \<Rightarrow> u64 \<times> 's) \<Rightarrow> (u64 \<Rightarrow> 's \<Rightarrow> bool \<times> 's) \<Rightarrow>
    'i store_op \<Rightarrow> 's \<Rightarrow> 's" where
  "store_step issue release (Issue x) s = snd (issue x s)"
| "store_step issue release (Release h) s = snd (release h s)"

fun store_run :: "('i \<Rightarrow> 's \<Rightarrow> u64 \<times> 's) \<Rightarrow> (u64 \<Rightarrow> 's \<Rightarrow> bool \<times> 's) \<Rightarrow>
    'i store_op list \<Rightarrow> 's \<Rightarrow> 's" where
  "store_run issue release [] s = s"
| "store_run issue release (x # xs) s =
     store_run issue release xs (store_step issue release x s)"

fun is_release :: "'i store_op \<Rightarrow> bool" where
  "is_release (Issue x) = False"
| "is_release (Release h) = True"

abbreviation releases :: "'i store_op list \<Rightarrow> nat" where
  "releases ops \<equiv> length (filter is_release ops)"

locale handle_store =
  fixes inv :: "'s \<Rightarrow> bool"
    and view :: "'s \<Rightarrow> u64 \<Rightarrow> 'o option"
    and content :: "'i \<Rightarrow> 'o"
    and issue :: "'i \<Rightarrow> 's \<Rightarrow> u64 \<times> 's"
    and release :: "u64 \<Rightarrow> 's \<Rightarrow> bool \<times> 's"
    and distance :: "'s \<Rightarrow> u64 \<Rightarrow> nat"
    and period :: nat
  assumes inv_issue: "inv s \<Longrightarrow> inv (snd (issue x s))"
    and inv_release: "inv s \<Longrightarrow> inv (snd (release h s))"
    and issue_refused: "inv s \<Longrightarrow> issue x s = (0, s') \<Longrightarrow> s' = s"
    and issue_fresh: "inv s \<Longrightarrow> issue x s = (h, s') \<Longrightarrow> h \<noteq> 0 \<Longrightarrow> view s h = None"
    and issue_view: "inv s \<Longrightarrow> issue x s = (h, s') \<Longrightarrow> h \<noteq> 0 \<Longrightarrow>
      view s' = (view s)(h \<mapsto> content x)"
    and release_live: "inv s \<Longrightarrow> fst (release h s) \<longleftrightarrow> view s h \<noteq> None"
    and release_refused: "inv s \<Longrightarrow> release h s = (False, s') \<Longrightarrow> s' = s"
    and release_view: "inv s \<Longrightarrow> release h s = (True, s') \<Longrightarrow> view s' = (view s)(h := None)"
    and distance_live: "inv s \<Longrightarrow> view s h \<noteq> None \<Longrightarrow> distance s h = 0"
    and distance_issue: "inv s \<Longrightarrow> distance (snd (issue x s)) h = distance s h"
    and distance_release: "inv s \<Longrightarrow> view s h = None \<Longrightarrow>
      distance s h \<le> Suc (distance (snd (release k s)) h)"
    and distance_released: "inv s \<Longrightarrow> release h s = (True, s') \<Longrightarrow> distance s' h = period"
begin

lemma inv_step: "inv s \<Longrightarrow> inv (store_step issue release x s)"
  by (cases x) (simp_all add: inv_issue inv_release)

lemma inv_run: "inv s \<Longrightarrow> inv (store_run issue release ops s)"
  by (induction ops arbitrary: s) (simp_all add: inv_step)

lemma step_keeps_dead:
  assumes "inv s" and "view s h = None" and "0 < distance s h" and "h \<noteq> 0"
  shows "view (store_step issue release x s) h = None"
proof (cases x)
  case (Issue i)
  obtain k s' where r: "issue i s = (k, s')" by (cases "issue i s")
  show ?thesis
  proof (cases "k = 0")
    case True
    with r have "s' = s" using issue_refused [OF assms(1)] by simp
    with r Issue assms show ?thesis by simp
  next
    case False
    have "distance s' h = distance s h" using distance_issue [OF assms(1), of i h] r by simp
    moreover have "inv s'" using inv_issue [OF assms(1), of i] r by simp
    ultimately have "view s' h = None" using assms(3) distance_live [of s' h] by (cases "view s' h") auto
    with r Issue show ?thesis by simp
  qed
next
  case (Release k)
  obtain b s' where r: "release k s = (b, s')" by (cases "release k s")
  then show ?thesis
    using Release assms release_refused [OF assms(1)] release_view [OF assms(1)]
    by (cases b) auto
qed

lemma step_distance:
  assumes "inv s" and "view s h = None"
  shows "distance s h \<le> distance (store_step issue release x s) h + (if is_release x then 1 else 0)"
  using assms distance_issue distance_release by (cases x) simp_all

lemma run_keeps_dead:
  assumes "inv s" and "view s h = None" and "releases ops < distance s h" and "h \<noteq> 0"
  shows "view (store_run issue release ops s) h = None"
  using assms
proof (induction ops arbitrary: s)
  case Nil
  then show ?case by simp
next
  case (Cons x ops)
  let ?t = "store_step issue release x s"
  have "view ?t h = None" using Cons.prems step_keeps_dead by simp
  moreover have "releases ops < distance ?t h"
    using Cons.prems step_distance [of s h x] by (auto split: if_splits)
  ultimately show ?case using Cons.IH [of ?t] Cons.prems inv_step by simp
qed

lemma stale_handle_dead:
  assumes "inv s" and "release h s = (True, s')" and "releases ops < period" and "h \<noteq> 0"
  shows "view (store_run issue release ops s') h = None"
proof -
  have "inv s'" using inv_release [OF assms(1), of h] assms(2) by simp
  moreover have "view s' h = None" using release_view [OF assms(1,2)] by simp
  ultimately show ?thesis
    using run_keeps_dead assms(3,4) distance_released [OF assms(1,2)] by simp
qed

lemma step_keeps_live:
  assumes "inv s" and "view s h = Some v" and "x \<noteq> Release h"
  shows "view (store_step issue release x s) h = Some v"
proof (cases x)
  case (Issue i)
  obtain k s' where r: "issue i s = (k, s')" by (cases "issue i s")
  then show ?thesis
    using Issue assms issue_refused [OF assms(1)] issue_fresh [OF assms(1)] issue_view [OF assms(1)]
    by (cases "k = 0") auto
next
  case (Release k)
  obtain b s' where r: "release k s = (b, s')" by (cases "release k s")
  then show ?thesis
    using Release assms release_refused [OF assms(1)] release_view [OF assms(1)]
    by (cases b) auto
qed

lemma run_keeps_live:
  "inv s \<Longrightarrow> view s h = Some v \<Longrightarrow> Release h \<notin> set ops \<Longrightarrow>
    view (store_run issue release ops s) h = Some v"
  by (induction ops arbitrary: s) (auto simp: step_keeps_live inv_step)

lemma run_append:
  "store_run issue release (xs @ ys) s = store_run issue release ys (store_run issue release xs s)"
  by (induction xs arbitrary: s) simp_all

text \<open>A live handle has a history: it was issued, and not released since.\<close>

definition issued_in :: "'i store_op list \<Rightarrow> 's \<Rightarrow> u64 \<Rightarrow> 'o \<Rightarrow> bool" where
  "issued_in ops s h v \<longleftrightarrow> (\<exists>before x after. ops = before @ Issue x # after \<and> content x = v \<and>
     fst (issue x (store_run issue release before s)) = h \<and> h \<noteq> 0 \<and> Release h \<notin> set after)"

lemma in_set_snoc: "y \<in> set (xs @ [x]) \<longleftrightarrow> y = x \<or> y \<in> set xs"
  by auto

lemma issued_in_snoc:
  "issued_in ops s h v \<Longrightarrow> x \<noteq> Release h \<Longrightarrow> issued_in (ops @ [x]) s h v"
  unfolding issued_in_def by (metis (no_types, lifting) Cons_eq_appendI append_assoc in_set_snoc)

lemma step_origin:
  assumes "inv s" and "view (store_step issue release x s) h = Some v"
  shows "view s h = Some v \<and> x \<noteq> Release h \<or>
    (\<exists>i. x = Issue i \<and> content i = v \<and> fst (issue i s) = h \<and> h \<noteq> 0)"
proof (cases x)
  case (Issue i)
  obtain k s' where r: "issue i s = (k, s')" by (cases "issue i s")
  then show ?thesis
    using Issue assms issue_refused [OF assms(1)] issue_view [OF assms(1) r]
    by (cases "k = 0") (auto split: if_splits)
next
  case (Release k)
  obtain b s' where r: "release k s = (b, s')" by (cases "release k s")
  then show ?thesis
    using Release assms(2) release_refused [OF assms(1), of k s'] release_view [OF assms(1), of k s']
      release_live [OF assms(1), of k]
    by (cases b) (auto split: if_splits)
qed

lemma live_was_issued:
  assumes "inv s" and "\<And>h. view s h = None" and "view (store_run issue release ops s) h = Some v"
  shows "issued_in ops s h v"
  using assms(3)
proof (induction ops arbitrary: v rule: rev_induct)
  case Nil
  then show ?case using assms(2) by simp
next
  case (snoc x ops)
  let ?t = "store_run issue release ops s"
  have "view (store_step issue release x ?t) h = Some v"
    using snoc.prems by (simp add: run_append)
  from step_origin [OF inv_run [OF assms(1)] this] show ?case
  proof
    assume "view ?t h = Some v \<and> x \<noteq> Release h"
    then show ?thesis using snoc.IH issued_in_snoc by blast
  next
    assume "\<exists>i. x = Issue i \<and> content i = v \<and> fst (issue i ?t) = h \<and> h \<noteq> 0"
    then show ?thesis unfolding issued_in_def by fastforce
  qed
qed

lemma issued_is_live:
  assumes "inv s" and "issued_in ops s h v"
  shows "view (store_run issue release ops s) h = Some v"
proof -
  obtain before x after where ops: "ops = before @ Issue x # after" "content x = v"
      "fst (issue x (store_run issue release before s)) = h" "h \<noteq> 0" "Release h \<notin> set after"
    using assms(2) by (auto simp: issued_in_def)
  let ?t = "store_run issue release before s"
  obtain t' where r: "issue x ?t = (h, t')" using ops(3) by (cases "issue x ?t") auto
  have "view t' h = Some v"
    using issue_view [OF inv_run [OF assms(1)] r ops(4)] ops(2) by simp
  moreover have "inv t'" using inv_issue [OF inv_run [OF assms(1)], of x before] r by simp
  ultimately show ?thesis using run_keeps_live [of t'] ops(5) r by (simp add: ops(1) run_append)
qed

theorem live_iff_issued:
  assumes "inv s" and "\<And>h. view s h = None"
  shows "view (store_run issue release ops s) h = Some v \<longleftrightarrow> issued_in ops s h v"
  using assms live_was_issued issued_is_live by blast

end

end
