(* ===== verification/Capability.thy ===== *)
theory Capability
  imports Handle_Store
begin

text \<open>
  The per-principal capability table of \<^verbatim>\<open>src/capability.c\<close>: sixteen slots, each a typed
  object with a rights mask and a 32-bit generation, and the 64-bit handle that packs tag,
  generation, type and slot. An optional pointer of the source (one that the code tests
  against NULL) is an \<open>option\<close>; the out parameter of \<^verbatim>\<open>capability_resolve\<close> is the value of
  the result. The table refines a finite map from handles to (type, rights, object), and is
  an instance of \<^verbatim>\<open>handle_store\<close>.
\<close>

section \<open>Data\<close>

abbreviation (input) ARGUS_CAPABILITY_NONE :: u32 where "ARGUS_CAPABILITY_NONE \<equiv> 0"
abbreviation (input) ARGUS_CAPABILITY_CLOCK :: u32 where "ARGUS_CAPABILITY_CLOCK \<equiv> 1"
abbreviation (input) ARGUS_CAPABILITY_INPUT :: u32 where "ARGUS_CAPABILITY_INPUT \<equiv> 2"
abbreviation (input) ARGUS_CAPABILITY_SURFACE :: u32 where "ARGUS_CAPABILITY_SURFACE \<equiv> 3"
abbreviation (input) ARGUS_CAPABILITY_IPC :: u32 where "ARGUS_CAPABILITY_IPC \<equiv> 4"
abbreviation (input) ARGUS_CAPABILITY_ANONYMOUS_STREAM :: u32 where
  "ARGUS_CAPABILITY_ANONYMOUS_STREAM \<equiv> 5"
abbreviation (input) ARGUS_CAPABILITY_RAW_NETWORK :: u32 where "ARGUS_CAPABILITY_RAW_NETWORK \<equiv> 6"

abbreviation (input) ARGUS_CAP_RIGHT_READ :: u16 where "ARGUS_CAP_RIGHT_READ \<equiv> 1"
abbreviation (input) ARGUS_CAP_RIGHT_WRITE :: u16 where "ARGUS_CAP_RIGHT_WRITE \<equiv> 2"
abbreviation (input) ARGUS_CAP_RIGHT_WAIT :: u16 where "ARGUS_CAP_RIGHT_WAIT \<equiv> 4"
abbreviation (input) ARGUS_CAP_RIGHT_PRESENT :: u16 where "ARGUS_CAP_RIGHT_PRESENT \<equiv> 8"
abbreviation (input) ARGUS_CAP_RIGHT_SEND :: u16 where "ARGUS_CAP_RIGHT_SEND \<equiv> 16"
abbreviation (input) ARGUS_CAP_RIGHT_RECEIVE :: u16 where "ARGUS_CAP_RIGHT_RECEIVE \<equiv> 32"
abbreviation (input) ARGUS_CAP_RIGHT_CONNECT :: u16 where "ARGUS_CAP_RIGHT_CONNECT \<equiv> 64"

abbreviation (input) ARGUS_CAPABILITY_MAX :: nat where "ARGUS_CAPABILITY_MAX \<equiv> 16"
abbreviation (input) CAPABILITY_HANDLE_TAG :: u64 where "CAPABILITY_HANDLE_TAG \<equiv> 0xA6C5"

record argus_capability_entry =
  cap_object :: u64
  cap_generation :: u32
  cap_type :: u16
  cap_rights :: u16

record argus_capability_table =
  cap_principal :: u64
  cap_entries :: "argus_capability_entry list"

definition zero_capability_entry :: argus_capability_entry where
  "zero_capability_entry = \<lparr>cap_object = 0, cap_generation = 0, cap_type = 0, cap_rights = 0\<rparr>"

section \<open>Operations\<close>

definition allowed_rights :: "u32 \<Rightarrow> u16" where
  "allowed_rights type =
    (if type = ARGUS_CAPABILITY_CLOCK then ARGUS_CAP_RIGHT_READ
     else if type = ARGUS_CAPABILITY_INPUT then ARGUS_CAP_RIGHT_READ OR ARGUS_CAP_RIGHT_WAIT
     else if type = ARGUS_CAPABILITY_SURFACE then ARGUS_CAP_RIGHT_PRESENT
     else if type = ARGUS_CAPABILITY_IPC then ARGUS_CAP_RIGHT_SEND OR ARGUS_CAP_RIGHT_RECEIVE
     else if type = ARGUS_CAPABILITY_ANONYMOUS_STREAM \<or> type = ARGUS_CAPABILITY_RAW_NETWORK
     then ARGUS_CAP_RIGHT_CONNECT
     else 0)"

definition initial_generation :: "u64 \<Rightarrow> u32 \<Rightarrow> u32" where
  "initial_generation owner slot =
    (let mixed = (ucast owner :: u32) XOR ucast (drop_bit 32 owner) XOR
           0xA6C50001 XOR ((slot + 1) * 0x9E3779B9)
     in if mixed \<noteq> 0 then mixed else slot + 1)"

definition make_handle :: "u32 \<Rightarrow> argus_capability_entry \<Rightarrow> u64" where
  "make_handle slot entry =
    push_bit 48 CAPABILITY_HANDLE_TAG OR
    push_bit 16 (ucast (cap_generation entry)) OR
    push_bit 8 (ucast (cap_type entry)) OR
    ucast (slot + 1)"

definition capability_table_init ::
    "argus_capability_table option \<Rightarrow> u64 \<Rightarrow> argus_capability_table option" where
  "capability_table_init table owner =
    (case table of
       None \<Rightarrow> None
     | Some _ \<Rightarrow> Some \<lparr>cap_principal = owner,
         cap_entries = map (\<lambda>slot. zero_capability_entry
             \<lparr>cap_generation := initial_generation owner (of_nat slot)\<rparr>)
           [0..<ARGUS_CAPABILITY_MAX]\<rparr>)"

definition capability_grant ::
    "argus_capability_table option \<Rightarrow> u32 \<Rightarrow> u16 \<Rightarrow> u64 \<Rightarrow>
     u64 \<times> argus_capability_table option" where
  "capability_grant tbl type rights object =
    (let valid = allowed_rights type in
     case tbl of
       None \<Rightarrow> (0, None)
     | Some table \<Rightarrow>
         if cap_principal table = 0 \<or> valid = 0 \<or> rights = 0 \<or> rights AND NOT valid \<noteq> 0
         then (0, Some table)
         else
           (case find (\<lambda>slot. \<not> cap_type (cap_entries table ! slot) \<noteq> 0)
               [0..<ARGUS_CAPABILITY_MAX] of
              None \<Rightarrow> (0, Some table)
            | Some slot \<Rightarrow>
                let entry = (cap_entries table ! slot)
                      \<lparr>cap_object := object, cap_type := ucast type, cap_rights := rights\<rparr>
                in (make_handle (of_nat slot) entry,
                    Some (table\<lparr>cap_entries := (cap_entries table)[slot := entry]\<rparr>))))"

definition capability_resolve ::
    "argus_capability_table option \<Rightarrow> u64 \<Rightarrow> u32 \<Rightarrow> u16 \<Rightarrow> u64 option" where
  "capability_resolve tbl handle type required_rights =
    (case tbl of
       None \<Rightarrow> None
     | Some table \<Rightarrow>
         if handle = 0 \<or> cap_principal table = 0 \<or> drop_bit 48 handle \<noteq> CAPABILITY_HANDLE_TAG
         then None
         else
           let encoded_slot = (ucast (handle AND 0xFF) :: u32) in
           if encoded_slot = 0 \<or> of_nat ARGUS_CAPABILITY_MAX < encoded_slot then None
           else
             let slot = encoded_slot - 1;
                 entry = cap_entries table ! unat slot;
                 generation = (ucast (drop_bit 16 handle AND 0xFFFFFFFF) :: u32);
                 encoded_type = (ucast (drop_bit 8 handle AND 0xFF) :: u16)
             in if ucast (cap_type entry) \<noteq> type \<or> ucast encoded_type \<noteq> type \<or>
                   cap_generation entry \<noteq> generation \<or>
                   cap_rights entry AND required_rights \<noteq> required_rights
                then None
                else Some (cap_object entry))"

definition capability_find ::
    "argus_capability_table option \<Rightarrow> u32 \<Rightarrow> u16 \<Rightarrow> u64" where
  "capability_find tbl type required_rights =
    (case tbl of
       None \<Rightarrow> 0
     | Some table \<Rightarrow>
         if cap_principal table = 0 then 0
         else
           (case find (\<lambda>slot. let entry = cap_entries table ! slot in
                ucast (cap_type entry) = type \<and>
                cap_rights entry AND required_rights = required_rights)
               [0..<ARGUS_CAPABILITY_MAX] of
              None \<Rightarrow> 0
            | Some slot \<Rightarrow> make_handle (of_nat slot) (cap_entries table ! slot)))"

definition capability_revoke ::
    "argus_capability_table option \<Rightarrow> u64 \<Rightarrow> bool \<times> argus_capability_table option" where
  "capability_revoke tbl handle =
    (case tbl of
       None \<Rightarrow> (False, None)
     | Some table \<Rightarrow>
         if handle = 0 \<or> drop_bit 48 handle \<noteq> CAPABILITY_HANDLE_TAG then (False, Some table)
         else
           let encoded_slot = (ucast (handle AND 0xFF) :: u32) in
           if encoded_slot = 0 \<or> of_nat ARGUS_CAPABILITY_MAX < encoded_slot
           then (False, Some table)
           else
             let slot = encoded_slot - 1;
                 entry = cap_entries table ! unat slot
             in if make_handle slot entry \<noteq> handle \<or> cap_type entry = 0
                then (False, Some table)
                else
                  let next = cap_generation entry + 1;
                      next' = (if next = 0 then 1 else next)
                  in (True, Some (table\<lparr>cap_entries := (cap_entries table)
                        [unat slot := zero_capability_entry\<lparr>cap_generation := next'\<rparr>]\<rparr>)))"

definition capability_count_type :: "argus_capability_table option \<Rightarrow> u32 \<Rightarrow> u32" where
  "capability_count_type tbl type =
    (case tbl of
       None \<Rightarrow> 0
     | Some table \<Rightarrow>
         fold (\<lambda>slot count. if ucast (cap_type (cap_entries table ! slot)) = type
             then count + 1 else count) [0..<ARGUS_CAPABILITY_MAX] 0)"

definition empty_capability_table :: argus_capability_table where
  "empty_capability_table = \<lparr>cap_principal = 0,
     cap_entries = replicate ARGUS_CAPABILITY_MAX zero_capability_entry\<rparr>"

definition capability_self_test :: bool where
  "capability_self_test =
    (let first = capability_table_init (Some empty_capability_table) 11;
         second = capability_table_init (Some empty_capability_table) 12;
         (clock, first) = capability_grant first ARGUS_CAPABILITY_CLOCK
           ARGUS_CAP_RIGHT_READ 0x11223344
     in if clock = 0 \<or>
           capability_resolve first clock ARGUS_CAPABILITY_CLOCK ARGUS_CAP_RIGHT_READ
             \<noteq> Some 0x11223344 \<or>
           capability_resolve first clock ARGUS_CAPABILITY_CLOCK ARGUS_CAP_RIGHT_WRITE
             \<noteq> None \<or>
           capability_resolve first (clock XOR push_bit 20 1) ARGUS_CAPABILITY_CLOCK
             ARGUS_CAP_RIGHT_READ \<noteq> None \<or>
           capability_resolve second clock ARGUS_CAPABILITY_CLOCK ARGUS_CAP_RIGHT_READ
             \<noteq> None \<or>
           capability_count_type first ARGUS_CAPABILITY_CLOCK \<noteq> 1
        then False
        else
          let (revoked, first) = capability_revoke first clock in
          if \<not> revoked \<or>
             capability_resolve first clock ARGUS_CAPABILITY_CLOCK ARGUS_CAP_RIGHT_READ \<noteq> None
          then False
          else
            let (replacement, first) = capability_grant first ARGUS_CAPABILITY_CLOCK
                  ARGUS_CAP_RIGHT_READ 7
            in replacement \<noteq> 0 \<and> replacement \<noteq> clock \<and>
               fst (capability_grant first ARGUS_CAPABILITY_RAW_NETWORK
                 ARGUS_CAP_RIGHT_READ 0) = 0)"

section \<open>The packing of handles\<close>

lemma handle_fields:
  fixes t :: u64 and g :: u32 and ty :: u16 and s :: u32
  assumes "unat ty < 2 ^ 8" and "unat s < 2 ^ 8" and "unat t < 2 ^ 16"
  defines "h \<equiv> push_bit 48 t OR push_bit 16 (ucast g) OR push_bit 8 (ucast ty) OR ucast s"
  shows "h AND mask 8 = ucast s" and "drop_bit 48 h = t"
    and "ucast (drop_bit 16 h AND mask 32) = g" and "ucast (drop_bit 8 h AND mask 8) = ty"
proof -
  note small = bit_smallD [OF _ assms(1)] bit_smallD [OF _ assms(2)] bit_smallD [OF _ assms(3)]
    bit_imp_le_length
  show "h AND mask 8 = ucast s" unfolding h_def
    by (rule bit_word_eqI) (auto simp: bit_simps dest: small)
  show "drop_bit 48 h = t" unfolding h_def
    by (rule bit_word_eqI) (auto simp: bit_simps dest: small)
  show "ucast (drop_bit 16 h AND mask 32) = g" unfolding h_def
    by (rule bit_word_eqI) (auto simp: bit_simps dest: small)
  show "ucast (drop_bit 8 h AND mask 8) = ty" unfolding h_def
    by (rule bit_word_eqI) (auto simp: bit_simps dest: small)
qed

lemma handle_recombine:
  fixes h :: u64
  shows "push_bit 48 (drop_bit 48 h) OR push_bit 16 (ucast (ucast (drop_bit 16 h AND mask 32) :: u32))
    OR push_bit 8 (ucast (ucast (drop_bit 8 h AND mask 8) :: u16)) OR
    ucast (ucast (h AND mask 8) :: u32) = h" (is "?l = h")
proof (rule bit_word_eqI)
  fix n assume "n < LENGTH(64)"
  then show "bit ?l n = bit h n"
    by (cases "n < 8"; cases "n < 16"; cases "n < 48") (auto simp: bit_simps)
qed

lemma make_handle_fields:
  assumes "slot < 16" and "unat (cap_type e) < 2 ^ 8"
  shows "make_handle (of_nat slot) e AND 0xFF = ucast (of_nat slot + 1 :: u32)"
    and "drop_bit 48 (make_handle (of_nat slot) e) = CAPABILITY_HANDLE_TAG"
    and "ucast (drop_bit 16 (make_handle (of_nat slot) e) AND 0xFFFFFFFF) = cap_generation e"
    and "ucast (drop_bit 8 (make_handle (of_nat slot) e) AND 0xFF) = cap_type e"
    and "make_handle (of_nat slot) e \<noteq> 0"
proof -
  have s: "unat (of_nat slot + 1 :: u32) < 2 ^ 8" using slot_plus_one(1) [OF assms(1)] assms(1) by simp
  note f = handle_fields [OF assms(2) s, of "CAPABILITY_HANDLE_TAG" "cap_generation e"]
  show "make_handle (of_nat slot) e AND 0xFF = ucast (of_nat slot + 1 :: u32)"
    and t: "drop_bit 48 (make_handle (of_nat slot) e) = CAPABILITY_HANDLE_TAG"
    and "ucast (drop_bit 16 (make_handle (of_nat slot) e) AND 0xFFFFFFFF) = cap_generation e"
    and "ucast (drop_bit 8 (make_handle (of_nat slot) e) AND 0xFF) = cap_type e"
    unfolding make_handle_def mask_literals by (rule f; simp)+
  show "make_handle (of_nat slot) e \<noteq> 0" using t by auto
qed

section \<open>The invariant and the view\<close>

definition cap_entry_ok :: "argus_capability_entry \<Rightarrow> bool" where
  "cap_entry_ok e \<longleftrightarrow> cap_generation e \<noteq> 0 \<and> cap_type e \<le> 6 \<and>
     cap_rights e AND NOT (allowed_rights (ucast (cap_type e))) = 0"

definition cap_inv :: "argus_capability_table \<Rightarrow> bool" where
  "cap_inv t \<longleftrightarrow> length (cap_entries t) = 16 \<and> list_all cap_entry_ok (cap_entries t)"

text \<open>The abstract table: what each live handle denotes.\<close>

definition cap_view :: "argus_capability_table \<Rightarrow> u64 \<Rightarrow> (u16 \<times> u16 \<times> u64) option" where
  "cap_view t h =
    (case find (\<lambda>i. cap_type (cap_entries t ! i) \<noteq> 0 \<and>
         make_handle (of_nat i) (cap_entries t ! i) = h) [0..<16] of
       None \<Rightarrow> None
     | Some i \<Rightarrow> let e = cap_entries t ! i in Some (cap_type e, cap_rights e, cap_object e))"

lemma cap_inv_length: "cap_inv t \<Longrightarrow> length (cap_entries t) = 16"
  by (simp add: cap_inv_def)

lemma cap_inv_nth: "cap_inv t \<Longrightarrow> i < 16 \<Longrightarrow> cap_entry_ok (cap_entries t ! i)"
  by (simp add: cap_inv_def list_all_length)

lemma cap_entry_type_small: "cap_entry_ok e \<Longrightarrow> unat (cap_type e) < 2 ^ 8"
  by (simp add: cap_entry_ok_def word_le_nat_alt)

lemma make_handle_eq_iff:
  assumes "i < 16" and "unat (cap_type e) < 2 ^ 8"
  shows "make_handle (of_nat i) e = h \<longleftrightarrow>
    drop_bit 48 h = CAPABILITY_HANDLE_TAG \<and> (ucast (h AND 0xFF) :: u32) = of_nat i + 1 \<and>
    ucast (drop_bit 16 h AND 0xFFFFFFFF) = cap_generation e \<and>
    ucast (drop_bit 8 h AND 0xFF) = cap_type e" (is "?l \<longleftrightarrow> ?r")
proof
  assume ?l
  moreover have "(ucast (ucast (of_nat i + 1 :: u32) :: u64) :: u32) = of_nat i + 1"
    by (rule ucast_u32_u64)
  ultimately show ?r using make_handle_fields [OF assms] by auto
next
  assume ?r
  then show ?l
    using handle_recombine [of h] by (simp add: make_handle_def mask_literals)
qed

lemma make_handle_inj:
  assumes "i < 16" "j < 16" "unat (cap_type e) < 2 ^ 8" "unat (cap_type f) < 2 ^ 8"
    and "make_handle (of_nat i) e = make_handle (of_nat j) f"
  shows "i = j \<and> cap_generation e = cap_generation f \<and> cap_type e = cap_type f"
proof -
  note a = make_handle_eq_iff [OF assms(1,3), THEN iffD1, OF assms(5)]
  note b = make_handle_eq_iff [OF assms(2,4), THEN iffD1, OF refl]
  have "of_nat i + 1 = (of_nat j + 1 :: u32)"
    by (rule trans [OF a [THEN conjunct2, THEN conjunct1, symmetric] b [THEN conjunct2, THEN conjunct1]])
  then have "unat (of_nat i + 1 :: u32) = unat (of_nat j + 1 :: u32)" by (rule arg_cong)
  then have "i = j"
    unfolding slot_plus_one(1) [OF assms(1)] slot_plus_one(1) [OF assms(2)] by (rule add_right_imp_eq)
  moreover have "cap_generation e = cap_generation f"
    by (rule trans [OF a [THEN conjunct2, THEN conjunct2, THEN conjunct1, symmetric]
          b [THEN conjunct2, THEN conjunct2, THEN conjunct1]])
  moreover have "cap_type e = cap_type f"
    by (rule trans [OF a [THEN conjunct2, THEN conjunct2, THEN conjunct2, symmetric]
          b [THEN conjunct2, THEN conjunct2, THEN conjunct2]])
  ultimately show ?thesis by blast
qed

lemma cap_view_Some_iff:
  assumes "cap_inv t"
  shows "cap_view t h = Some v \<longleftrightarrow> (\<exists>i<16. let e = cap_entries t ! i in
    cap_type e \<noteq> 0 \<and> make_handle (of_nat i) e = h \<and> v = (cap_type e, cap_rights e, cap_object e))"
    (is "_ \<longleftrightarrow> ?r")
proof
  assume "cap_view t h = Some v"
  then show ?r
    by (fastforce simp: cap_view_def find_upt_Some Let_def split: option.splits)
next
  assume ?r
  then obtain i where i: "i < 16" "cap_type (cap_entries t ! i) \<noteq> 0"
      "make_handle (of_nat i) (cap_entries t ! i) = h"
      "v = (cap_type (cap_entries t ! i), cap_rights (cap_entries t ! i), cap_object (cap_entries t ! i))"
    by (auto simp: Let_def)
  note small = cap_entry_type_small [OF cap_inv_nth [OF assms]]
  have "find (\<lambda>i. cap_type (cap_entries t ! i) \<noteq> 0 \<and>
         make_handle (of_nat i) (cap_entries t ! i) = h) [0..<16] = Some i"
    unfolding find_upt_Some
  proof (intro conjI allI impI)
    fix j assume "j < i"
    then have "j < 16" "j \<noteq> i" using i(1) by auto
    then have "make_handle (of_nat j) (cap_entries t ! j) \<noteq> h"
      using make_handle_inj [OF \<open>j < 16\<close> i(1) small [OF \<open>j < 16\<close>] small [OF i(1)]]
      unfolding i(3) by blast
    then show "\<not> (cap_type (cap_entries t ! j) \<noteq> 0 \<and>
         make_handle (of_nat j) (cap_entries t ! j) = h)" by simp
  qed (use i in simp_all)
  with i(4) show "cap_view t h = Some v" by (simp add: cap_view_def Let_def)
qed

lemma cap_view_None_iff:
  assumes "cap_inv t"
  shows "cap_view t h = None \<longleftrightarrow> (\<forall>i<16. cap_type (cap_entries t ! i) \<noteq> 0 \<longrightarrow>
    make_handle (of_nat i) (cap_entries t ! i) \<noteq> h)"
  by (auto simp: cap_view_def find_upt_None find_upt_Some Let_def split: option.splits)

lemma encoded_slot_cases:
  fixes s :: u32
  assumes "s \<noteq> 0" and "\<not> 16 < s"
  obtains i where "i < 16" and "s = of_nat i + 1" and "unat (s - 1) = i" and "s - 1 = of_nat i"
proof -
  have "unat s \<le> 16" "0 < unat s"
    using assms by (simp_all add: word_le_nat_alt not_less unat_gt_0)
  then have "unat (s - 1) < 16"
    using assms(1) by (simp add: unat_minus_one)
  moreover have "of_nat (unat (s - 1)) = s - 1" by (rule word_unat_eq_iff [THEN iffD2]) simp
  ultimately show ?thesis
    using that [of "unat (s - 1)"] by simp
qed

section \<open>Behaviour of the operations on the view\<close>

lemma allowed_rights_type:
  assumes "allowed_rights type \<noteq> 0"
  shows "type \<in> {1, 2, 3, 4, 5, 6}"
  using assms by (auto simp: allowed_rights_def split: if_splits)

lemma allowed_rights_cast:
  assumes "allowed_rights type \<noteq> 0"
  shows "(ucast (ucast type :: u16) :: u32) = type" and "(ucast type :: u16) \<noteq> 0"
    and "(ucast type :: u16) \<le> 6"
  using allowed_rights_type [OF assms] by auto

definition granted_entry :: "argus_capability_table \<Rightarrow> nat \<Rightarrow> u32 \<Rightarrow> u16 \<Rightarrow> u64 \<Rightarrow>
    argus_capability_entry" where
  "granted_entry t i type rights object = (cap_entries t ! i)
     \<lparr>cap_object := object, cap_type := ucast type, cap_rights := rights\<rparr>"

definition grant_ok :: "argus_capability_table \<Rightarrow> u32 \<Rightarrow> u16 \<Rightarrow> bool" where
  "grant_ok t type rights \<longleftrightarrow> cap_principal t \<noteq> 0 \<and> allowed_rights type \<noteq> 0 \<and> rights \<noteq> 0 \<and>
     rights AND NOT (allowed_rights type) = 0"

definition first_free :: "argus_capability_table \<Rightarrow> nat option" where
  "first_free t = find (\<lambda>i. cap_type (cap_entries t ! i) = 0) [0..<16]"

lemma capability_grant_eq:
  "capability_grant (Some t) type rights object =
    (if grant_ok t type rights
     then case first_free t of None \<Rightarrow> (0, Some t)
       | Some i \<Rightarrow> let e = granted_entry t i type rights object in
           (make_handle (of_nat i) e, Some (t\<lparr>cap_entries := (cap_entries t)[i := e]\<rparr>))
     else (0, Some t))"
  by (simp add: capability_grant_def grant_ok_def first_free_def granted_entry_def Let_def
      split: option.split)

lemma granted_entry_ok:
  assumes "cap_inv t" and "grant_ok t type rights" and "i < 16"
  shows "cap_entry_ok (granted_entry t i type rights object)"
  using assms cap_inv_nth [OF assms(1,3)] allowed_rights_cast [of type]
  by (simp add: cap_entry_ok_def granted_entry_def grant_ok_def)

lemma cap_inv_update:
  assumes "cap_inv t" and "cap_entry_ok e"
  shows "cap_inv (t\<lparr>cap_entries := (cap_entries t)[i := e]\<rparr>)"
  using assms set_update_subset_insert [of "cap_entries t" i e]
  by (auto simp: cap_inv_def list_all_iff)

lemma cap_view_update:
  assumes "cap_inv t" and "cap_entry_ok e" and "i < 16" and "cap_type (cap_entries t ! i) = 0"
    and "cap_type e \<noteq> 0"
  shows "cap_view (t\<lparr>cap_entries := (cap_entries t)[i := e]\<rparr>) =
    (cap_view t)(make_handle (of_nat i) e \<mapsto> (cap_type e, cap_rights e, cap_object e))"
    (is "cap_view ?u = ?v")
proof (rule ext)
  fix h
  have inv: "cap_inv ?u" using assms cap_inv_update by blast
  have len: "length (cap_entries t) = 16" using assms(1) by (rule cap_inv_length)
  note small = cap_entry_type_small [OF cap_inv_nth [OF assms(1)]] cap_entry_type_small [OF assms(2)]
  have eq: "cap_view ?u h = Some w \<longleftrightarrow> ?v h = Some w" for w
  proof (cases "h = make_handle (of_nat i) e")
    case True
    have "cap_view ?u h = Some (cap_type e, cap_rights e, cap_object e)"
      unfolding cap_view_Some_iff [OF inv] using assms len True by (auto simp: Let_def)
    with True show ?thesis by auto
  next
    case False
    then show ?thesis
      unfolding cap_view_Some_iff [OF inv] fun_upd_other [OF False] cap_view_Some_iff [OF assms(1)]
      using assms(3,4) len by (auto simp: Let_def nth_list_update)
  qed
  then show "cap_view ?u h = ?v h" by (metis option.exhaust)
qed

lemma first_free_Some:
  assumes "first_free t = Some i"
  shows "i < 16" and "cap_type (cap_entries t ! i) = 0"
  using assms by (simp_all add: first_free_def find_upt_Some)

lemma fresh_handle_dead:
  assumes "cap_inv t" and "i < 16" and "cap_type (cap_entries t ! i) = 0" and "cap_entry_ok e"
  shows "cap_view t (make_handle (of_nat i) e) = None"
  unfolding cap_view_None_iff [OF assms(1)]
proof (intro allI impI notI)
  fix j
  assume j: "j < 16" "cap_type (cap_entries t ! j) \<noteq> 0"
    and eq: "make_handle (of_nat j) (cap_entries t ! j) = make_handle (of_nat i) e"
  have "j = i"
    using make_handle_inj [OF j(1) assms(2) cap_entry_type_small [OF cap_inv_nth [OF assms(1) j(1)]]
        cap_entry_type_small [OF assms(4)] eq] by (rule conjunct1)
  with j assms(3) show False by simp
qed

lemma capability_resolve_eq:
  assumes "cap_inv t" and "type \<noteq> 0"
  shows "capability_resolve (Some t) h type req =
    (if cap_principal t = 0 then None
     else case cap_view t h of None \<Rightarrow> None
       | Some (ty, r, ob) \<Rightarrow> if ucast ty = type \<and> r AND req = req then Some ob else None)"
proof -
  let ?s = "ucast (h AND 0xFF) :: u32"
  show ?thesis
  proof (cases "h = 0 \<or> drop_bit 48 h \<noteq> CAPABILITY_HANDLE_TAG \<or> ?s = 0 \<or> 16 < ?s")
    case True
    have "cap_view t h = None"
      unfolding cap_view_None_iff [OF assms(1)]
    proof (intro allI impI notI)
      fix i
      assume i: "i < 16" and eq: "make_handle (of_nat i) (cap_entries t ! i) = h"
      note small = cap_entry_type_small [OF cap_inv_nth [OF assms(1) i]]
      note f = make_handle_eq_iff [OF i small, THEN iffD1, OF eq]
      have "h \<noteq> 0" using make_handle_fields(5) [OF i small] eq by simp
      with True f slot_plus_one(2,3) [OF i] show False by (simp only:) auto
    qed
    moreover have "capability_resolve (Some t) h type req = None"
      using True by (auto simp: capability_resolve_def Let_def)
    ultimately show ?thesis by simp
  next
    case False
    then obtain i where i: "i < 16" "?s = of_nat i + 1" "unat (?s - 1) = i"
      using encoded_slot_cases [of ?s] by (metis (no_types))
    let ?e = "cap_entries t ! i"
    have small: "unat (cap_type ?e) < 2 ^ 8"
      by (rule cap_entry_type_small [OF cap_inv_nth [OF assms(1) i(1)]])
    have view: "cap_view t h = (if cap_type ?e \<noteq> 0 \<and> make_handle (of_nat i) ?e = h
      then Some (cap_type ?e, cap_rights ?e, cap_object ?e) else None)"
    proof (cases "cap_type ?e \<noteq> 0 \<and> make_handle (of_nat i) ?e = h")
      case True
      then have "cap_view t h = Some (cap_type ?e, cap_rights ?e, cap_object ?e)"
        unfolding cap_view_Some_iff [OF assms(1)] using i(1) by (auto simp: Let_def)
      with True show ?thesis by simp
    next
      case False
      have "cap_view t h = None"
        unfolding cap_view_None_iff [OF assms(1)]
      proof (intro allI impI notI)
        fix j
        assume j: "j < 16" "cap_type (cap_entries t ! j) \<noteq> 0"
          and eq: "make_handle (of_nat j) (cap_entries t ! j) = h"
        note f = make_handle_eq_iff [OF j(1) cap_entry_type_small [OF cap_inv_nth [OF assms(1) j(1)]],
          THEN iffD1, OF eq, THEN conjunct2, THEN conjunct1]
        have "(of_nat j + 1 :: u32) = of_nat i + 1" using f i(2) by simp
        then have "unat (of_nat j + 1 :: u32) = unat (of_nat i + 1 :: u32)" by (rule arg_cong)
        then have "j = i"
          unfolding slot_plus_one(1) [OF j(1)] slot_plus_one(1) [OF i(1)] by (rule add_right_imp_eq)
        with j eq False show False by simp
      qed
      with False show ?thesis by auto
    qed
    have res: "capability_resolve (Some t) h type req =
      (if cap_principal t = 0 \<or> ucast (cap_type ?e) \<noteq> type \<or>
          ucast (ucast (drop_bit 8 h AND 0xFF) :: u16) \<noteq> type \<or>
          cap_generation ?e \<noteq> ucast (drop_bit 16 h AND 0xFFFFFFFF) \<or>
          cap_rights ?e AND req \<noteq> req then None else Some (cap_object ?e))"
      using False i(3) by (simp add: capability_resolve_def Let_def)
    have cast: "ucast x = (ucast y :: u32) \<longleftrightarrow> x = y" for x y :: u16
      by (rule ucast_u16_u32_inj)
    have mh: "make_handle (of_nat i) ?e = h \<longleftrightarrow>
      ucast (drop_bit 16 h AND 0xFFFFFFFF) = cap_generation ?e \<and>
      ucast (drop_bit 8 h AND 0xFF) = cap_type ?e"
      unfolding make_handle_eq_iff [OF i(1) small] using False i(2) by simp
    show ?thesis
      unfolding res view mh using assms(2) cast by (auto split: if_splits)
  qed
qed

definition revoked_entry :: "argus_capability_entry \<Rightarrow> argus_capability_entry" where
  "revoked_entry e = zero_capability_entry\<lparr>cap_generation := next_generation (cap_generation e)\<rparr>"

lemma revoked_entry_ok: "cap_entry_ok (revoked_entry e)" "cap_type (revoked_entry e) = 0"
  by (simp_all add: revoked_entry_def cap_entry_ok_def zero_capability_entry_def)

lemma capability_revoke_live:
  assumes "cap_inv t" and "i < 16" and "cap_type (cap_entries t ! i) \<noteq> 0"
    and "make_handle (of_nat i) (cap_entries t ! i) = h"
  shows "capability_revoke (Some t) h = (True,
    Some (t\<lparr>cap_entries := (cap_entries t)[i := revoked_entry (cap_entries t ! i)]\<rparr>))"
proof -
  note small = cap_entry_type_small [OF cap_inv_nth [OF assms(1,2)]]
  have f: "drop_bit 48 h = CAPABILITY_HANDLE_TAG" "(ucast (h AND 0xFF) :: u32) = of_nat i + 1"
    using make_handle_eq_iff [OF assms(2) small, THEN iffD1, OF assms(4)] by simp_all
  have "h \<noteq> 0" using make_handle_fields(5) [OF assms(2) small] assms(4) by simp
  moreover have "\<not> (16 :: u32) < of_nat i + 1" "(of_nat i + 1 :: u32) \<noteq> 0"
    using slot_plus_one [OF assms(2)] by (simp_all add: not_less)
  moreover have "unat (of_nat i :: u32) = i" using assms(2) by (simp add: unat_of_nat)
  ultimately show ?thesis
    using f assms(3,4)
    by (simp add: capability_revoke_def Let_def revoked_entry_def next_generation_def)
qed

lemma capability_revoke_dead:
  assumes "cap_inv t" and "cap_view t h = None"
  shows "capability_revoke (Some t) h = (False, Some t)"
proof (cases "h = 0 \<or> drop_bit 48 h \<noteq> CAPABILITY_HANDLE_TAG \<or>
    (ucast (h AND 0xFF) :: u32) = 0 \<or> 16 < (ucast (h AND 0xFF) :: u32)")
  case True
  then show ?thesis by (auto simp: capability_revoke_def Let_def)
next
  case False
  then obtain i where i: "i < 16" "unat (ucast (h AND 0xFF) - 1 :: u32) = i"
      "(ucast (h AND 0xFF) - 1 :: u32) = of_nat i"
    using encoded_slot_cases [of "ucast (h AND 0xFF)"] by (metis (no_types))
  have "make_handle (of_nat i) (cap_entries t ! i) \<noteq> h \<or> cap_type (cap_entries t ! i) = 0"
    using assms i(1) unfolding cap_view_None_iff [OF assms(1)] by blast
  with False i(2,3) show ?thesis by (simp add: capability_revoke_def Let_def)
qed

lemma cap_view_release:
  assumes "cap_inv t" and "i < 16" and "cap_type (cap_entries t ! i) \<noteq> 0"
    and "cap_entry_ok e" and "cap_type e = 0"
  shows "cap_view (t\<lparr>cap_entries := (cap_entries t)[i := e]\<rparr>) =
    (cap_view t)(make_handle (of_nat i) (cap_entries t ! i) := None)"
    (is "cap_view ?u = ?v")
proof (rule ext)
  fix h
  have inv: "cap_inv ?u" using assms cap_inv_update by blast
  have len: "length (cap_entries t) = 16" using assms(1) by (rule cap_inv_length)
  note small = cap_entry_type_small [OF cap_inv_nth [OF assms(1)]]
  have uniq: "j = i" if "j < 16" "make_handle (of_nat j) (cap_entries t ! j) =
      make_handle (of_nat i) (cap_entries t ! i)" for j
    using make_handle_inj [OF that(1) assms(2) small [OF that(1)] small [OF assms(2)] that(2)]
    by (rule conjunct1)
  have eq: "cap_view ?u h = Some w \<longleftrightarrow> ?v h = Some w" for w
  proof (cases "h = make_handle (of_nat i) (cap_entries t ! i)")
    case True
    then show ?thesis
      unfolding cap_view_Some_iff [OF inv] using assms(2,5) len uniq
      by (auto simp: Let_def nth_list_update split: if_splits)
  next
    case False
    then show ?thesis
      unfolding cap_view_Some_iff [OF inv] fun_upd_other [OF False] cap_view_Some_iff [OF assms(1)]
      using assms(2,5) len by (auto simp: Let_def nth_list_update)
  qed
  then show "cap_view ?u h = ?v h" by (metis option.exhaust)
qed

section \<open>The table as a handle store\<close>

definition cap_issue :: "u32 \<times> u16 \<times> u64 \<Rightarrow> argus_capability_table \<Rightarrow>
    u64 \<times> argus_capability_table" where
  "cap_issue x t = (case x of (type, rights, object) \<Rightarrow>
     (case capability_grant (Some t) type rights object of
        (h, Some t') \<Rightarrow> (h, t') | (h, None) \<Rightarrow> (h, t)))"

definition cap_release :: "u64 \<Rightarrow> argus_capability_table \<Rightarrow> bool \<times> argus_capability_table" where
  "cap_release h t = (case capability_revoke (Some t) h of
     (b, Some t') \<Rightarrow> (b, t') | (b, None) \<Rightarrow> (b, t))"

definition cap_content :: "u32 \<times> u16 \<times> u64 \<Rightarrow> u16 \<times> u16 \<times> u64" where
  "cap_content x = (case x of (type, rights, object) \<Rightarrow> (ucast type, rights, object))"

definition cap_slot :: "u64 \<Rightarrow> nat" where
  "cap_slot h = unat (ucast (h AND 0xFF) - 1 :: u32)"

definition cap_distance :: "argus_capability_table \<Rightarrow> u64 \<Rightarrow> nat" where
  "cap_distance t h =
    (if cap_slot h < 16
     then generation_distance (ucast (drop_bit 16 h AND 0xFFFFFFFF))
       (cap_generation (cap_entries t ! cap_slot h))
     else 0)"

lemma cap_issue_cases:
  assumes "cap_inv t"
  obtains (refused) "cap_issue x t = (0, t)"
  | (granted) i e where "i < 16" "cap_type (cap_entries t ! i) = 0" "cap_entry_ok e"
      "cap_type e \<noteq> 0" "cap_content x = (cap_type e, cap_rights e, cap_object e)"
      "cap_generation e = cap_generation (cap_entries t ! i)"
      "cap_issue x t = (make_handle (of_nat i) e, t\<lparr>cap_entries := (cap_entries t)[i := e]\<rparr>)"
proof -
  obtain type rights object where x: "x = (type, rights, object)" by (cases x)
  show thesis
  proof (cases "grant_ok t type rights \<and> first_free t \<noteq> None")
    case True
    then obtain i where i: "first_free t = Some i" and ok: "grant_ok t type rights" by auto
    note ff = first_free_Some [OF i]
    have "allowed_rights type \<noteq> 0" using ok by (simp add: grant_ok_def)
    note cast = allowed_rights_cast [OF this]
    show thesis
      by (rule granted [OF ff granted_entry_ok [OF assms ok ff(1)]])
        (use ok i cast in \<open>simp_all add: cap_issue_def x capability_grant_eq Let_def
            granted_entry_def cap_content_def\<close>)
  next
    case False
    then have "cap_issue x t = (0, t)"
      by (auto simp: cap_issue_def x capability_grant_eq Let_def)
    then show thesis by (rule refused)
  qed
qed

lemma cap_release_cases:
  assumes "cap_inv t"
  obtains (dead) "cap_view t h = None" "cap_release h t = (False, t)"
  | (live) i where "i < 16" "cap_type (cap_entries t ! i) \<noteq> 0"
      "make_handle (of_nat i) (cap_entries t ! i) = h" "cap_view t h \<noteq> None"
      "cap_release h t =
        (True, t\<lparr>cap_entries := (cap_entries t)[i := revoked_entry (cap_entries t ! i)]\<rparr>)"
proof (cases "cap_view t h")
  case None
  then show thesis
    by (rule dead) (simp add: cap_release_def capability_revoke_dead [OF assms None])
next
  case (Some v)
  then obtain i where i: "i < 16" "cap_type (cap_entries t ! i) \<noteq> 0"
      "make_handle (of_nat i) (cap_entries t ! i) = h"
    unfolding cap_view_Some_iff [OF assms] by (auto simp: Let_def)
  show thesis
    by (rule live [OF i]) (simp_all add: Some cap_release_def capability_revoke_live [OF assms i])
qed

lemma cap_slot_make_handle:
  assumes "i < 16" and "unat (cap_type e) < 2 ^ 8"
  shows "cap_slot (make_handle (of_nat i) e) = i"
proof -
  have "(ucast (make_handle (of_nat i) e AND 0xFF) :: u32) = of_nat i + 1"
    using make_handle_eq_iff [OF assms, THEN iffD1, OF refl] by simp
  then show ?thesis using assms(1) by (simp add: cap_slot_def unat_of_nat)
qed


lemma cap_distance_update:
  assumes "cap_inv t" and "i < 16" and "cap_generation e = cap_generation (cap_entries t ! i)"
  shows "cap_distance (t\<lparr>cap_entries := (cap_entries t)[i := e]\<rparr>) h = cap_distance t h"
  using assms cap_inv_length [OF assms(1)] by (simp add: cap_distance_def nth_list_update)

lemma cap_distance_handle:
  assumes "i < 16" and "unat (cap_type e) < 2 ^ 8"
  shows "cap_distance t (make_handle (of_nat i) e) =
    generation_distance (cap_generation e) (cap_generation (cap_entries t ! i))"
  using assms make_handle_fields(3) [OF assms]
  by (simp add: cap_distance_def cap_slot_make_handle)

lemma cap_distance_revoke:
  assumes "cap_inv t" and "i < 16"
  shows "cap_distance t h \<le>
    Suc (cap_distance (t\<lparr>cap_entries := (cap_entries t)[i := revoked_entry (cap_entries t ! i)]\<rparr>) h)"
proof (cases "cap_slot h = i")
  case True
  have "cap_generation (cap_entries t ! i) \<noteq> 0"
    using cap_inv_nth [OF assms] by (simp add: cap_entry_ok_def)
  then show ?thesis
    using True assms(2) cap_inv_length [OF assms(1)] generation_distance_next
    by (simp add: cap_distance_def revoked_entry_def)
next
  case False
  then show ?thesis by (simp add: cap_distance_def)
qed

interpretation cap_store: handle_store cap_inv cap_view cap_content cap_issue cap_release
  cap_distance "2 ^ 32 - 2"
proof
  fix t x assume inv: "cap_inv t"
  show "cap_inv (snd (cap_issue x t))"
    using inv by (cases rule: cap_issue_cases [OF inv, of x]) (simp_all add: cap_inv_update)
next
  fix t h assume inv: "cap_inv t"
  show "cap_inv (snd (cap_release h t))"
    using inv by (cases rule: cap_release_cases [OF inv, of h])
      (simp_all add: cap_inv_update revoked_entry_ok)
next
  fix t x t' assume inv: "cap_inv t" and r: "cap_issue x t = (0, t')"
  show "t' = t"
  proof (cases rule: cap_issue_cases [OF inv, of x, case_names refused granted])
    case (granted i e)
    then show ?thesis
      using r make_handle_fields(5) [OF granted(1) cap_entry_type_small [OF granted(3)]] by simp
  qed (use r in simp)
next
  fix t x h t' assume inv: "cap_inv t" and r: "cap_issue x t = (h, t')" "h \<noteq> 0"
  show "cap_view t h = None"
    using r fresh_handle_dead [OF inv] by (cases rule: cap_issue_cases [OF inv, of x]) auto
  show "cap_view t' = (cap_view t)(h \<mapsto> cap_content x)"
    using r cap_view_update [OF inv] by (cases rule: cap_issue_cases [OF inv, of x]) auto
next
  fix t h assume inv: "cap_inv t"
  show "fst (cap_release h t) \<longleftrightarrow> cap_view t h \<noteq> None"
    by (cases rule: cap_release_cases [OF inv, of h]) simp_all
next
  fix t h t' assume inv: "cap_inv t" and r: "cap_release h t = (False, t')"
  show "t' = t" using r by (cases rule: cap_release_cases [OF inv, of h]) simp_all
next
  fix t h t' assume inv: "cap_inv t" and r: "cap_release h t = (True, t')"
  show "cap_view t' = (cap_view t)(h := None)"
    using r cap_view_release [OF inv _ _ revoked_entry_ok]
    by (cases rule: cap_release_cases [OF inv, of h]) auto
  show "cap_distance t' h = 2 ^ 32 - 2"
  proof (cases rule: cap_release_cases [OF inv, of h, case_names dead live])
    case (live i)
    note ok = cap_inv_nth [OF inv live(1)]
    have g: "cap_generation (cap_entries t ! i) \<noteq> 0" using ok by (simp add: cap_entry_ok_def)
    have "cap_generation (cap_entries t' ! i) = next_generation (cap_generation (cap_entries t ! i))"
      using live(1,5) r cap_inv_length [OF inv] by (auto simp: revoked_entry_def)
    with g show ?thesis
      unfolding live(3) [symmetric] cap_distance_handle [OF live(1) cap_entry_type_small [OF ok]]
      by (simp add: generation_distance_released)
  qed (use r in simp)
next
  fix t h assume inv: "cap_inv t" and v: "cap_view t h \<noteq> None"
  show "cap_distance t h = 0"
  proof (cases rule: cap_release_cases [OF inv, of h, case_names dead live])
    case (live i)
    show ?thesis
      unfolding live(3) [symmetric]
        cap_distance_handle [OF live(1) cap_entry_type_small [OF cap_inv_nth [OF inv live(1)]]]
      by (rule generation_distance_self)
  qed (use v in simp)
next
  fix t x h assume inv: "cap_inv t"
  show "cap_distance (snd (cap_issue x t)) h = cap_distance t h"
    by (cases rule: cap_issue_cases [OF inv, of x]) (simp_all add: cap_distance_update [OF inv])
next
  fix t h k assume inv: "cap_inv t" and "cap_view t h = None"
  show "cap_distance t h \<le> Suc (cap_distance (snd (cap_release k t)) h)"
    by (cases rule: cap_release_cases [OF inv, of k]) (simp_all add: cap_distance_revoke [OF inv])
qed

section \<open>Properties\<close>

lemma initial_generation_nonzero:
  assumes "slot < 16"
  shows "initial_generation owner (of_nat slot) \<noteq> 0"
  using slot_plus_one(2) [OF assms] by (simp add: initial_generation_def Let_def)

abbreviation fresh_capability_table :: "u64 \<Rightarrow> argus_capability_table" where
  "fresh_capability_table owner \<equiv>
     the (capability_table_init (Some empty_capability_table) owner)"

lemma fresh_table_inv: "cap_inv (fresh_capability_table owner)"
  using initial_generation_nonzero
  by (simp add: capability_table_init_def cap_inv_def list_all_length cap_entry_ok_def
      zero_capability_entry_def)

lemma fresh_table_view: "cap_view (fresh_capability_table owner) h = None"
  unfolding cap_view_None_iff [OF fresh_table_inv]
  by (simp add: capability_table_init_def zero_capability_entry_def)

abbreviation cap_run :: "(u32 \<times> u16 \<times> u64) store_op list \<Rightarrow> argus_capability_table \<Rightarrow>
    argus_capability_table" where
  "cap_run \<equiv> store_run cap_issue cap_release"

lemma cap_step_principal: "cap_principal (store_step cap_issue cap_release x t) = cap_principal t"
  by (cases x) (auto simp: cap_issue_def cap_release_def capability_grant_def capability_revoke_def
      Let_def split: option.splits prod.splits if_splits)

lemma cap_run_principal: "cap_principal (cap_run ops t) = cap_principal t"
  by (induction ops arbitrary: t) (simp_all add: cap_step_principal)

lemma cap_issue_allowed:
  assumes "fst (cap_issue (type, rights, object) t) \<noteq> 0"
  shows "allowed_rights type \<noteq> 0"
  using assms by (auto simp: cap_issue_def capability_grant_eq grant_ok_def split: if_splits)

lemma cap_content_resolves:
  assumes "fst (cap_issue (type', rights, object') t) \<noteq> 0"
  shows "cap_content (type', rights, object') = (ty, r, object) \<and> ucast ty = type \<longleftrightarrow>
    type' = type \<and> rights = r \<and> object' = object \<and> ty = ucast type"
  using allowed_rights_cast(1) [OF cap_issue_allowed [OF assms]] by (auto simp: cap_content_def)

text \<open>
  Claim C1. Capabilities are unforgeable and revocable. Whatever grants and revocations a
  principal's table has gone through since \<^verbatim>\<open>capability_table_init\<close>, \<^verbatim>\<open>capability_resolve\<close>
  accepts a 64-bit handle for a type and a set of rights exactly when some earlier
  \<^verbatim>\<open>capability_grant\<close> of that type returned this very handle, with at least those rights and
  this object, and no \<^verbatim>\<open>capability_revoke\<close> of the handle came after it.
\<close>

theorem capability_resolve_iff_granted:
  assumes "owner \<noteq> 0" and "type \<noteq> 0"
  shows "capability_resolve (Some (cap_run ops (fresh_capability_table owner))) h type required
      = Some object \<longleftrightarrow>
    (\<exists>before rights after. ops = before @ Issue (type, rights, object) # after \<and>
       fst (cap_issue (type, rights, object) (cap_run before (fresh_capability_table owner))) = h \<and>
       h \<noteq> 0 \<and> Release h \<notin> set after \<and> rights AND required = required)"
    (is "?resolved \<longleftrightarrow> ?granted")
proof -
  let ?t = "fresh_capability_table owner" and ?u = "cap_run ops (fresh_capability_table owner)"
  have owner: "cap_principal ?u \<noteq> 0"
    unfolding cap_run_principal using assms(1) by (simp add: capability_table_init_def)
  have "?resolved \<longleftrightarrow> (\<exists>ty r. cap_view ?u h = Some (ty, r, object) \<and> ucast ty = type \<and>
      r AND required = required)"
    unfolding capability_resolve_eq [OF cap_store.inv_run [OF fresh_table_inv] assms(2)]
    using owner by (auto split: option.splits prod.splits if_splits)
  also have "\<dots> \<longleftrightarrow> ?granted"
    unfolding cap_store.live_iff_issued [OF fresh_table_inv fresh_table_view]
      cap_store.issued_in_def
    using cap_content_resolves by (fastforce simp: cap_content_def)
  finally show ?thesis .
qed

theorem capability_resolve_iff_granted_witness:
  "(11 :: u64) \<noteq> 0 \<and> (1 :: u32) \<noteq> 0 \<and>
   capability_resolve (Some (cap_run [Issue (1, 1, 77)] (fresh_capability_table 11)))
     (fst (cap_issue (1, 1, 77) (fresh_capability_table 11))) 1 1 = Some 77"
proof -
  have "fst (cap_issue (1, 1, 77) (fresh_capability_table 11)) \<noteq> 0" by code_simp
  then show ?thesis
    using capability_resolve_iff_granted [of 11 1 "[Issue (1, 1, 77)]"
        "fst (cap_issue (1, 1, 77) (fresh_capability_table 11))" 1 77]
    by (simp add: Cons_eq_append_conv)
qed

text \<open>
  Claim C23. A revoked handle stays dead. After \<^verbatim>\<open>capability_revoke\<close> accepts a handle, no
  sequence of further grants and revocations makes \<^verbatim>\<open>capability_resolve\<close> accept it again
  until the table has seen 2 ^ 32 - 2 more revocations: the 32-bit generation of the slot has
  to walk its whole cycle, which skips 0, before it repeats.
\<close>

theorem revoked_capability_stays_dead:
  assumes "cap_inv t" and "cap_release h t = (True, t')" and "type \<noteq> 0"
    and "length (filter is_release ops) < 2 ^ 32 - 2"
  shows "capability_resolve (Some (cap_run ops t')) h type required = None"
proof -
  have "h \<noteq> 0" using assms(2) by (auto simp: cap_release_def capability_revoke_def)
  then have "cap_view (cap_run ops t') h = None"
    using cap_store.stale_handle_dead [OF assms(1,2,4)] by simp
  moreover have "cap_inv (cap_run ops t')"
    using cap_store.inv_release [OF assms(1), of h] assms(2) cap_store.inv_run by simp
  ultimately show ?thesis using capability_resolve_eq assms(3) by simp
qed

theorem revoked_capability_stays_dead_witness:
  "\<exists>t h t'. cap_inv t \<and> cap_release h t = (True, t') \<and>
     capability_resolve (Some (cap_run [Issue (1, 1, 7), Release h] t')) h 1 1 = None"
proof -
  define t where "t = snd (cap_issue (1, 1, 77) (fresh_capability_table 11))"
  define h where "h = fst (cap_issue (1, 1, 77) (fresh_capability_table 11))"
  have inv: "cap_inv t" unfolding t_def by (rule cap_store.inv_issue [OF fresh_table_inv])
  have "fst (cap_release h t)" unfolding t_def h_def by code_simp
  then obtain t' where r: "cap_release h t = (True, t')" by (cases "cap_release h t") auto
  then have "capability_resolve (Some (cap_run [Issue (1, 1, 7), Release h] t')) h 1 1 = None"
    by (rule revoked_capability_stays_dead [OF inv]) simp_all
  with inv r show ?thesis by blast
qed

text \<open>
  Claim C26. \<^verbatim>\<open>capability_grant\<close> refines insertion into the map of live handles. On a table of
  a principal it refuses (returns 0 and leaves the table as it is) exactly when the type has no
  rights, the requested rights are empty or exceed those of the type, or all sixteen slots are
  taken; otherwise the returned handle is non-zero, was not live before, and the map of live
  handles gains just that handle with the requested type, rights and object.
\<close>

theorem capability_grant_refines_insert:
  assumes "cap_inv t" and "cap_principal t \<noteq> 0"
    and "capability_grant (Some t) type rights object = (h, u)"
  shows "(h = 0) = (allowed_rights type = 0 \<or> rights = 0 \<or> rights AND NOT (allowed_rights type) \<noteq> 0 \<or>
      (\<forall>i<16. cap_type (cap_entries t ! i) \<noteq> 0))
    \<and> (if h = 0 then u = Some t
       else \<exists>t'. u = Some t' \<and> cap_inv t' \<and> cap_view t h = None \<and>
         cap_view t' = (cap_view t)(h \<mapsto> (ucast type, rights, object)))"
proof (cases "grant_ok t type rights \<and> first_free t \<noteq> None")
  case True
  then obtain i where i: "first_free t = Some i" and ok: "grant_ok t type rights" by auto
  let ?e = "granted_entry t i type rights object"
  note ff = first_free_Some [OF i] and eok = granted_entry_ok [OF assms(1) ok first_free_Some(1) [OF i]]
  have r: "h = make_handle (of_nat i) ?e" "u = Some (t\<lparr>cap_entries := (cap_entries t)[i := ?e]\<rparr>)"
    using assms(3) ok i by (simp_all add: capability_grant_eq Let_def)
  have nz: "h \<noteq> 0" unfolding r by (rule make_handle_fields(5) [OF ff(1) cap_entry_type_small [OF eok]])
  have ty: "cap_type ?e = ucast type" "cap_rights ?e = rights" "cap_object ?e = object"
    by (simp_all add: granted_entry_def)
  have "cap_type ?e \<noteq> 0"
    unfolding ty using ok allowed_rights_cast(2) by (simp add: grant_ok_def)
  note v = cap_view_update [OF assms(1) eok ff this, unfolded ty]
  show ?thesis
    using nz r(2) v ok ff fresh_handle_dead [OF assms(1) ff eok] cap_inv_update [OF assms(1) eok]
    by (auto simp: grant_ok_def r(1))
next
  case False
  then have "h = 0" "u = Some t" using assms(3) by (auto simp: capability_grant_eq split: if_splits)
  with False assms(2) show ?thesis
    by (auto simp: grant_ok_def first_free_def find_upt_None find_upt_Some)
qed

theorem capability_grant_refines_insert_witness:
  "\<exists>h t'. capability_grant (Some (fresh_capability_table 11)) 2 5 9 = (h, Some t') \<and> h \<noteq> 0 \<and>
     cap_view t' h = Some (2, 5, 9)"
proof -
  obtain h u where r: "capability_grant (Some (fresh_capability_table 11)) 2 5 9 = (h, u)"
    by (cases "capability_grant (Some (fresh_capability_table 11)) 2 5 9")
  have p: "cap_principal (fresh_capability_table 11) \<noteq> 0" by code_simp
  have "fst (capability_grant (Some (fresh_capability_table 11)) 2 5 9) \<noteq> 0" by code_simp
  with r have "h \<noteq> 0" by simp
  then show ?thesis
    using capability_grant_refines_insert [OF fresh_table_inv p r] r by auto
qed

end
