(* ===== verification/Fifo.thy ===== *)
theory Fifo
  imports Argus_Prelude
begin

text \<open>
  Ring buffers. The kernel keeps four bounded queues in fixed arrays with a head and a tail
  index: the messages of an IPC endpoint (\<^verbatim>\<open>ipc.c\<close>), the keys and the pointer events of the
  PS/2 driver (\<^verbatim>\<open>ps2.c\<close>) and the key presses of a process (\<^verbatim>\<open>process.c\<close>). This theory has
  the list that such an array denotes, the two facts about writing at the head and reading
  at the tail, and the contract of a bounded first-in first-out queue, in which the order of
  delivery is proved once for all of them.
\<close>

section \<open>The list in a ring\<close>

definition ring_list :: "'a list \<Rightarrow> nat \<Rightarrow> nat \<Rightarrow> 'a list" where
  "ring_list xs tail count = map (\<lambda>k. xs ! ((tail + k) mod length xs)) [0..<count]"

lemma length_ring_list [simp]: "length (ring_list xs tail count) = count"
  by (simp add: ring_list_def)

lemma ring_list_empty [simp]: "ring_list xs tail 0 = []"
  by (simp add: ring_list_def)

lemma ring_index_neq:
  assumes "k < count" and "count < n"
  shows "(tail + k) mod n \<noteq> (tail + count) mod (n::nat)"
proof
  assume eq: "(tail + k) mod n = (tail + count) mod n"
  have "n dvd count - k"
    using mod_eq_dvd_iff_nat [of "tail + k" "tail + count" n] eq assms by simp
  then show False using assms by (auto dest: dvd_imp_le)
qed

lemma ring_list_enqueue:
  assumes "count < length xs"
  shows "ring_list (xs[(tail + count) mod length xs := x]) tail (Suc count) =
    ring_list xs tail count @ [x]"
proof -
  have "(tail + count) mod length xs < length xs" using assms by (intro mod_less_divisor) linarith
  moreover have "(xs[(tail + count) mod length xs := x]) ! ((tail + k) mod length xs) =
      xs ! ((tail + k) mod length xs)" if "k < count" for k
    using ring_index_neq [OF that assms, of tail] by (intro nth_list_update_neq) simp
  ultimately show ?thesis by (simp add: ring_list_def)
qed

lemma ring_list_dequeue:
  assumes "0 < count"
  shows "ring_list xs tail count =
    xs ! (tail mod length xs) # ring_list xs ((tail + 1) mod length xs) (count - 1)"
proof -
  obtain c where c: "count = Suc c" using assms by (cases count) auto
  have "((tail + 1) mod length xs + k) mod length xs = (tail + Suc k) mod length xs" for k
    by (simp add: mod_simps)
  then show ?thesis
    unfolding ring_list_def c by (simp add: map_upt_Suc del: upt_Suc)
qed

lemma ring_list_update_other:
  assumes "\<And>k. k < count \<Longrightarrow> i \<noteq> (tail + k) mod length xs"
  shows "ring_list (xs[i := x]) tail count = ring_list xs tail count"
  using assms by (auto simp: ring_list_def)

section \<open>Bounded first-in first-out queues\<close>

datatype 'a fifo_op = Enq 'a | Deq

fun fifo_run :: "('a \<Rightarrow> 's \<Rightarrow> bool \<times> 's) \<Rightarrow> ('s \<Rightarrow> 'a option \<times> 's) \<Rightarrow>
    'a fifo_op list \<Rightarrow> 's \<Rightarrow> 'a list \<times> 'a list \<times> 's" where
  "fifo_run enq deq [] s = ([], [], s)"
| "fifo_run enq deq (Enq x # ops) s =
    (case enq x s of (ok, s') \<Rightarrow>
      (case fifo_run enq deq ops s' of (accepted, delivered, t) \<Rightarrow>
        (if ok then x # accepted else accepted, delivered, t)))"
| "fifo_run enq deq (Deq # ops) s =
    (case deq s of (r, s') \<Rightarrow>
      (case fifo_run enq deq ops s' of (accepted, delivered, t) \<Rightarrow>
        (accepted, case r of None \<Rightarrow> delivered | Some x \<Rightarrow> x # delivered, t)))"

fun fifo_items :: "'a fifo_op list \<Rightarrow> 'a list" where
  "fifo_items [] = []"
| "fifo_items (Enq x # ops) = x # fifo_items ops"
| "fifo_items (Deq # ops) = fifo_items ops"

text \<open>
  The specification: a list of at most \<open>cap\<close> items. An item is accepted exactly when there is room, and a
  removal takes the oldest one. The result is what was accepted, what was delivered and what is left.
\<close>

fun bounded_queue :: "nat \<Rightarrow> 'a fifo_op list \<Rightarrow> 'a list \<Rightarrow> 'a list \<times> 'a list \<times> 'a list" where
  "bounded_queue cap [] q = ([], [], q)"
| "bounded_queue cap (Enq x # ops) q =
    (if length q < cap then case bounded_queue cap ops (q @ [x]) of (accepted, delivered, r) \<Rightarrow> (x # accepted, delivered, r)
     else bounded_queue cap ops q)"
| "bounded_queue cap (Deq # ops) [] = bounded_queue cap ops []"
| "bounded_queue cap (Deq # ops) (x # q) =
    (case bounded_queue cap ops q of (accepted, delivered, r) \<Rightarrow> (accepted, x # delivered, r))"

locale bounded_fifo =
  fixes inv :: "'s \<Rightarrow> bool"
    and queue :: "'s \<Rightarrow> 'a list"
    and enq :: "'a \<Rightarrow> 's \<Rightarrow> bool \<times> 's"
    and deq :: "'s \<Rightarrow> 'a option \<times> 's"
    and item_ok :: "'a \<Rightarrow> bool"
    and cap :: nat
  assumes inv_enq: "inv s \<Longrightarrow> item_ok x \<Longrightarrow> inv (snd (enq x s))"
    and inv_deq: "inv s \<Longrightarrow> inv (snd (deq s))"
    and enq_accepts: "inv s \<Longrightarrow> item_ok x \<Longrightarrow> fst (enq x s) \<longleftrightarrow> length (queue s) < cap"
    and enq_queue: "inv s \<Longrightarrow> item_ok x \<Longrightarrow>
      queue (snd (enq x s)) = (if fst (enq x s) then queue s @ [x] else queue s)"
    and deq_empty: "inv s \<Longrightarrow> queue s = [] \<Longrightarrow> deq s = (None, s)"
    and deq_queue: "inv s \<Longrightarrow> queue s = x # xs \<Longrightarrow> fst (deq s) = Some x \<and> queue (snd (deq s)) = xs"
    and queue_cap: "inv s \<Longrightarrow> length (queue s) \<le> cap"
begin

text \<open>Nothing is lost, duplicated or reordered between acceptance and delivery.\<close>

lemma fifo_order:
  assumes "inv s" and "list_all item_ok (fifo_items ops)"
    and "fifo_run enq deq ops s = (accepted, delivered, t)"
  shows "queue s @ accepted = delivered @ queue t \<and> inv t"
  using assms
proof (induction ops arbitrary: s accepted delivered)
  case Nil
  then show ?case by simp
next
  case (Cons x ops)
  show ?case
  proof (cases x)
    case (Enq y)
    obtain ok s' where e: "enq y s = (ok, s')" by (cases "enq y s")
    obtain acc del where r: "fifo_run enq deq ops s' = (acc, del, t)"
        "accepted = (if ok then y # acc else acc)" "delivered = del"
      using Cons.prems(3) Enq e by (auto split: prod.splits)
    have ok: "item_ok y" "list_all item_ok (fifo_items ops)" using Cons.prems(2) Enq by simp_all
    have "inv s'" "queue s' = (if ok then queue s @ [y] else queue s)"
      using inv_enq [OF Cons.prems(1) ok(1)] enq_queue [OF Cons.prems(1) ok(1)] e by simp_all
    with Cons.IH [OF _ ok(2) r(1)] r show ?thesis by (auto split: if_splits)
  next
    case Deq
    obtain v s' where d: "deq s = (v, s')" by (cases "deq s")
    obtain acc del where r: "fifo_run enq deq ops s' = (acc, del, t)" "accepted = acc"
        "delivered = (case v of None \<Rightarrow> del | Some z \<Rightarrow> z # del)"
      using Cons.prems(3) Deq d by (auto split: prod.splits)
    have ok: "list_all item_ok (fifo_items ops)" using Cons.prems(2) Deq by simp
    have inv: "inv s'" using inv_deq [OF Cons.prems(1)] d by simp
    show ?thesis
    proof (cases "queue s")
      case Nil
      then show ?thesis using deq_empty [OF Cons.prems(1)] d Cons.IH [OF inv ok r(1)] r by auto
    next
      case (Cons z zs)
      then show ?thesis
        using deq_queue [OF Cons.prems(1) Cons] d Cons.IH [OF inv ok r(1)] r by auto
    qed
  qed
qed

text \<open>An implementation of the contract is a bounded list, step for step.\<close>

lemma fifo_refines:
  assumes "inv s" and "list_all item_ok (fifo_items ops)"
    and "fifo_run enq deq ops s = (accepted, delivered, t)"
  shows "bounded_queue cap ops (queue s) = (accepted, delivered, queue t)"
  using assms
proof (induction ops arbitrary: s accepted delivered)
  case Nil
  then show ?case by simp
next
  case (Cons x ops)
  show ?case
  proof (cases x)
    case (Enq y)
    obtain ok s' where e: "enq y s = (ok, s')" by (cases "enq y s")
    obtain acc del where r: "fifo_run enq deq ops s' = (acc, del, t)"
        "accepted = (if ok then y # acc else acc)" "delivered = del"
      using Cons.prems(3) Enq e by (auto split: prod.splits)
    have ok: "item_ok y" "list_all item_ok (fifo_items ops)" using Cons.prems(2) Enq by simp_all
    have "inv s'" "queue s' = (if ok then queue s @ [y] else queue s)" "ok \<longleftrightarrow> length (queue s) < cap"
      using inv_enq [OF Cons.prems(1) ok(1)] enq_queue [OF Cons.prems(1) ok(1)] enq_accepts [OF Cons.prems(1) ok(1)] e by simp_all
    with Cons.IH [OF _ ok(2) r(1)] r Enq show ?thesis by (auto split: if_splits)
  next
    case Deq
    obtain v s' where d: "deq s = (v, s')" by (cases "deq s")
    obtain acc del where r: "fifo_run enq deq ops s' = (acc, del, t)" "accepted = acc"
        "delivered = (case v of None \<Rightarrow> del | Some z \<Rightarrow> z # del)"
      using Cons.prems(3) Deq d by (auto split: prod.splits)
    have ok: "list_all item_ok (fifo_items ops)" using Cons.prems(2) Deq by simp
    have inv: "inv s'" using inv_deq [OF Cons.prems(1)] d by simp
    show ?thesis
    proof (cases "queue s")
      case Nil
      then show ?thesis using deq_empty [OF Cons.prems(1)] d Cons.IH [OF inv ok r(1)] r Deq by auto
    next
      case (Cons z zs)
      then show ?thesis
        using deq_queue [OF Cons.prems(1) Cons] d Cons.IH [OF inv ok r(1)] r Deq by auto
    qed
  qed
qed

end

end
