(* ===== verification/Ipc.thy ===== *)
theory Ipc
  imports Handle_Store Fifo
begin

text \<open>
  The message endpoints of \<^verbatim>\<open>src/ipc.c\<close>: eight endpoints, each owned by one receiver and
  holding a ring of at most eight messages of at most 64 bytes. The static array
  \<^verbatim>\<open>endpoints\<close> is the state; a pointer into it is its index. A pointer parameter that the
  code tests against NULL is an \<open>option\<close>: the payload of \<^verbatim>\<open>ipc_send\<close>, and for
  \<^verbatim>\<open>ipc_receive\<close> the buffer and the two result cells, whose new contents are returned.
  Callers pass buffers of at least the length they name, as C requires. The endpoints are a
  \<^verbatim>\<open>handle_store\<close>, and each live endpoint is a \<^verbatim>\<open>bounded_fifo\<close>.
\<close>

section \<open>Data\<close>

abbreviation (input) ARGUS_IPC_ENDPOINT_MAX :: nat where "ARGUS_IPC_ENDPOINT_MAX \<equiv> 8"
abbreviation (input) ARGUS_IPC_QUEUE_CAPACITY :: nat where "ARGUS_IPC_QUEUE_CAPACITY \<equiv> 8"
abbreviation (input) ARGUS_IPC_MESSAGE_MAX :: nat where "ARGUS_IPC_MESSAGE_MAX \<equiv> 64"
abbreviation (input) IPC_ENDPOINT_TAG :: u64 where "IPC_ENDPOINT_TAG \<equiv> 0x4950"

record ipc_message =
  msg_sender_pid :: u64
  msg_length :: u32
  msg_data :: "u8 list"

record ipc_endpoint =
  ep_receiver_pid :: u64
  ep_generation :: u32
  ep_head :: u8
  ep_tail :: u8
  ep_count :: u8
  ep_used :: bool
  ep_messages :: "ipc_message list"

type_synonym ipc_endpoints = "ipc_endpoint list"

definition zero_ipc_endpoint :: ipc_endpoint where
  "zero_ipc_endpoint = \<lparr>ep_receiver_pid = 0, ep_generation = 0, ep_head = 0, ep_tail = 0,
     ep_count = 0, ep_used = False,
     ep_messages = replicate ARGUS_IPC_QUEUE_CAPACITY
       \<lparr>msg_sender_pid = 0, msg_length = 0, msg_data = replicate ARGUS_IPC_MESSAGE_MAX 0\<rparr>\<rparr>"

section \<open>Operations\<close>

definition make_endpoint :: "u32 \<Rightarrow> ipc_endpoint \<Rightarrow> u64" where
  "make_endpoint slot endpoint =
    push_bit 48 IPC_ENDPOINT_TAG OR push_bit 8 (ucast (ep_generation endpoint)) OR
    ucast (slot + 1)"

definition resolve_endpoint :: "ipc_endpoints \<Rightarrow> u64 \<Rightarrow> nat option" where
  "resolve_endpoint endpoints handle =
    (if handle = 0 \<or> drop_bit 48 handle \<noteq> IPC_ENDPOINT_TAG then None
     else
       let encoded_slot = (ucast (handle AND 0xFF) :: u32) in
       if encoded_slot = 0 \<or> of_nat ARGUS_IPC_ENDPOINT_MAX < encoded_slot then None
       else
         let slot = encoded_slot - 1;
             endpoint = endpoints ! unat slot
         in if \<not> ep_used endpoint \<or> make_endpoint slot endpoint \<noteq> handle then None
            else Some (unat slot))"

definition ipc_init :: "ipc_endpoints \<Rightarrow> ipc_endpoints" where
  "ipc_init endpoints =
    fold (\<lambda>slot eps. eps[slot := zero_ipc_endpoint
        \<lparr>ep_generation := 0x49500001 XOR ((of_nat slot + 1) * 0x9E3779B9)\<rparr>])
      [0..<ARGUS_IPC_ENDPOINT_MAX] endpoints"

definition ipc_endpoint_create :: "ipc_endpoints \<Rightarrow> u64 \<Rightarrow> u64 \<times> ipc_endpoints" where
  "ipc_endpoint_create endpoints receiver_pid =
    (if receiver_pid = 0 then (0, endpoints)
     else
       (case find (\<lambda>slot. \<not> ep_used (endpoints ! slot)) [0..<ARGUS_IPC_ENDPOINT_MAX] of
          None \<Rightarrow> (0, endpoints)
        | Some slot \<Rightarrow>
            let generation = ep_generation (endpoints ! slot);
                endpoint = zero_ipc_endpoint
                  \<lparr>ep_generation := (if generation \<noteq> 0 then generation else 1),
                   ep_receiver_pid := receiver_pid, ep_used := True\<rparr>
            in (make_endpoint (of_nat slot) endpoint, endpoints[slot := endpoint])))"

definition ipc_endpoint_destroy :: "ipc_endpoints \<Rightarrow> u64 \<Rightarrow> bool \<times> ipc_endpoints" where
  "ipc_endpoint_destroy endpoints handle =
    (case resolve_endpoint endpoints handle of
       None \<Rightarrow> (False, endpoints)
     | Some i \<Rightarrow>
         let generation = ep_generation (endpoints ! i) + 1;
             generation' = (if generation = 0 then 1 else generation)
         in (True, endpoints[i := zero_ipc_endpoint\<lparr>ep_generation := generation'\<rparr>]))"

definition ring_next :: "u8 \<Rightarrow> u8" where
  "ring_next i = ucast ((ucast i + 1 :: u32) mod of_nat ARGUS_IPC_QUEUE_CAPACITY)"

definition ipc_send ::
    "ipc_endpoints \<Rightarrow> u64 \<Rightarrow> u64 \<Rightarrow> u8 list option \<Rightarrow> u32 \<Rightarrow> bool \<times> ipc_endpoints" where
  "ipc_send endpoints handle sender_pid data msg_len =
    (case (resolve_endpoint endpoints handle, data) of
       (Some i, Some bytes) \<Rightarrow>
         let endpoint = endpoints ! i in
         if sender_pid = 0 \<or> msg_len = 0 \<or> of_nat ARGUS_IPC_MESSAGE_MAX < msg_len \<or>
            ep_count endpoint = of_nat ARGUS_IPC_QUEUE_CAPACITY
         then (False, endpoints)
         else
           let message = ep_messages endpoint ! unat (ep_head endpoint);
               message = message\<lparr>msg_sender_pid := sender_pid, msg_length := msg_len,
                 msg_data := copy_loop (msg_data message) bytes (unat msg_len)\<rparr>
           in (True, endpoints[i := endpoint
                 \<lparr>ep_messages := (ep_messages endpoint)[unat (ep_head endpoint) := message],
                  ep_head := ring_next (ep_head endpoint),
                  ep_count := ep_count endpoint + 1\<rparr>])
     | _ \<Rightarrow> (False, endpoints))"

definition ipc_receive ::
    "ipc_endpoints \<Rightarrow> u64 \<Rightarrow> u64 \<Rightarrow> u8 list option \<Rightarrow> u32 \<Rightarrow> u32 option \<Rightarrow> u64 option \<Rightarrow>
     bool \<times> u8 list option \<times> u32 option \<times> u64 option \<times> ipc_endpoints" where
  "ipc_receive endpoints handle receiver_pid data capacity msg_len sender_pid =
    (case (resolve_endpoint endpoints handle, data, msg_len, sender_pid) of
       (Some i, Some buffer, Some _, Some _) \<Rightarrow>
         let endpoint = endpoints ! i in
         if ep_receiver_pid endpoint \<noteq> receiver_pid \<or> ep_count endpoint = 0
         then (False, data, msg_len, sender_pid, endpoints)
         else
           let message = ep_messages endpoint ! unat (ep_tail endpoint) in
           if capacity < msg_length message
           then (False, data, msg_len, sender_pid, endpoints)
           else (True,
             Some (copy_loop buffer (msg_data message) (unat (msg_length message))),
             Some (msg_length message), Some (msg_sender_pid message),
             endpoints[i := endpoint
               \<lparr>ep_tail := ring_next (ep_tail endpoint), ep_count := ep_count endpoint - 1\<rparr>])
     | _ \<Rightarrow> (False, data, msg_len, sender_pid, endpoints))"

definition ipc_pending :: "ipc_endpoints \<Rightarrow> u64 \<Rightarrow> u64 \<Rightarrow> u32" where
  "ipc_pending endpoints handle receiver_pid =
    (case resolve_endpoint endpoints handle of
       None \<Rightarrow> 0
     | Some i \<Rightarrow>
         if ep_receiver_pid (endpoints ! i) = receiver_pid then ucast (ep_count (endpoints ! i))
         else 0)"

definition ipc_self_test :: "ipc_endpoints \<Rightarrow> bool \<times> ipc_endpoints" where
  "ipc_self_test eps =
    (let eps = ipc_init eps;
         (endpoint, eps) = ipc_endpoint_create eps 41;
         sent = [0x41, 0x52, 0x47] :: u8 list;
         received = [0, 0, 0] :: u8 list
     in if endpoint = 0 then (False, eps)
        else
     let (ok, eps) = ipc_send eps endpoint 17 (Some sent) 3 in
     if \<not> ok \<or> ipc_pending eps endpoint 41 \<noteq> 1 then (False, eps)
     else
     let (ok, data, len, sender, eps) =
           ipc_receive eps endpoint 42 (Some received) 3 (Some 0) (Some 0) in
     if ok then (False, eps)
     else
     let (ok, data, len, sender, eps) = ipc_receive eps endpoint 41 data 2 len sender in
     if ok \<or> ipc_pending eps endpoint 41 \<noteq> 1 then (False, eps)
     else
     let (ok, data, len, sender, eps) = ipc_receive eps endpoint 41 data 3 len sender in
     if \<not> ok \<or> len \<noteq> Some 3 \<or> sender \<noteq> Some 17 \<or> data \<noteq> Some sent \<or>
        ipc_pending eps endpoint 41 \<noteq> 0
     then (False, eps)
     else
     let (ok, eps) = ipc_endpoint_destroy eps endpoint in
     if \<not> ok then (False, eps)
     else
     let (ok, eps) = ipc_send eps endpoint 17 (Some sent) 3 in
     if ok then (False, eps)
     else (True, ipc_init eps))"

section \<open>Handles\<close>

lemma endpoint_fields:
  fixes t :: u64 and g :: u32 and s :: u32
  assumes "unat s < 2 ^ 8" and "unat t < 2 ^ 16"
  defines "h \<equiv> push_bit 48 t OR push_bit 8 (ucast g) OR ucast s"
  shows "h AND mask 8 = ucast s" and "drop_bit 48 h = t" and "ucast (drop_bit 8 h AND mask 32) = g"
proof -
  note small = bit_smallD [OF _ assms(1)] bit_smallD [OF _ assms(2)] bit_imp_le_length
  show "h AND mask 8 = ucast s" unfolding h_def
    by (rule bit_word_eqI) (auto simp: bit_simps dest: small)
  show "drop_bit 48 h = t" unfolding h_def
    by (rule bit_word_eqI) (auto simp: bit_simps dest: small)
  show "ucast (drop_bit 8 h AND mask 32) = g" unfolding h_def
    by (rule bit_word_eqI) (auto simp: bit_simps dest: small)
qed

lemma make_endpoint_fields:
  assumes "i < 8"
  shows "drop_bit 48 (make_endpoint (of_nat i) e) = IPC_ENDPOINT_TAG"
    and "(ucast (make_endpoint (of_nat i) e AND 0xFF) :: u32) = of_nat i + 1"
    and "ucast (drop_bit 8 (make_endpoint (of_nat i) e) AND mask 32) = ep_generation e"
    and "make_endpoint (of_nat i) e \<noteq> 0"
proof -
  have s: "unat (of_nat i + 1 :: u32) < 2 ^ 8" using slot_plus_one(1) [of i] assms by simp
  note f = endpoint_fields [OF s, of IPC_ENDPOINT_TAG "ep_generation e"]
  show t: "drop_bit 48 (make_endpoint (of_nat i) e) = IPC_ENDPOINT_TAG"
    and "ucast (drop_bit 8 (make_endpoint (of_nat i) e) AND mask 32) = ep_generation e"
    unfolding make_endpoint_def by (rule f; simp)+
  have "make_endpoint (of_nat i) e AND mask 8 = ucast (of_nat i + 1 :: u32)"
    unfolding make_endpoint_def by (rule f; simp)
  then show "(ucast (make_endpoint (of_nat i) e AND 0xFF) :: u32) = of_nat i + 1"
    unfolding mask_literals by (simp only: ucast_u32_u64)
  show "make_endpoint (of_nat i) e \<noteq> 0" using t by auto
qed

lemma slot_word_inj:
  assumes "i < 16" and "j < 16" and "(of_nat i + 1 :: u32) = of_nat j + 1"
  shows "i = j"
  using arg_cong [OF assms(3), of unat]
  unfolding slot_plus_one(1) [OF assms(1)] slot_plus_one(1) [OF assms(2)] by (rule add_right_imp_eq)

lemma make_endpoint_inj:
  assumes "i < 8" and "j < 8" and "make_endpoint (of_nat i) e = make_endpoint (of_nat j) f"
  shows "i = j \<and> ep_generation e = ep_generation f"
proof
  show "i = j"
    using make_endpoint_fields(2) [OF assms(1), of e] make_endpoint_fields(2) [OF assms(2), of f] assms
    by (intro slot_word_inj) simp_all
  show "ep_generation e = ep_generation f"
    using make_endpoint_fields(3) [OF assms(1), of e] make_endpoint_fields(3) [OF assms(2), of f]
      assms(3) by simp
qed

lemma resolve_endpoint_iff:
  "resolve_endpoint eps h = Some i \<longleftrightarrow> i < 8 \<and> ep_used (eps ! i) \<and> make_endpoint (of_nat i) (eps ! i) = h"
    (is "?l \<longleftrightarrow> ?r")
proof
  assume ?l
  then have a: "h \<noteq> 0" "drop_bit 48 h = IPC_ENDPOINT_TAG" "(ucast (h AND 0xFF) :: u32) \<noteq> 0"
      "\<not> 8 < (ucast (h AND 0xFF) :: u32)" "i = unat (ucast (h AND 0xFF) - 1 :: u32)"
      "ep_used (eps ! i)" "make_endpoint (ucast (h AND 0xFF) - 1) (eps ! i) = h"
    by (auto simp: resolve_endpoint_def Let_def split: if_splits)
  let ?s = "ucast (h AND 0xFF) :: u32"
  have "unat ?s \<le> 8" "0 < unat ?s" using a(3,4) by (simp_all add: word_le_nat_alt not_less unat_gt_0)
  then have "i < 8" using a(3,5) by (simp add: unat_minus_one)
  moreover have "of_nat i = ?s - 1" unfolding a(5) by (rule word_unat_eq_iff [THEN iffD2]) simp
  ultimately show ?r using a by simp
next
  assume r: ?r
  then have i: "i < 8" by simp
  note f = make_endpoint_fields [OF i, of "eps ! i"]
  have "\<not> (8 :: u32) < of_nat i + 1"
    using slot_plus_one(1) [of i] i by (simp add: word_less_nat_alt)
  moreover have "(of_nat i + 1 :: u32) \<noteq> 0" using slot_plus_one(2) [of i] i by simp
  moreover have "unat (of_nat i :: u32) = i" using i by (simp add: unat_of_nat)
  ultimately show ?l using r f by (auto simp: resolve_endpoint_def Let_def)
qed

lemma resolve_endpoint_None:
  "resolve_endpoint eps h = None \<longleftrightarrow>
    (\<forall>i<8. ep_used (eps ! i) \<longrightarrow> make_endpoint (of_nat i) (eps ! i) \<noteq> h)"
  using resolve_endpoint_iff [of eps h] by (metis not_Some_eq)

section \<open>Invariant and abstraction\<close>

definition msg_ok :: "ipc_message \<Rightarrow> bool" where
  "msg_ok m \<longleftrightarrow> length (msg_data m) = 64 \<and> msg_length m \<le> 64"

definition ep_inv :: "ipc_endpoint \<Rightarrow> bool" where
  "ep_inv e \<longleftrightarrow> ep_generation e \<noteq> 0 \<and> length (ep_messages e) = 8 \<and>
     list_all msg_ok (ep_messages e) \<and> ep_count e \<le> 8 \<and> ep_tail e < 8 \<and>
     unat (ep_head e) = (unat (ep_tail e) + unat (ep_count e)) mod 8"

definition ipc_inv :: "ipc_endpoints \<Rightarrow> bool" where
  "ipc_inv eps \<longleftrightarrow> length eps = 8 \<and> list_all ep_inv eps"

definition ep_queue :: "ipc_endpoint \<Rightarrow> (u64 \<times> u8 list) list" where
  "ep_queue e = map (\<lambda>m. (msg_sender_pid m, take (unat (msg_length m)) (msg_data m)))
     (ring_list (ep_messages e) (unat (ep_tail e)) (unat (ep_count e)))"

definition ipc_view :: "ipc_endpoints \<Rightarrow> u64 \<Rightarrow> u64 option" where
  "ipc_view eps h = (case resolve_endpoint eps h of None \<Rightarrow> None
     | Some i \<Rightarrow> Some (ep_receiver_pid (eps ! i)))"

definition ipc_queue :: "u64 \<Rightarrow> ipc_endpoints \<Rightarrow> (u64 \<times> u8 list) list" where
  "ipc_queue h eps = (case resolve_endpoint eps h of None \<Rightarrow> [] | Some i \<Rightarrow> ep_queue (eps ! i))"

lemma ipc_inv_nth: "ipc_inv eps \<Longrightarrow> i < 8 \<Longrightarrow> ep_inv (eps ! i)"
  by (simp add: ipc_inv_def list_all_length)

lemma ipc_inv_update: "ipc_inv eps \<Longrightarrow> ep_inv e \<Longrightarrow> ipc_inv (eps[i := e])"
  using set_update_subset_insert [of eps i e] by (auto simp: ipc_inv_def list_all_iff)

lemma ep_inv_msg: "ep_inv e \<Longrightarrow> k < 8 \<Longrightarrow> msg_ok (ep_messages e ! k)"
  by (simp add: ep_inv_def list_all_length)

lemma unat_ring_next: "unat (ring_next i) = Suc (unat i) mod 8"
proof -
  have "unat (ucast i + 1 :: u32) = Suc (unat i)"
    using unat_u8_less [of i] by (simp add: unat_word_ariths)
  then have "unat ((ucast i + 1 :: u32) mod 8) = Suc (unat i) mod 8" by (simp add: unat_mod_distrib)
  then show ?thesis by (simp add: ring_next_def unat_ucast_narrow)
qed

lemma zero_endpoint_inv:
  assumes "g \<noteq> 0"
  shows "ep_inv (zero_ipc_endpoint\<lparr>ep_generation := g, ep_receiver_pid := r, ep_used := u\<rparr>)"
    and "ep_inv (zero_ipc_endpoint\<lparr>ep_generation := g\<rparr>)"
  using assms by (simp_all add: ep_inv_def zero_ipc_endpoint_def msg_ok_def list_all_length)

lemma zero_endpoint_used [simp]: "\<not> ep_used zero_ipc_endpoint"
  by (simp add: zero_ipc_endpoint_def)

lemma zero_endpoint_queue [simp]:
  "ep_queue (zero_ipc_endpoint\<lparr>ep_generation := g, ep_receiver_pid := r, ep_used := u\<rparr>) = []"
  by (simp add: ep_queue_def zero_ipc_endpoint_def)

subsection \<open>The ring of one endpoint\<close>

lemma ep_send:
  assumes "ep_inv e" and "ep_count e \<noteq> 8" and "msg_ok m"
  defines "e' \<equiv> e\<lparr>ep_messages := (ep_messages e)[unat (ep_head e) := m],
    ep_head := ring_next (ep_head e), ep_count := ep_count e + 1\<rparr>"
  shows "ep_inv e'"
    and "ep_queue e' = ep_queue e @ [(msg_sender_pid m, take (unat (msg_length m)) (msg_data m))]"
proof -
  have c: "unat (ep_count e) < 8"
  proof -
    have "unat (ep_count e) \<noteq> unat (8 :: u8)" using assms(2) by (simp add: word_unat_eq_iff)
    moreover have "unat (ep_count e) \<le> 8" using assms(1) by (simp add: ep_inv_def word_le_nat_alt)
    ultimately show ?thesis by simp
  qed
  then have c1: "unat (ep_count e + 1) = Suc (unat (ep_count e))" by (simp add: unat_word_ariths)
  have head: "unat (ep_head e) = (unat (ep_tail e) + unat (ep_count e)) mod 8"
    and len: "length (ep_messages e) = 8" using assms(1) by (simp_all add: ep_inv_def)
  have "list_all msg_ok ((ep_messages e)[unat (ep_head e) := m])"
    using assms(1,3) set_update_subset_insert [of "ep_messages e" "unat (ep_head e)" m]
    by (auto simp: ep_inv_def list_all_iff)
  then show "ep_inv e'"
    using assms(1) c c1 by (simp add: ep_inv_def e'_def unat_ring_next word_le_nat_alt mod_simps)
  show "ep_queue e' = ep_queue e @ [(msg_sender_pid m, take (unat (msg_length m)) (msg_data m))]"
    using ring_list_enqueue [of "unat (ep_count e)" "ep_messages e" "unat (ep_tail e)" m] c len
    by (simp add: ep_queue_def e'_def c1 head)
qed

lemma ep_receive:
  assumes "ep_inv e" and "ep_count e \<noteq> 0"
  defines "m \<equiv> ep_messages e ! unat (ep_tail e)"
    and "e' \<equiv> e\<lparr>ep_tail := ring_next (ep_tail e), ep_count := ep_count e - 1\<rparr>"
  shows "ep_inv e'"
    and "ep_queue e = (msg_sender_pid m, take (unat (msg_length m)) (msg_data m)) # ep_queue e'"
proof -
  have c1: "unat (ep_count e - 1) = unat (ep_count e) - 1" using assms(2) by (simp add: unat_minus_one)
  have c0: "0 < unat (ep_count e)" using assms(2) by (simp add: unat_gt_0)
  have tail: "unat (ep_tail e) < 8" and len: "length (ep_messages e) = 8"
    using assms(1) by (simp_all add: ep_inv_def word_less_nat_alt)
  have eq: "Suc (unat (ep_tail e)) + (unat (ep_count e) - 1) = unat (ep_tail e) + unat (ep_count e)"
    using c0 by simp
  have h: "(Suc (unat (ep_tail e)) mod 8 + (unat (ep_count e) - 1)) mod 8 =
      (unat (ep_tail e) + unat (ep_count e)) mod 8"
    unfolding mod_add_left_eq eq by (rule refl)
  show "ep_inv e'"
    using assms(1) c1 h diff_le_self [of "unat (ep_count e)" 1]
    by (auto simp add: ep_inv_def e'_def unat_ring_next word_le_nat_alt word_less_nat_alt)
  show "ep_queue e = (msg_sender_pid m, take (unat (msg_length m)) (msg_data m)) # ep_queue e'"
    using ring_list_dequeue [OF c0, of "ep_messages e" "unat (ep_tail e)"] tail len
    by (simp add: ep_queue_def e'_def m_def c1 unat_ring_next)
qed

lemma ep_queue_length: "length (ep_queue e) = unat (ep_count e)"
  by (simp add: ep_queue_def)

subsection \<open>Updates of one endpoint\<close>

lemma make_endpoint_cong:
  "ep_generation e = ep_generation f \<Longrightarrow> make_endpoint i e = make_endpoint i f"
  by (simp add: make_endpoint_def)

lemma resolve_endpoint_update:
  assumes "ipc_inv eps" and "ep_used e = ep_used (eps ! i)"
    and "ep_generation e = ep_generation (eps ! i)"
  shows "resolve_endpoint (eps[i := e]) h = resolve_endpoint eps h"
proof -
  have "resolve_endpoint (eps[i := e]) h = Some j \<longleftrightarrow> resolve_endpoint eps h = Some j" for j
    unfolding resolve_endpoint_iff using assms make_endpoint_cong [OF assms(3)]
    by (cases "i = j") (auto simp: ipc_inv_def)
  then show ?thesis by (metis not_Some_eq)
qed

lemma ipc_send_eq:
  assumes "ipc_inv eps"
  shows "ipc_send eps h sender (Some bytes) n =
    (case resolve_endpoint eps h of None \<Rightarrow> (False, eps)
     | Some i \<Rightarrow> let e = eps ! i; m = ep_messages e ! unat (ep_head e) in
         if sender \<noteq> 0 \<and> n \<noteq> 0 \<and> n \<le> 64 \<and> ep_count e \<noteq> 8
         then (True, eps[i := e\<lparr>ep_messages := (ep_messages e)[unat (ep_head e) :=
             m\<lparr>msg_sender_pid := sender, msg_length := n,
               msg_data := copy_loop (msg_data m) bytes (unat n)\<rparr>],
             ep_head := ring_next (ep_head e), ep_count := ep_count e + 1\<rparr>])
         else (False, eps))"
  by (auto simp: ipc_send_def Let_def not_less split: option.splits)

definition ipc_item_ok :: "u64 \<times> u8 list \<Rightarrow> bool" where
  "ipc_item_ok x \<longleftrightarrow> fst x \<noteq> 0 \<and> snd x \<noteq> [] \<and> length (snd x) \<le> 64"

definition ipc_enq :: "u64 \<Rightarrow> u64 \<times> u8 list \<Rightarrow> ipc_endpoints \<Rightarrow> bool \<times> ipc_endpoints" where
  "ipc_enq h x eps = ipc_send eps h (fst x) (Some (snd x)) (of_nat (length (snd x)))"

definition ipc_deq :: "u64 \<Rightarrow> u64 \<Rightarrow> ipc_endpoints \<Rightarrow>
    (u64 \<times> u8 list) option \<times> ipc_endpoints" where
  "ipc_deq h pid eps =
    (case ipc_receive eps h pid (Some (replicate 64 0)) 64 (Some 0) (Some 0) of
       (True, Some buffer, Some n, Some sender, eps') \<Rightarrow> (Some (sender, take (unat n) buffer), eps')
     | (_, _, _, _, eps') \<Rightarrow> (None, eps'))"

lemma small_length:
  assumes "length (xs :: u8 list) \<le> 64"
  shows "unat (of_nat (length xs) :: u32) = length xs"
  using assms by (simp add: unat_of_nat)

lemma ipc_enq_spec:
  assumes "ipc_inv eps" and "resolve_endpoint eps h = Some i" and "ipc_item_ok x"
  shows "fst (ipc_enq h x eps) \<longleftrightarrow> length (ep_queue (eps ! i)) < 8"
    and "\<exists>e. snd (ipc_enq h x eps) = eps[i := e] \<and> ep_inv e \<and> ep_used e = ep_used (eps ! i) \<and>
      ep_generation e = ep_generation (eps ! i) \<and> ep_receiver_pid e = ep_receiver_pid (eps ! i) \<and>
      ep_queue e = (if fst (ipc_enq h x eps) then ep_queue (eps ! i) @ [x] else ep_queue (eps ! i))"
proof -
  let ?e = "eps ! i" and ?n = "of_nat (length (snd x)) :: u32"
  have i: "i < 8" using assms(2) by (simp add: resolve_endpoint_iff)
  have ei: "ep_inv ?e" by (rule ipc_inv_nth [OF assms(1) i])
  let ?m = "ep_messages ?e ! unat (ep_head ?e)"
  have "unat (ep_head ?e) < 8" using ei by (simp add: ep_inv_def)
  then have mok: "msg_ok ?m" by (rule ep_inv_msg [OF ei])
  have n: "unat ?n = length (snd x)" using assms(3) by (intro small_length) (simp add: ipc_item_ok_def)
  have nn: "fst x \<noteq> 0" "?n \<noteq> 0" "?n \<le> 64"
    using assms(3) n by (auto simp: ipc_item_ok_def word_le_nat_alt)
  have cnt: "ep_count ?e \<noteq> 8 \<longleftrightarrow> length (ep_queue ?e) < 8"
  proof -
    have "ep_count ?e = 8 \<longleftrightarrow> unat (ep_count ?e) = 8" by (simp add: word_unat_eq_iff)
    moreover have "unat (ep_count ?e) \<le> 8" using ei by (simp add: ep_inv_def word_le_nat_alt)
    ultimately show ?thesis by (auto simp: ep_queue_length)
  qed
  define m where "m = ?m\<lparr>msg_sender_pid := fst x, msg_length := ?n,
    msg_data := copy_loop (msg_data ?m) (snd x) (unat ?n)\<rparr>"
  have data: "msg_data m = snd x @ drop (length (snd x)) (msg_data ?m)"
    using mok assms(3) by (simp add: m_def n copy_loop_eq msg_ok_def ipc_item_ok_def)
  have m: "msg_ok m" using mok nn by (simp add: m_def msg_ok_def)
  have item: "(msg_sender_pid m, take (unat (msg_length m)) (msg_data m)) = x"
    unfolding data by (simp add: m_def n)
  have eq: "ipc_enq h x eps = (if ep_count ?e \<noteq> 8 then (True, eps[i := ?e\<lparr>ep_messages :=
      (ep_messages ?e)[unat (ep_head ?e) := m], ep_head := ring_next (ep_head ?e),
      ep_count := ep_count ?e + 1\<rparr>]) else (False, eps))"
    using nn by (simp add: ipc_enq_def ipc_send_eq [OF assms(1)] assms(2) Let_def m_def)
  show "fst (ipc_enq h x eps) \<longleftrightarrow> length (ep_queue ?e) < 8" unfolding eq cnt by simp
  show "\<exists>e. snd (ipc_enq h x eps) = eps[i := e] \<and> ep_inv e \<and> ep_used e = ep_used ?e \<and>
      ep_generation e = ep_generation ?e \<and> ep_receiver_pid e = ep_receiver_pid ?e \<and>
      ep_queue e = (if fst (ipc_enq h x eps) then ep_queue ?e @ [x] else ep_queue ?e)"
  proof (cases "ep_count ?e = 8")
    case True
    then show ?thesis using ei by (intro exI [of _ ?e]) (simp add: eq)
  next
    case False
    then show ?thesis
      using ep_send [OF ei False m] item by (intro exI conjI) (simp_all add: eq)
  qed
qed

lemma ipc_deq_spec:
  assumes "ipc_inv eps" and "resolve_endpoint eps h = Some i" and "ep_receiver_pid (eps ! i) = pid"
  shows "ep_queue (eps ! i) = [] \<Longrightarrow> ipc_deq h pid eps = (None, eps)"
    and "ep_queue (eps ! i) = x # xs \<Longrightarrow> \<exists>e. ipc_deq h pid eps = (Some x, eps[i := e]) \<and>
      ep_inv e \<and> ep_used e = ep_used (eps ! i) \<and> ep_generation e = ep_generation (eps ! i) \<and>
      ep_receiver_pid e = ep_receiver_pid (eps ! i) \<and> ep_queue e = xs"
proof -
  let ?e = "eps ! i"
  have i: "i < 8" using assms(2) by (simp add: resolve_endpoint_iff)
  have ei: "ep_inv ?e" by (rule ipc_inv_nth [OF assms(1) i])
  let ?m = "ep_messages ?e ! unat (ep_tail ?e)"
  have "unat (ep_tail ?e) < 8" using ei by (simp add: ep_inv_def word_less_nat_alt)
  then have mok: "msg_ok ?m" by (rule ep_inv_msg [OF ei])
  have le: "unat (msg_length ?m) \<le> 64" using mok by (simp add: msg_ok_def word_le_nat_alt)
  {
    assume "ep_queue ?e = []"
    then have "ep_count ?e = 0" using ep_queue_length [of ?e] by (simp add: word_unat_eq_iff)
    then show "ipc_deq h pid eps = (None, eps)"
      by (simp add: ipc_deq_def ipc_receive_def assms)
  next
    assume q: "ep_queue ?e = x # xs"
    then have c: "ep_count ?e \<noteq> 0" using ep_queue_length [of ?e] by auto
    have buf: "take (unat (msg_length ?m)) (copy_loop (replicate 64 0) (msg_data ?m) (unat (msg_length ?m)))
      = take (unat (msg_length ?m)) (msg_data ?m)"
      using mok le by (simp add: copy_loop_eq msg_ok_def)
    have "ipc_deq h pid eps = (Some (msg_sender_pid ?m, take (unat (msg_length ?m)) (msg_data ?m)),
        eps[i := ?e\<lparr>ep_tail := ring_next (ep_tail ?e), ep_count := ep_count ?e - 1\<rparr>])"
      using c mok buf by (simp add: ipc_deq_def ipc_receive_def assms Let_def msg_ok_def not_less)
    then show "\<exists>e. ipc_deq h pid eps = (Some x, eps[i := e]) \<and> ep_inv e \<and> ep_used e = ep_used ?e \<and>
        ep_generation e = ep_generation ?e \<and> ep_receiver_pid e = ep_receiver_pid ?e \<and> ep_queue e = xs"
      using ep_receive [OF ei c] q by auto
  }
qed

section \<open>A live endpoint as a queue, the endpoints as a handle store\<close>

definition ipc_live :: "u64 \<Rightarrow> u64 \<Rightarrow> ipc_endpoints \<Rightarrow> bool" where
  "ipc_live h pid eps \<longleftrightarrow> ipc_inv eps \<and> ipc_view eps h = Some pid"

lemma ipc_liveE:
  assumes "ipc_live h pid eps"
  obtains i where "ipc_inv eps" "i < 8" "resolve_endpoint eps h = Some i"
    "ep_receiver_pid (eps ! i) = pid" "ipc_queue h eps = ep_queue (eps ! i)" "ep_inv (eps ! i)"
    "ipc_view eps h = Some pid"
  using assms ipc_inv_nth
  by (fastforce simp: ipc_live_def ipc_view_def ipc_queue_def resolve_endpoint_iff split: option.splits)

lemma ipc_live_update:
  assumes "ipc_inv eps" and "resolve_endpoint eps h = Some i" and "ep_inv e"
    and "ep_used e = ep_used (eps ! i)" and "ep_generation e = ep_generation (eps ! i)"
    and "ep_receiver_pid e = ep_receiver_pid (eps ! i)"
  shows "ipc_inv (eps[i := e])" and "ipc_view (eps[i := e]) = ipc_view eps"
    and "ipc_queue h (eps[i := e]) = ep_queue e"
    and "k \<noteq> h \<Longrightarrow> ipc_queue k (eps[i := e]) = ipc_queue k eps"
proof -
  have i: "i < length eps" using assms(1,2) by (simp add: resolve_endpoint_iff ipc_inv_def)
  note res = resolve_endpoint_update [OF assms(1,4,5)]
  show "ipc_inv (eps[i := e])" by (rule ipc_inv_update [OF assms(1,3)])
  show "ipc_view (eps[i := e]) = ipc_view eps"
    using i assms(6) by (auto simp: ipc_view_def res nth_list_update fun_eq_iff split: option.split)
  show "ipc_queue h (eps[i := e]) = ep_queue e"
    using i by (simp add: ipc_queue_def res assms(2))
  show "ipc_queue k (eps[i := e]) = ipc_queue k eps" if "k \<noteq> h"
  proof (cases "resolve_endpoint eps k")
    case (Some j)
    then have "j \<noteq> i" using that assms(2) by (auto simp: resolve_endpoint_iff)
    then show ?thesis by (simp add: ipc_queue_def res Some)
  qed (simp add: ipc_queue_def res)
qed

lemma ipc_enq_live:
  assumes "ipc_live h pid eps" and "ipc_item_ok x"
  shows "ipc_live h pid (snd (ipc_enq h x eps))"
    and "ipc_view (snd (ipc_enq h x eps)) = ipc_view eps"
    and "fst (ipc_enq h x eps) \<longleftrightarrow> length (ipc_queue h eps) < 8"
    and "ipc_queue h (snd (ipc_enq h x eps)) =
      (if fst (ipc_enq h x eps) then ipc_queue h eps @ [x] else ipc_queue h eps)"
    and "k \<noteq> h \<Longrightarrow> ipc_queue k (snd (ipc_enq h x eps)) = ipc_queue k eps"
proof -
  obtain i where i: "ipc_inv eps" "i < 8" "resolve_endpoint eps h = Some i"
      "ep_receiver_pid (eps ! i) = pid" "ipc_queue h eps = ep_queue (eps ! i)" "ep_inv (eps ! i)"
      "ipc_view eps h = Some pid"
    using assms(1) by (rule ipc_liveE)
  obtain e where e: "snd (ipc_enq h x eps) = eps[i := e]" "ep_inv e" "ep_used e = ep_used (eps ! i)"
      "ep_generation e = ep_generation (eps ! i)" "ep_receiver_pid e = ep_receiver_pid (eps ! i)"
      "ep_queue e = (if fst (ipc_enq h x eps) then ep_queue (eps ! i) @ [x] else ep_queue (eps ! i))"
    using ipc_enq_spec(2) [OF i(1,3) assms(2)] by blast
  note u = ipc_live_update [OF i(1,3) e(2-5)]
  show "ipc_live h pid (snd (ipc_enq h x eps))" using u i by (simp add: ipc_live_def e(1))
  show "ipc_view (snd (ipc_enq h x eps)) = ipc_view eps" using u by (simp add: e(1))
  show "fst (ipc_enq h x eps) \<longleftrightarrow> length (ipc_queue h eps) < 8"
    using ipc_enq_spec(1) [OF i(1,3) assms(2)] i(5) by simp
  show "ipc_queue h (snd (ipc_enq h x eps)) =
      (if fst (ipc_enq h x eps) then ipc_queue h eps @ [x] else ipc_queue h eps)"
    using u(3) e(6) i(5) by (simp add: e(1))
  show "ipc_queue k (snd (ipc_enq h x eps)) = ipc_queue k eps" if "k \<noteq> h"
    using u(4) that by (simp add: e(1))
qed

lemma ipc_deq_live:
  assumes "ipc_live h pid eps"
  shows "ipc_queue h eps = [] \<Longrightarrow> ipc_deq h pid eps = (None, eps)"
    and "ipc_queue h eps = x # xs \<Longrightarrow> fst (ipc_deq h pid eps) = Some x \<and>
      ipc_queue h (snd (ipc_deq h pid eps)) = xs \<and> ipc_live h pid (snd (ipc_deq h pid eps))"
proof -
  obtain i where i: "ipc_inv eps" "i < 8" "resolve_endpoint eps h = Some i"
      "ep_receiver_pid (eps ! i) = pid" "ipc_queue h eps = ep_queue (eps ! i)" "ep_inv (eps ! i)"
      "ipc_view eps h = Some pid"
    using assms by (rule ipc_liveE)
  show "ipc_deq h pid eps = (None, eps)" if "ipc_queue h eps = []"
    using ipc_deq_spec(1) [OF i(1,3,4)] i(5) that by simp
  show "fst (ipc_deq h pid eps) = Some x \<and> ipc_queue h (snd (ipc_deq h pid eps)) = xs \<and>
      ipc_live h pid (snd (ipc_deq h pid eps))" if "ipc_queue h eps = x # xs"
  proof -
    have "ep_queue (eps ! i) = x # xs" using i(5) that by simp
    from ipc_deq_spec(2) [OF i(1,3,4) this] obtain e where e: "ipc_deq h pid eps = (Some x, eps[i := e])"
        "ep_inv e" "ep_used e = ep_used (eps ! i)" "ep_generation e = ep_generation (eps ! i)"
        "ep_receiver_pid e = ep_receiver_pid (eps ! i)" "ep_queue e = xs" by blast
    show ?thesis using ipc_live_update [OF i(1,3) e(2-5)] e i(7) by (simp add: ipc_live_def)
  qed
qed

interpretation ipc_fifo: bounded_fifo "ipc_live h pid" "ipc_queue h" "ipc_enq h" "ipc_deq h pid"
  ipc_item_ok 8 for h pid
proof
  fix eps assume live: "ipc_live h pid eps"
  show "ipc_live h pid (snd (ipc_deq h pid eps))"
    using ipc_deq_live [OF live] live by (cases "ipc_queue h eps") auto
  show "length (ipc_queue h eps) \<le> 8"
    using live by (rule ipc_liveE) (simp add: ep_queue_length ep_inv_def word_le_nat_alt)
  show "ipc_deq h pid eps = (None, eps)" if "ipc_queue h eps = []"
    using ipc_deq_live(1) [OF live that] .
  show "fst (ipc_deq h pid eps) = Some x \<and> ipc_queue h (snd (ipc_deq h pid eps)) = xs"
    if "ipc_queue h eps = x # xs" for x xs
    using ipc_deq_live(2) [OF live that] by simp
  show "ipc_live h pid (snd (ipc_enq h x eps))"
    and "fst (ipc_enq h x eps) \<longleftrightarrow> length (ipc_queue h eps) < 8"
    and "ipc_queue h (snd (ipc_enq h x eps)) =
      (if fst (ipc_enq h x eps) then ipc_queue h eps @ [x] else ipc_queue h eps)"
    if "ipc_item_ok x" for x
    by (rule ipc_enq_live [OF live that])+
qed

definition ipc_slot :: "u64 \<Rightarrow> nat" where
  "ipc_slot h = unat (ucast (h AND 0xFF) - 1 :: u32)"

definition ipc_distance :: "ipc_endpoints \<Rightarrow> u64 \<Rightarrow> nat" where
  "ipc_distance eps h =
    (if ipc_slot h < 8
     then generation_distance (ucast (drop_bit 8 h AND mask 32)) (ep_generation (eps ! ipc_slot h))
     else 0)"

lemma ipc_distance_handle:
  assumes "i < 8"
  shows "ipc_distance eps (make_endpoint (of_nat i) e) =
    generation_distance (ep_generation e) (ep_generation (eps ! i))"
proof -
  have "ipc_slot (make_endpoint (of_nat i) e) = i"
    using make_endpoint_fields(2) [OF assms, of e] assms by (simp add: ipc_slot_def unat_of_nat)
  then show ?thesis using make_endpoint_fields(3) [OF assms, of e] assms by (simp add: ipc_distance_def)
qed

lemma ipc_view_Some_iff:
  "ipc_view eps h = Some r \<longleftrightarrow>
    (\<exists>i<8. ep_used (eps ! i) \<and> make_endpoint (of_nat i) (eps ! i) = h \<and> r = ep_receiver_pid (eps ! i))"
proof (cases "resolve_endpoint eps h")
  case None
  then have "ipc_view eps h = None" by (simp add: ipc_view_def)
  then show ?thesis using None [unfolded resolve_endpoint_None] by auto
next
  case (Some i)
  then have i: "i < 8 \<and> ep_used (eps ! i) \<and> make_endpoint (of_nat i) (eps ! i) = h"
    by (simp add: resolve_endpoint_iff)
  have v: "ipc_view eps h = Some (ep_receiver_pid (eps ! i))" by (simp add: ipc_view_def Some)
  show ?thesis
  proof
    assume "ipc_view eps h = Some r"
    with i v show "\<exists>i<8. ep_used (eps ! i) \<and> make_endpoint (of_nat i) (eps ! i) = h \<and>
        r = ep_receiver_pid (eps ! i)" by (intro exI [of _ i]) simp
  next
    assume "\<exists>i<8. ep_used (eps ! i) \<and> make_endpoint (of_nat i) (eps ! i) = h \<and>
        r = ep_receiver_pid (eps ! i)"
    then obtain j where j: "j < 8 \<and> ep_used (eps ! j) \<and> make_endpoint (of_nat j) (eps ! j) = h"
      and r: "r = ep_receiver_pid (eps ! j)" by blast
    have "resolve_endpoint eps h = Some j" using j unfolding resolve_endpoint_iff .
    then show "ipc_view eps h = Some r" by (simp add: ipc_view_def r)
  qed
qed

lemma ipc_view_create:
  assumes "ipc_inv eps" and "i < 8" and "\<not> ep_used (eps ! i)" and "ep_used e"
  shows "ipc_view (eps[i := e]) = (ipc_view eps)(make_endpoint (of_nat i) e \<mapsto> ep_receiver_pid e)"
    and "ipc_view eps (make_endpoint (of_nat i) e) = None"
proof -
  have len: "length eps = 8" using assms(1) by (simp add: ipc_inv_def)
  note inj = make_endpoint_inj [OF assms(2), THEN conjunct1]
  show n: "ipc_view eps (make_endpoint (of_nat i) e) = None"
  proof (rule ccontr)
    assume "ipc_view eps (make_endpoint (of_nat i) e) \<noteq> None"
    then obtain j where "j < 8" "ep_used (eps ! j)"
        "make_endpoint (of_nat i) e = make_endpoint (of_nat j) (eps ! j)"
      by (auto simp: ipc_view_Some_iff)
    with inj assms(3) show False by blast
  qed
  have "ipc_view (eps[i := e]) h = Some r \<longleftrightarrow>
      ((ipc_view eps)(make_endpoint (of_nat i) e \<mapsto> ep_receiver_pid e)) h = Some r" for h r
  proof (cases "h = make_endpoint (of_nat i) e")
    case True
    then show ?thesis
      unfolding ipc_view_Some_iff using assms len
      by (auto simp: nth_list_update dest: inj [OF _ sym] split: if_splits)
  next
    case False
    then show ?thesis
      unfolding fun_upd_other [OF False] ipc_view_Some_iff using assms len
      by (auto simp: nth_list_update)
  qed
  then show "ipc_view (eps[i := e]) =
      (ipc_view eps)(make_endpoint (of_nat i) e \<mapsto> ep_receiver_pid e)"
    by (intro ext) (metis not_Some_eq)
qed

lemma ipc_view_destroy:
  assumes "ipc_inv eps" and "i < 8" and "ep_used (eps ! i)" and "\<not> ep_used e"
  shows "ipc_view (eps[i := e]) = (ipc_view eps)(make_endpoint (of_nat i) (eps ! i) := None)"
proof -
  have len: "length eps = 8" using assms(1) by (simp add: ipc_inv_def)
  note inj = make_endpoint_inj [OF assms(2), THEN conjunct1]
  have "ipc_view (eps[i := e]) h = Some r \<longleftrightarrow>
      ((ipc_view eps)(make_endpoint (of_nat i) (eps ! i) := None)) h = Some r" for h r
  proof (cases "h = make_endpoint (of_nat i) (eps ! i)")
    case True
    then show ?thesis
      unfolding ipc_view_Some_iff using assms len
      by (auto simp: nth_list_update dest: inj [OF _ sym] split: if_splits)
  next
    case False
    then show ?thesis
      unfolding fun_upd_other [OF False] ipc_view_Some_iff using assms len
      by (auto simp: nth_list_update)
  qed
  then show ?thesis by (intro ext) (metis not_Some_eq)
qed

definition ipc_issue :: "u64 \<Rightarrow> ipc_endpoints \<Rightarrow> u64 \<times> ipc_endpoints" where
  "ipc_issue pid eps = ipc_endpoint_create eps pid"

definition ipc_release :: "u64 \<Rightarrow> ipc_endpoints \<Rightarrow> bool \<times> ipc_endpoints" where
  "ipc_release h eps = ipc_endpoint_destroy eps h"

lemma ipc_issue_cases:
  assumes "ipc_inv eps"
  obtains (refused) "ipc_issue pid eps = (0, eps)"
  | (created) i e where "i < 8" "\<not> ep_used (eps ! i)" "ep_inv e" "ep_used e" "ep_receiver_pid e = pid"
      "ep_generation e = ep_generation (eps ! i)" "ep_queue e = []"
      "ipc_issue pid eps = (make_endpoint (of_nat i) e, eps[i := e])"
proof (cases "pid = 0 \<or> find (\<lambda>slot. \<not> ep_used (eps ! slot)) [0..<8] = None")
  case True
  then show thesis by (intro refused) (auto simp: ipc_issue_def ipc_endpoint_create_def)
next
  case False
  then obtain i where f: "find (\<lambda>slot. \<not> ep_used (eps ! slot)) [0..<8] = Some i" by auto
  then have i: "i < 8" "\<not> ep_used (eps ! i)" by (simp_all add: find_upt_Some)
  have g: "ep_generation (eps ! i) \<noteq> 0" using ipc_inv_nth [OF assms i(1)] by (simp add: ep_inv_def)
  show thesis
    by (rule created [OF i zero_endpoint_inv(1) [OF g, where r = pid and u = True]])
      (use f g False in \<open>simp_all add: ipc_issue_def ipc_endpoint_create_def Let_def\<close>)
qed

lemma ipc_release_cases:
  obtains (dead) "ipc_view eps h = None" "ipc_release h eps = (False, eps)"
  | (live) i where "i < 8" "ep_used (eps ! i)" "make_endpoint (of_nat i) (eps ! i) = h"
      "ipc_view eps h \<noteq> None" "ipc_release h eps = (True,
        eps[i := zero_ipc_endpoint\<lparr>ep_generation := next_generation (ep_generation (eps ! i))\<rparr>])"
proof (cases "resolve_endpoint eps h")
  case None
  then show thesis
    by (intro dead) (simp_all add: ipc_release_def ipc_endpoint_destroy_def ipc_view_def)
next
  case (Some i)
  then have "i < 8" "ep_used (eps ! i)" "make_endpoint (of_nat i) (eps ! i) = h"
    by (simp_all add: resolve_endpoint_iff)
  then show thesis
    by (rule live) (simp_all add: Some ipc_release_def ipc_endpoint_destroy_def ipc_view_def Let_def
        next_generation_def)
qed

interpretation ipc_store: handle_store ipc_inv ipc_view "\<lambda>pid. pid" ipc_issue ipc_release
  ipc_distance "2 ^ 32 - 2"
proof
  fix eps pid assume inv: "ipc_inv eps"
  show "ipc_inv (snd (ipc_issue pid eps))"
    using inv by (cases rule: ipc_issue_cases [OF inv, of pid]) (simp_all add: ipc_inv_update)
next
  fix eps h assume inv: "ipc_inv eps"
  show "ipc_inv (snd (ipc_release h eps))"
    using inv by (cases rule: ipc_release_cases [of eps h])
      (simp_all add: ipc_inv_update zero_endpoint_inv)
next
  fix eps pid eps' assume inv: "ipc_inv eps" and r: "ipc_issue pid eps = (0, eps')"
  show "eps' = eps"
  proof (cases rule: ipc_issue_cases [OF inv, of pid, case_names refused created])
    case (created i e)
    then show ?thesis using r make_endpoint_fields(4) [OF created(1), of e] by simp
  qed (use r in simp)
next
  fix eps pid h eps' assume inv: "ipc_inv eps" and r: "ipc_issue pid eps = (h, eps')" "h \<noteq> 0"
  have "ipc_view eps h = None \<and> ipc_view eps' = (ipc_view eps)(h \<mapsto> pid)"
  proof (cases rule: ipc_issue_cases [OF inv, of pid, case_names refused created])
    case (created i e)
    then show ?thesis using r ipc_view_create [OF inv created(1,2,4)] by simp
  qed (use r in simp)
  then show "ipc_view eps h = None" and "ipc_view eps' = (ipc_view eps)(h \<mapsto> pid)" by simp_all
next
  fix eps h assume inv: "ipc_inv eps"
  show "fst (ipc_release h eps) \<longleftrightarrow> ipc_view eps h \<noteq> None"
    by (cases rule: ipc_release_cases [of eps h]) simp_all
next
  fix eps h eps' assume "ipc_inv eps" and r: "ipc_release h eps = (False, eps')"
  show "eps' = eps" using r by (cases rule: ipc_release_cases [of eps h]) simp_all
next
  fix eps h eps' assume inv: "ipc_inv eps" and r: "ipc_release h eps = (True, eps')"
  show "ipc_view eps' = (ipc_view eps)(h := None)"
  proof (cases rule: ipc_release_cases [of eps h, case_names dead live])
    case (live i)
    then show ?thesis
      using r ipc_view_destroy [OF inv live(1,2), of "zero_ipc_endpoint
        \<lparr>ep_generation := next_generation (ep_generation (eps ! i))\<rparr>"] by simp
  qed (use r in simp)
  show "ipc_distance eps' h = 2 ^ 32 - 2"
  proof (cases rule: ipc_release_cases [of eps h, case_names dead live])
    case (live i)
    have g: "ep_generation (eps ! i) \<noteq> 0" using ipc_inv_nth [OF inv live(1)] by (simp add: ep_inv_def)
    have "ep_generation (eps' ! i) = next_generation (ep_generation (eps ! i))"
      using live(1,5) r inv by (auto simp: ipc_inv_def)
    with g show ?thesis
      unfolding live(3) [symmetric] ipc_distance_handle [OF live(1)]
      by (simp add: generation_distance_released)
  qed (use r in simp)
next
  fix eps h assume "ipc_inv eps" and v: "ipc_view eps h \<noteq> None"
  show "ipc_distance eps h = 0"
  proof (cases rule: ipc_release_cases [of eps h, case_names dead live])
    case (live i)
    show ?thesis unfolding live(3) [symmetric] ipc_distance_handle [OF live(1)]
      by (rule generation_distance_self)
  qed (use v in simp)
next
  fix eps pid h assume inv: "ipc_inv eps"
  show "ipc_distance (snd (ipc_issue pid eps)) h = ipc_distance eps h"
    using inv by (cases rule: ipc_issue_cases [OF inv, of pid])
      (simp_all add: ipc_distance_def nth_list_update ipc_inv_def)
next
  fix eps h k assume inv: "ipc_inv eps" and "ipc_view eps h = None"
  show "ipc_distance eps h \<le> Suc (ipc_distance (snd (ipc_release k eps)) h)"
  proof (cases rule: ipc_release_cases [of eps k, case_names dead live])
    case (live i)
    have g: "ep_generation (eps ! i) \<noteq> 0" using ipc_inv_nth [OF inv live(1)] by (simp add: ep_inv_def)
    show ?thesis
      using live(1,5) inv generation_distance_next [OF g]
      by (auto simp: ipc_distance_def nth_list_update ipc_inv_def)
  qed simp
qed

section \<open>Properties\<close>

text \<open>The array as \<^verbatim>\<open>ipc_init\<close> leaves it, whatever it held before.\<close>

lemma ipc_init_eq:
  assumes "length eps = 8"
  shows "ipc_init eps = map (\<lambda>slot. zero_ipc_endpoint
    \<lparr>ep_generation := 0x49500001 XOR ((of_nat slot + 1) * 0x9E3779B9)\<rparr>) [0..<8]"
  using fold_update_upt [of 8 eps] assms by (simp add: ipc_init_def)

lemma ipc_init_inv:
  assumes "length eps = 8"
  shows "ipc_inv (ipc_init eps)" and "ipc_view (ipc_init eps) h = None"
proof -
  have "list_all (\<lambda>slot. 0x49500001 XOR ((of_nat slot + 1) * 0x9E3779B9) \<noteq> (0 :: u32)) [0..<8]"
    by code_simp
  then show "ipc_inv (ipc_init eps)"
    by (simp add: ipc_init_eq [OF assms] ipc_inv_def list_all_length zero_endpoint_inv)
  have "\<not> ep_used (ipc_init eps ! i)" if "i < 8" for i
    using that by (simp add: ipc_init_eq [OF assms])
  then have "ipc_view (ipc_init eps) h \<noteq> Some r" for r unfolding ipc_view_Some_iff by blast
  then show "ipc_view (ipc_init eps) h = None" by (cases "ipc_view (ipc_init eps) h") auto
qed

text \<open>
  Claim C7. Messages are delivered first-in first-out, whole and unaltered. For any
  interleaving of \<^verbatim>\<open>ipc_send\<close> (non-empty payloads of at most 64 bytes, a sender that is not 0)
  and \<^verbatim>\<open>ipc_receive\<close> by the owner on one live endpoint, the messages that were queued at the
  start followed by those that \<^verbatim>\<open>ipc_send\<close> accepted are exactly those that \<^verbatim>\<open>ipc_receive\<close>
  delivered, in that order, followed by those still queued; sender and bytes included.
\<close>

theorem ipc_delivers_in_order:
  assumes "ipc_live h pid eps" and "list_all ipc_item_ok (fifo_items ops)"
    and "fifo_run (ipc_enq h) (ipc_deq h pid) ops eps = (accepted, delivered, eps')"
  shows "ipc_queue h eps @ accepted = delivered @ ipc_queue h eps' \<and> ipc_live h pid eps'"
  by (rule ipc_fifo.fifo_order [OF assms])

abbreviation ipc_start :: "ipc_endpoints \<times> u64" where
  "ipc_start \<equiv> (case ipc_endpoint_create (ipc_init (replicate 8 zero_ipc_endpoint)) 41 of
     (h, eps) \<Rightarrow> (eps, h))"

lemma ipc_start_live: "ipc_live (snd ipc_start) 41 (fst ipc_start)"
proof -
  let ?i = "ipc_init (replicate 8 zero_ipc_endpoint)"
  have inv: "ipc_inv ?i" by (rule ipc_init_inv) simp
  obtain h eps where r: "ipc_issue 41 ?i = (h, eps)" by (cases "ipc_issue 41 ?i")
  have "fst (ipc_issue 41 ?i) \<noteq> 0" by code_simp
  with r have "ipc_view eps h = Some 41" using ipc_store.issue_view [OF inv r] by simp
  moreover have "ipc_inv eps" using ipc_store.inv_issue [OF inv, of 41] r by simp
  ultimately show ?thesis using r by (simp add: ipc_live_def ipc_issue_def)
qed

theorem ipc_delivers_in_order_witness:
  "\<exists>h eps eps'. ipc_live h 41 eps \<and>
     fifo_run (ipc_enq h) (ipc_deq h 41) [Enq (17, [1, 2]), Enq (18, [3]), Deq] eps =
       ([(17, [1, 2]), (18, [3])], [(17, [1, 2])], eps') \<and>
     ipc_queue h eps' = [(18, [3])]"
proof -
  define eps where "eps = fst ipc_start"
  define h where "h = snd ipc_start"
  let ?ops = "[Enq (17, [1, 2]), Enq (18, [3]), Deq] :: (u64 \<times> u8 list) fifo_op list"
  let ?r = "fifo_run (ipc_enq h) (ipc_deq h 41) ?ops eps"
  have "fst ?r = [(17, [1, 2]), (18, [3])]" "fst (snd ?r) = [(17, [1, 2])]" "ipc_queue h eps = []"
    unfolding eps_def h_def by code_simp+
  then obtain eps' where r: "?r = ([(17, [1, 2]), (18, [3])], [(17, [1, 2])], eps')"
    and q: "ipc_queue h eps = []" by (cases ?r) auto
  have live: "ipc_live h 41 eps" unfolding eps_def h_def by (rule ipc_start_live)
  have "list_all ipc_item_ok (fifo_items ?ops)" by (simp add: ipc_item_ok_def)
  from ipc_delivers_in_order [OF live this r] q r live show ?thesis by auto
qed

text \<open>
  Claim C24. A destroyed endpoint stays closed. Once \<^verbatim>\<open>ipc_endpoint_destroy\<close> accepted a handle,
  no sequence of endpoint creations and destructions makes the handle usable again before
  2 ^ 32 - 2 further destructions: \<^verbatim>\<open>ipc_send\<close> and \<^verbatim>\<open>ipc_receive\<close> refuse it and leave every
  endpoint as it is, and \<^verbatim>\<open>ipc_pending\<close> reports nothing.
\<close>

theorem destroyed_endpoint_stays_closed:
  assumes "ipc_inv eps" and "ipc_endpoint_destroy eps h = (True, eps')"
    and "length (filter is_release ops) < 2 ^ 32 - 2"
  defines "now \<equiv> store_run ipc_issue ipc_release ops eps'"
  shows "ipc_send now h sender data n = (False, now) \<and>
    ipc_receive now h pid buffer capacity len from = (False, buffer, len, from, now) \<and>
    ipc_pending now h pid = 0"
proof -
  have r: "ipc_release h eps = (True, eps')" using assms(2) by (simp add: ipc_release_def)
  have "h \<noteq> 0"
    using assms(2) by (auto simp: ipc_endpoint_destroy_def resolve_endpoint_def split: option.splits)
  then have "ipc_view now h = None"
    unfolding now_def by (rule ipc_store.stale_handle_dead [OF assms(1) r assms(3)])
  then have "resolve_endpoint now h = None" by (auto simp: ipc_view_def split: option.splits)
  then show ?thesis by (simp add: ipc_send_def ipc_receive_def ipc_pending_def)
qed

theorem destroyed_endpoint_stays_closed_witness:
  "\<exists>eps h eps'. ipc_inv eps \<and> ipc_endpoint_destroy eps h = (True, eps') \<and>
     (let now = store_run ipc_issue ipc_release [Issue 5, Issue 6] eps'
      in ipc_send now h 17 (Some [1]) 1 = (False, now))"
proof -
  have inv: "ipc_inv (fst ipc_start)" using ipc_start_live by (simp add: ipc_live_def)
  have "fst (ipc_endpoint_destroy (fst ipc_start) (snd ipc_start))" by code_simp
  then obtain eps' where d: "ipc_endpoint_destroy (fst ipc_start) (snd ipc_start) = (True, eps')"
    by (cases "ipc_endpoint_destroy (fst ipc_start) (snd ipc_start)") auto
  have "length (filter is_release [Issue 5, Issue (6 :: u64)]) < 2 ^ 32 - 2" by simp
  from destroyed_endpoint_stays_closed [OF inv d this, of 17 "Some [1]" 1 0 None 0 None None] d inv
  show ?thesis by (auto simp: Let_def simp del: store_run.simps)
qed

text \<open>
  Claim C25. Endpoints are isolated. An \<^verbatim>\<open>ipc_send\<close> to one live endpoint keeps the set of live
  endpoints with their owners and every other endpoint's queue; it is accepted exactly when the
  target holds fewer than eight messages, and then appends just that message to its queue.
\<close>

theorem ipc_send_isolated:
  assumes "ipc_live h pid eps" and "sender \<noteq> 0" and "bytes \<noteq> []" and "length bytes \<le> 64"
    and "ipc_send eps h sender (Some bytes) (of_nat (length bytes)) = (ok, eps')"
  shows "ipc_view eps' = ipc_view eps \<and> (\<forall>k. k \<noteq> h \<longrightarrow> ipc_queue k eps' = ipc_queue k eps) \<and>
    ok = (length (ipc_queue h eps) < 8) \<and>
    ipc_queue h eps' = (if ok then ipc_queue h eps @ [(sender, bytes)] else ipc_queue h eps)"
proof -
  have ok: "ipc_item_ok (sender, bytes)" using assms(2-4) by (simp add: ipc_item_ok_def)
  have r: "ipc_enq h (sender, bytes) eps = (ok, eps')" using assms(5) by (simp add: ipc_enq_def)
  show ?thesis using ipc_enq_live [OF assms(1) ok] unfolding r by simp
qed

theorem ipc_send_isolated_witness:
  "\<exists>h eps eps'. ipc_live h 41 eps \<and> ipc_send eps h 17 (Some [9]) 1 = (True, eps') \<and>
     ipc_view eps' = ipc_view eps"
proof -
  have "fst (ipc_send (fst ipc_start) (snd ipc_start) 17 (Some [9]) 1)" by code_simp
  then obtain eps' where s: "ipc_send (fst ipc_start) (snd ipc_start) 17 (Some [9]) 1 = (True, eps')"
    by (cases "ipc_send (fst ipc_start) (snd ipc_start) 17 (Some [9]) 1") auto
  have "ipc_view eps' = ipc_view (fst ipc_start)"
    using ipc_send_isolated [OF ipc_start_live, of 17 "[9]" True eps'] s by simp
  with ipc_start_live s show ?thesis by blast
qed

end
