(* ===== verification/Anonymity.thy ===== *)
theory Anonymity
  imports Capability
begin

text \<open>
  The anonymity policy of \<^verbatim>\<open>src/anonymity.c\<close>: which security role may hold which network
  capability, and the life cycle of the anonymising transport that gates every connection.
  Roles, capability types and transport states reach the code as raw enum integers, so they
  are 32-bit words here; the static \<^verbatim>\<open>transport_state\<close> is passed in and returned.
\<close>

section \<open>Data\<close>

abbreviation (input) ARGUS_SECURITY_ROLE_UTILITY :: u32 where "ARGUS_SECURITY_ROLE_UTILITY \<equiv> 1"
abbreviation (input) ARGUS_SECURITY_ROLE_BROWSER_UI :: u32 where
  "ARGUS_SECURITY_ROLE_BROWSER_UI \<equiv> 2"
abbreviation (input) ARGUS_SECURITY_ROLE_RENDERER :: u32 where "ARGUS_SECURITY_ROLE_RENDERER \<equiv> 3"
abbreviation (input) ARGUS_SECURITY_ROLE_BROWSER_NETWORK :: u32 where
  "ARGUS_SECURITY_ROLE_BROWSER_NETWORK \<equiv> 4"
abbreviation (input) ARGUS_SECURITY_ROLE_TOR_TRANSPORT :: u32 where
  "ARGUS_SECURITY_ROLE_TOR_TRANSPORT \<equiv> 5"

abbreviation (input) ARGUS_ANON_TRANSPORT_OFFLINE :: u32 where "ARGUS_ANON_TRANSPORT_OFFLINE \<equiv> 0"
abbreviation (input) ARGUS_ANON_TRANSPORT_BOOTSTRAPPING :: u32 where
  "ARGUS_ANON_TRANSPORT_BOOTSTRAPPING \<equiv> 1"
abbreviation (input) ARGUS_ANON_TRANSPORT_READY :: u32 where "ARGUS_ANON_TRANSPORT_READY \<equiv> 2"
abbreviation (input) ARGUS_ANON_TRANSPORT_FAILED :: u32 where "ARGUS_ANON_TRANSPORT_FAILED \<equiv> 3"

section \<open>Operations\<close>

definition anonymity_policy_init :: "u32 \<Rightarrow> u32" where
  "anonymity_policy_init transport_state = ARGUS_ANON_TRANSPORT_OFFLINE"

definition anonymity_capability_allowed :: "u32 \<Rightarrow> u32 \<Rightarrow> u16 \<Rightarrow> bool" where
  "anonymity_capability_allowed role type rights =
    (if rights \<noteq> ARGUS_CAP_RIGHT_CONNECT then False
     else if type = ARGUS_CAPABILITY_RAW_NETWORK then role = ARGUS_SECURITY_ROLE_TOR_TRANSPORT
     else if type = ARGUS_CAPABILITY_ANONYMOUS_STREAM
     then role = ARGUS_SECURITY_ROLE_BROWSER_NETWORK
     else False)"

definition anonymity_transport_update :: "u32 \<Rightarrow> u32 \<Rightarrow> u32 \<Rightarrow> bool \<Rightarrow> bool \<times> u32" where
  "anonymity_transport_update transport_state caller next_state authenticated =
    (if caller \<noteq> ARGUS_SECURITY_ROLE_TOR_TRANSPORT \<or> \<not> authenticated \<or>
        ARGUS_ANON_TRANSPORT_FAILED < next_state
     then (False, transport_state)
     else
       let valid =
         (transport_state = ARGUS_ANON_TRANSPORT_OFFLINE \<and>
          next_state = ARGUS_ANON_TRANSPORT_BOOTSTRAPPING) \<or>
         (transport_state = ARGUS_ANON_TRANSPORT_BOOTSTRAPPING \<and>
          (next_state = ARGUS_ANON_TRANSPORT_READY \<or>
           next_state = ARGUS_ANON_TRANSPORT_FAILED \<or>
           next_state = ARGUS_ANON_TRANSPORT_OFFLINE)) \<or>
         (transport_state = ARGUS_ANON_TRANSPORT_READY \<and>
          (next_state = ARGUS_ANON_TRANSPORT_FAILED \<or>
           next_state = ARGUS_ANON_TRANSPORT_OFFLINE)) \<or>
         (transport_state = ARGUS_ANON_TRANSPORT_FAILED \<and>
          (next_state = ARGUS_ANON_TRANSPORT_BOOTSTRAPPING \<or>
           next_state = ARGUS_ANON_TRANSPORT_OFFLINE))
       in if \<not> valid then (False, transport_state) else (True, next_state))"

definition anonymity_connection_allowed :: "u32 \<Rightarrow> u32 \<Rightarrow> u32 \<Rightarrow> u16 \<Rightarrow> bool" where
  "anonymity_connection_allowed transport_state role type rights \<longleftrightarrow>
    transport_state = ARGUS_ANON_TRANSPORT_READY \<and>
    type = ARGUS_CAPABILITY_ANONYMOUS_STREAM \<and>
    anonymity_capability_allowed role type rights"

definition anonymity_transport_state :: "u32 \<Rightarrow> u32" where
  "anonymity_transport_state transport_state = transport_state"

definition anonymity_transport_state_name :: "u32 \<Rightarrow> string" where
  "anonymity_transport_state_name transport_state =
    (if transport_state = ARGUS_ANON_TRANSPORT_BOOTSTRAPPING then ''bootstrapping''
     else if transport_state = ARGUS_ANON_TRANSPORT_READY then ''ready''
     else if transport_state = ARGUS_ANON_TRANSPORT_FAILED then ''failed''
     else ''offline'')"

definition anonymity_clearnet_allowed :: bool where "anonymity_clearnet_allowed = False"
definition anonymity_local_dns_allowed :: bool where "anonymity_local_dns_allowed = False"

definition anonymity_policy_self_test :: "u32 \<Rightarrow> bool \<times> u32" where
  "anonymity_policy_self_test st =
    (let st = anonymity_policy_init st in
     if anonymity_clearnet_allowed \<or> anonymity_local_dns_allowed \<or>
        anonymity_capability_allowed ARGUS_SECURITY_ROLE_UTILITY
          ARGUS_CAPABILITY_RAW_NETWORK ARGUS_CAP_RIGHT_CONNECT \<or>
        anonymity_capability_allowed ARGUS_SECURITY_ROLE_RENDERER
          ARGUS_CAPABILITY_ANONYMOUS_STREAM ARGUS_CAP_RIGHT_CONNECT \<or>
        \<not> anonymity_capability_allowed ARGUS_SECURITY_ROLE_TOR_TRANSPORT
          ARGUS_CAPABILITY_RAW_NETWORK ARGUS_CAP_RIGHT_CONNECT \<or>
        \<not> anonymity_capability_allowed ARGUS_SECURITY_ROLE_BROWSER_NETWORK
          ARGUS_CAPABILITY_ANONYMOUS_STREAM ARGUS_CAP_RIGHT_CONNECT \<or>
        anonymity_connection_allowed st ARGUS_SECURITY_ROLE_BROWSER_NETWORK
          ARGUS_CAPABILITY_ANONYMOUS_STREAM ARGUS_CAP_RIGHT_CONNECT
     then (False, st)
     else
     let (ok, st) = anonymity_transport_update st ARGUS_SECURITY_ROLE_BROWSER_UI
           ARGUS_ANON_TRANSPORT_BOOTSTRAPPING True in
     if ok then (False, st)
     else
     let (ok, st) = anonymity_transport_update st ARGUS_SECURITY_ROLE_TOR_TRANSPORT
           ARGUS_ANON_TRANSPORT_READY True in
     if ok then (False, st)
     else
     let (ok, st) = anonymity_transport_update st ARGUS_SECURITY_ROLE_TOR_TRANSPORT
           ARGUS_ANON_TRANSPORT_BOOTSTRAPPING True in
     if \<not> ok then (False, st)
     else
     let (ok, st) = anonymity_transport_update st ARGUS_SECURITY_ROLE_TOR_TRANSPORT
           ARGUS_ANON_TRANSPORT_READY True in
     if \<not> ok \<or>
        \<not> anonymity_connection_allowed st ARGUS_SECURITY_ROLE_BROWSER_NETWORK
          ARGUS_CAPABILITY_ANONYMOUS_STREAM ARGUS_CAP_RIGHT_CONNECT \<or>
        anonymity_connection_allowed st ARGUS_SECURITY_ROLE_BROWSER_UI
          ARGUS_CAPABILITY_ANONYMOUS_STREAM ARGUS_CAP_RIGHT_CONNECT
     then (False, st)
     else
     let (ok, st) = anonymity_transport_update st ARGUS_SECURITY_ROLE_TOR_TRANSPORT
           ARGUS_ANON_TRANSPORT_FAILED True in
     if \<not> ok \<or>
        anonymity_connection_allowed st ARGUS_SECURITY_ROLE_BROWSER_NETWORK
          ARGUS_CAPABILITY_ANONYMOUS_STREAM ARGUS_CAP_RIGHT_CONNECT
     then (False, st)
     else
     let st = anonymity_policy_init st in (st = ARGUS_ANON_TRANSPORT_OFFLINE, st))"

section \<open>The life cycle\<close>

text \<open>A sequence of update requests (caller, requested state, authenticated).\<close>

fun transport_run :: "(u32 \<times> u32 \<times> bool) list \<Rightarrow> u32 \<Rightarrow> u32" where
  "transport_run [] st = st"
| "transport_run ((caller, next_state, auth) # evs) st =
    transport_run evs (snd (anonymity_transport_update st caller next_state auth))"

lemma transport_run_snoc:
  "transport_run (evs @ [(c, n, a)]) st =
    snd (anonymity_transport_update (transport_run evs st) c n a)"
  by (induction evs arbitrary: st) auto

lemma transport_step_ready:
  assumes "snd (anonymity_transport_update st c n a) = 2"
  shows "st = 2 \<and> \<not> fst (anonymity_transport_update st c n a) \<or> st = 1 \<and> c = 5 \<and> n = 2 \<and> a"
  using assms by (auto simp: anonymity_transport_update_def Let_def split: if_splits)

section \<open>Properties\<close>

text \<open>
  Claim C22. The policy fails closed. After any sequence of update requests from start-up, a
  connection is allowed only for the browser-network role, only over an anonymous stream with
  just the connect right, and only if the authenticated Tor transport has declared itself ready
  while bootstrapping and no request has been accepted since.
\<close>

theorem connection_needs_ready_transport:
  assumes "anonymity_connection_allowed (transport_run evs (anonymity_policy_init st)) role type rights"
  shows "role = ARGUS_SECURITY_ROLE_BROWSER_NETWORK \<and> type = ARGUS_CAPABILITY_ANONYMOUS_STREAM \<and>
    rights = ARGUS_CAP_RIGHT_CONNECT \<and>
    (\<exists>before after. evs = before @ (ARGUS_SECURITY_ROLE_TOR_TRANSPORT, ARGUS_ANON_TRANSPORT_READY, True) # after \<and>
       transport_run before (anonymity_policy_init st) = ARGUS_ANON_TRANSPORT_BOOTSTRAPPING \<and>
       list_all (\<lambda>(c, n, a). \<not> fst (anonymity_transport_update ARGUS_ANON_TRANSPORT_READY c n a)) after)"
proof -
  have ready: "transport_run evs 0 = 2 \<Longrightarrow>
    \<exists>before after. evs = before @ (5, 2, True) # after \<and> transport_run before 0 = 1 \<and>
      list_all (\<lambda>(c, n, a). \<not> fst (anonymity_transport_update 2 c n a)) after"
  proof (induction evs rule: rev_induct)
    case (snoc e evs)
    obtain c n a where e: "e = (c, n, a)" by (cases e)
    from snoc.prems have "snd (anonymity_transport_update (transport_run evs 0) c n a) = 2"
      by (simp add: e transport_run_snoc)
    from transport_step_ready [OF this] show ?case
    proof
      assume k: "transport_run evs 0 = 2 \<and> \<not> fst (anonymity_transport_update (transport_run evs 0) c n a)"
      then have k2: "\<not> fst (anonymity_transport_update 2 c n a)" by auto
      from k snoc.IH obtain b f where "evs = b @ (5, 2, True) # f" "transport_run b 0 = 1"
          "list_all (\<lambda>(c, n, a). \<not> fst (anonymity_transport_update 2 c n a)) f" by blast
      with k2 have "evs @ [e] = b @ (5, 2, True) # (f @ [e]) \<and> transport_run b 0 = 1 \<and>
          list_all (\<lambda>(c, n, a). \<not> fst (anonymity_transport_update 2 c n a)) (f @ [e])"
        by (simp add: e)
      then show ?thesis by blast
    next
      assume "transport_run evs 0 = 1 \<and> c = 5 \<and> n = 2 \<and> a"
      then show ?thesis by (intro exI [of _ evs] exI [of _ "[]"]) (simp add: e)
    qed
  qed simp
  show ?thesis
    using assms ready
    by (auto simp: anonymity_connection_allowed_def anonymity_capability_allowed_def
        anonymity_policy_init_def split: if_splits)
qed

theorem connection_needs_ready_transport_witness:
  "anonymity_connection_allowed (transport_run [(5, 1, True), (5, 2, True), (2, 0, True)]
     (anonymity_policy_init 3)) 4 5 64 \<and>
   (\<exists>before after. [(5, 1, True), (5, 2, True), (2, 0, True)] = before @ (5, 2, True) # after \<and>
     transport_run before (anonymity_policy_init 3) = 1)"
proof -
  have "anonymity_connection_allowed (transport_run [(5, 1, True), (5, 2, True), (2, 0, True)]
     (anonymity_policy_init 3)) 4 5 64" by code_simp
  from this connection_needs_ready_transport [OF this] show ?thesis by blast
qed

end
