(* ===== verification/Boot_Info.thy ===== *)
theory Boot_Info
  imports Argus_Prelude
begin

text \<open>
  The handoff from the UEFI loader to the kernel: the record of \<^verbatim>\<open>src/boot_info.h\<close>, the raw
  firmware memory map of \<^verbatim>\<open>src/uefi_memory.h\<close> as bytes with the descriptor layout of
  \<^verbatim>\<open>src/efi.h\<close>, and the part of \<^verbatim>\<open>src/boot.c\<close> that sizes the page bitmaps from it. The walk
  over the map visits one descriptor every \<open>descriptor_size\<close> bytes while the offset is below the
  size of the map.
\<close>

section \<open>Data\<close>

abbreviation (input) ARGUS_BOOT_INFO_MAGIC :: u64 where "ARGUS_BOOT_INFO_MAGIC \<equiv> 0x4152475553424F4F"
abbreviation (input) ARGUS_PAGE_SIZE :: u64 where "ARGUS_PAGE_SIZE \<equiv> 4096"

abbreviation (input) EfiLoaderCode :: u32 where "EfiLoaderCode \<equiv> 1"
abbreviation (input) EfiConventionalMemory :: u32 where "EfiConventionalMemory \<equiv> 7"
abbreviation (input) EfiUnusableMemory :: u32 where "EfiUnusableMemory \<equiv> 8"
abbreviation (input) EfiACPIMemoryNVS :: u32 where "EfiACPIMemoryNVS \<equiv> 10"
abbreviation (input) EfiPersistentMemory :: u32 where "EfiPersistentMemory \<equiv> 14"

record memory_map =
  mm_buffer :: "u8 list option"
  mm_size :: u64
  mm_capacity :: u64
  mm_key :: u64
  mm_descriptor_size :: u64
  mm_descriptor_version :: u32

record physical_range =
  range_base :: u64
  range_size :: u64

record pixel_bitmask =
  RedMask :: u32
  GreenMask :: u32
  BlueMask :: u32
  ReservedMask :: u32

record framebuffer_info =
  fb_base :: u64
  fb_size :: u64
  fb_width :: u32
  fb_height :: u32
  fb_pitch_pixels :: u32
  fb_format :: u32
  fb_masks :: pixel_bitmask
  fb_usable :: u32

record boot_info =
  bi_magic :: u64
  bi_version :: u32
  bi_boot_services_exited :: u32
  bi_kernel_self_test :: u32
  bi_memory_map :: memory_map
  bi_framebuffer :: framebuffer_info
  bi_acpi_rsdp :: u64
  bi_kernel_image :: physical_range
  bi_boot_info_storage :: physical_range
  bi_kernel_stack :: physical_range
  bi_kernel_stack_guard :: physical_range
  bi_pmm_bitmap_storage :: physical_range
  bi_memory_map_storage :: physical_range
  bi_pmm_page_count :: u64
  bi_pmm_bitmap_bytes :: u64

record efi_memory_descriptor =
  desc_Type :: u32
  desc_PhysicalStart :: u64
  desc_VirtualStart :: u64
  desc_NumberOfPages :: u64
  desc_Attribute :: u64

section \<open>The firmware memory map\<close>

definition read_descriptor :: "u8 list \<Rightarrow> nat \<Rightarrow> efi_memory_descriptor" where
  "read_descriptor bytes offset = \<lparr>desc_Type = le32 bytes offset,
     desc_PhysicalStart = le64 bytes (offset + 8), desc_VirtualStart = le64 bytes (offset + 16),
     desc_NumberOfPages = le64 bytes (offset + 24), desc_Attribute = le64 bytes (offset + 32)\<rparr>"

text \<open>The offsets that the loops over the map visit: \<open>0\<close>, \<open>stride\<close>, \<open>2 * stride\<close>, ... below \<open>size\<close>.\<close>

definition descriptor_offsets :: "nat \<Rightarrow> nat \<Rightarrow> nat list" where
  "descriptor_offsets sz stride = map (\<lambda>k. k * stride) [0..<(sz + stride - 1) div stride]"

definition map_descriptors :: "memory_map \<Rightarrow> efi_memory_descriptor list" where
  "map_descriptors m = (case mm_buffer m of None \<Rightarrow> []
     | Some bytes \<Rightarrow> map (read_descriptor bytes)
         (descriptor_offsets (unat (mm_size m)) (unat (mm_descriptor_size m))))"

lemma descriptor_offsets_iff:
  assumes "0 < stride"
  shows "p \<in> set (descriptor_offsets sz stride) \<longleftrightarrow> stride dvd p \<and> p < sz"
proof -
  have "k < (sz + stride - 1) div stride \<longleftrightarrow> k * stride < sz" for k
  proof -
    have "k < (sz + stride - 1) div stride \<longleftrightarrow> Suc k * stride \<le> sz + stride - 1"
      using less_eq_div_iff_mult_less_eq [OF assms, of "Suc k" "sz + stride - 1"]
      by (simp only: Suc_le_eq)
    also have "\<dots> \<longleftrightarrow> k * stride < sz" using assms unfolding mult_Suc by linarith
    finally show ?thesis .
  qed
  then have "p \<in> set (descriptor_offsets sz stride) \<longleftrightarrow> (\<exists>k. p = k * stride \<and> k * stride < sz)"
    by (auto simp: descriptor_offsets_def)
  also have "\<dots> \<longleftrightarrow> stride dvd p \<and> p < sz" by (metis dvd_def dvd_triv_right mult.commute)
  finally show ?thesis .
qed

definition memory_type_needs_tracking :: "u32 \<Rightarrow> bool" where
  "memory_type_needs_tracking type \<longleftrightarrow>
    (EfiLoaderCode \<le> type \<and> type \<le> EfiACPIMemoryNVS \<and> type \<noteq> EfiUnusableMemory) \<or>
    type = EfiPersistentMemory"

definition highest_tracked_page :: "memory_map \<Rightarrow> u64" where
  "highest_tracked_page m =
    fold (\<lambda>d highest.
      if memory_type_needs_tracking (desc_Type d) \<and>
         desc_NumberOfPages d \<le> (UINT64_MAX - desc_PhysicalStart d) div ARGUS_PAGE_SIZE
      then
        let range_end = desc_PhysicalStart d + desc_NumberOfPages d * ARGUS_PAGE_SIZE;
            end_page = range_end div ARGUS_PAGE_SIZE
        in if highest < end_page then end_page else highest
      else highest) (map_descriptors m) 0"

text \<open>The size of one page bitmap that \<^verbatim>\<open>prepare_allocations\<close> computes, before it allocates.\<close>

definition bytes_per_bitmap :: "u64 \<Rightarrow> u64" where
  "bytes_per_bitmap page_count = (page_count + 7) div 8"

lemma unat_div_page: "unat (w div ARGUS_PAGE_SIZE) = unat w div 4096"
  by (simp add: unat_div_distrib)

lemma fold_max_bounds:
  fixes f :: "'a \<Rightarrow> 'b::linorder" and ok :: "'a \<Rightarrow> bool"
  defines "step \<equiv> \<lambda>d m. if ok d then (if m < f d then f d else m) else m"
  shows "m \<le> fold step ds m" and "d \<in> set ds \<Longrightarrow> ok d \<Longrightarrow> f d \<le> fold step ds m"
    and "(\<And>d. d \<in> set ds \<Longrightarrow> f d < b) \<Longrightarrow> m < b \<Longrightarrow> fold step ds m < b"
proof -
  show a: "m \<le> fold step ds m" for m ds
    by (induction ds arbitrary: m) (auto simp: step_def intro: order_trans less_imp_le)
  show "f d \<le> fold step ds m" if "d \<in> set ds" "ok d"
    using that
  proof (induction ds arbitrary: m)
    case (Cons e ds)
    have "f d \<le> step d m" for m using Cons.prems(2) by (auto simp: step_def)
    with Cons show ?case using a [of "step d m" ds] by (auto intro: order_trans)
  qed simp
  show "fold step ds m < b" if "\<And>d. d \<in> set ds \<Longrightarrow> f d < b" "m < b"
    using that by (induction ds arbitrary: m) (auto simp: step_def)
qed

text \<open>The pages of a tracked descriptor that does not wrap around lie below the page count.\<close>

lemma highest_tracked_page_covers:
  assumes "d \<in> set (map_descriptors m)" and "memory_type_needs_tracking (desc_Type d)"
    and "unat (desc_PhysicalStart d) + unat (desc_NumberOfPages d) * 4096 < 2 ^ 64"
  shows "(unat (desc_PhysicalStart d) + unat (desc_NumberOfPages d) * 4096) div 4096
    \<le> unat (highest_tracked_page m)"
proof -
  let ?ok = "\<lambda>d. memory_type_needs_tracking (desc_Type d) \<and>
    desc_NumberOfPages d \<le> (UINT64_MAX - desc_PhysicalStart d) div ARGUS_PAGE_SIZE"
  let ?f = "\<lambda>d. (desc_PhysicalStart d + desc_NumberOfPages d * ARGUS_PAGE_SIZE) div ARGUS_PAGE_SIZE"
  have mul: "unat (desc_NumberOfPages d * ARGUS_PAGE_SIZE) = unat (desc_NumberOfPages d) * 4096"
    using assms(3) by (simp add: unat_word_ariths)
  have sum: "unat (desc_PhysicalStart d + desc_NumberOfPages d * ARGUS_PAGE_SIZE) =
      unat (desc_PhysicalStart d) + unat (desc_NumberOfPages d) * 4096"
    using assms(3) mul by (simp add: unat_word_ariths)
  have le: "desc_PhysicalStart d \<le> UINT64_MAX"
    using unat_u64_less [of "desc_PhysicalStart d"] by (simp add: word_le_nat_alt)
  have "unat (UINT64_MAX - desc_PhysicalStart d) = 2 ^ 64 - 1 - unat (desc_PhysicalStart d)"
    using le by (simp add: unat_sub)
  then have "desc_NumberOfPages d \<le> (UINT64_MAX - desc_PhysicalStart d) div ARGUS_PAGE_SIZE"
    using assms(3) by (simp add: word_le_nat_alt unat_div_page less_eq_div_iff_mult_less_eq)
  then have "?ok d" using assms(2) by simp
  then have "?f d \<le> highest_tracked_page m"
    unfolding highest_tracked_page_def Let_def
    by (rule fold_max_bounds(2) [where ok = ?ok and f = ?f, OF assms(1)])
  then show ?thesis by (simp add: word_le_nat_alt unat_div_page sum)
qed

lemma highest_tracked_page_bound: "unat (highest_tracked_page m) < 2 ^ 52"
proof -
  let ?f = "\<lambda>d. (desc_PhysicalStart d + desc_NumberOfPages d * ARGUS_PAGE_SIZE) div ARGUS_PAGE_SIZE"
  have "?f d < 0x10000000000000" for d
    using unat_u64_less [of "desc_PhysicalStart d + desc_NumberOfPages d * ARGUS_PAGE_SIZE"]
    by (simp add: word_less_nat_alt unat_div_page less_mult_imp_div_less)
  then have "highest_tracked_page m < 0x10000000000000"
    unfolding highest_tracked_page_def Let_def
    by (intro fold_max_bounds(3) [where f = ?f]) simp_all
  then show ?thesis by (simp add: word_less_nat_alt)
qed

lemma bytes_per_bitmap_covers:
  assumes "unat page_count < 2 ^ 52"
  shows "unat page_count \<le> 8 * unat (bytes_per_bitmap page_count)"
proof -
  have "unat (page_count + 7) = unat page_count + 7" using assms by (simp add: unat_word_ariths)
  then have "unat (bytes_per_bitmap page_count) = (unat page_count + 7) div 8"
    by (simp add: bytes_per_bitmap_def unat_div_distrib)
  then show ?thesis by linarith
qed

text \<open>A machine with four free pages at 1 MiB, for the witnesses.\<close>

abbreviation boot_example :: boot_info where
  "boot_example \<equiv> \<lparr>bi_magic = ARGUS_BOOT_INFO_MAGIC, bi_version = 2, bi_boot_services_exited = 1,
     bi_kernel_self_test = 0,
     bi_memory_map = \<lparr>mm_buffer = Some ([7, 0, 0, 0, 0, 0, 0, 0] @ [0, 0, 0x10, 0, 0, 0, 0, 0] @
         replicate 8 0 @ [4, 0, 0, 0, 0, 0, 0, 0] @ replicate 16 0),
       mm_size = 48, mm_capacity = 48, mm_key = 1, mm_descriptor_size = 48, mm_descriptor_version = 1\<rparr>,
     bi_framebuffer = \<lparr>fb_base = 0, fb_size = 0, fb_width = 0, fb_height = 0, fb_pitch_pixels = 0,
       fb_format = 0, fb_masks = \<lparr>RedMask = 0, GreenMask = 0, BlueMask = 0, ReservedMask = 0\<rparr>,
       fb_usable = 0\<rparr>,
     bi_acpi_rsdp = 0, bi_kernel_image = \<lparr>range_base = 0x10000, range_size = 0x1000\<rparr>,
     bi_boot_info_storage = \<lparr>range_base = 0x103000, range_size = 0x1000\<rparr>,
     bi_kernel_stack = \<lparr>range_base = 0x20000, range_size = 0x1000\<rparr>,
     bi_kernel_stack_guard = \<lparr>range_base = 0x20000, range_size = 0x1000\<rparr>,
     bi_pmm_bitmap_storage = \<lparr>range_base = 0x30000, range_size = 0x1000\<rparr>,
     bi_memory_map_storage = \<lparr>range_base = 0x40000, range_size = 0x1000\<rparr>,
     bi_pmm_page_count = 260, bi_pmm_bitmap_bytes = 33\<rparr>"

end
