(* ===== verification/Pmm.thy ===== *)
theory Pmm
  imports Boot_Info
begin

text \<open>
  The physical page allocator of \<^verbatim>\<open>src/pmm.c\<close>. Its five static variables are the record
  \<open>pmm\<close>; the two bitmaps are byte lists of \<^verbatim>\<open>pmm_bitmap_bytes\<close> elements each, read and written
  with the shifts and masks of the source. The allocator refines a pair of sets of page numbers,
  the managed pages and the free ones; the counters are their cardinalities.
\<close>

section \<open>State\<close>

record pmm =
  usable_bitmap :: "u8 list"
  used_bitmap :: "u8 list"
  page_count :: u64
  managed_count :: u64
  free_count :: u64

section \<open>Operations\<close>

definition bit_get :: "u8 list \<Rightarrow> u64 \<Rightarrow> bool" where
  "bit_get bitmap page \<longleftrightarrow>
    drop_bit (unat (page AND 7)) (bitmap ! unat (drop_bit 3 page)) AND 1 \<noteq> 0"

definition bit_set :: "u8 list \<Rightarrow> u64 \<Rightarrow> u8 list" where
  "bit_set bitmap page = bitmap[unat (drop_bit 3 page) :=
     bitmap ! unat (drop_bit 3 page) OR push_bit (unat (page AND 7)) 1]"

definition bit_clear :: "u8 list \<Rightarrow> u64 \<Rightarrow> u8 list" where
  "bit_clear bitmap page = bitmap[unat (drop_bit 3 page) :=
     bitmap ! unat (drop_bit 3 page) AND NOT (push_bit (unat (page AND 7)) 1)]"

definition make_usable :: "u64 \<Rightarrow> pmm \<Rightarrow> pmm" where
  "make_usable page s =
    (if page_count s \<le> page \<or> bit_get (usable_bitmap s) page then s
     else s\<lparr>usable_bitmap := bit_set (usable_bitmap s) page,
            used_bitmap := bit_clear (used_bitmap s) page,
            managed_count := managed_count s + 1,
            free_count := free_count s + 1\<rparr>)"

definition reserve_page :: "u64 \<Rightarrow> pmm \<Rightarrow> pmm" where
  "reserve_page page s =
    (if page_count s \<le> page \<or> \<not> bit_get (usable_bitmap s) page then s
     else
       let s = s\<lparr>usable_bitmap := bit_clear (usable_bitmap s) page\<rparr>;
           s = (if \<not> bit_get (used_bitmap s) page then s\<lparr>free_count := free_count s - 1\<rparr> else s)
       in s\<lparr>used_bitmap := bit_set (used_bitmap s) page,
            managed_count := managed_count s - 1\<rparr>)"

definition reserve_range :: "physical_range \<Rightarrow> pmm \<Rightarrow> pmm" where
  "reserve_range region s =
    (if range_size region = 0 \<or> page_count s * ARGUS_PAGE_SIZE \<le> range_base region then s
     else
       let start = range_base region div ARGUS_PAGE_SIZE;
           last_byte =
             (if UINT64_MAX - range_base region < range_size region - 1 then UINT64_MAX
              else range_base region + range_size region - 1);
           limit = last_byte div ARGUS_PAGE_SIZE + 1;
           limit = (if page_count s < limit then page_count s else limit)
       in fold (\<lambda>page. reserve_page (of_nat page)) [unat start..<unat limit] s)"

definition add_descriptor :: "efi_memory_descriptor \<Rightarrow> pmm \<Rightarrow> pmm" where
  "add_descriptor d s =
    (if desc_Type d = EfiConventionalMemory then
       let first = desc_PhysicalStart d div ARGUS_PAGE_SIZE;
           count = desc_NumberOfPages d
       in if first < page_count s then
            let count = (if page_count s - first < count then page_count s - first else count)
            in fold (\<lambda>i. make_usable (first + of_nat i)) [0..<unat count] s
          else s
     else s)"

definition pmm_init :: "boot_info option \<Rightarrow> pmm \<Rightarrow> bool \<times> pmm" where
  "pmm_init info s =
    (case info of
       None \<Rightarrow> (False, s)
     | Some bi \<Rightarrow>
         if bi_magic bi \<noteq> ARGUS_BOOT_INFO_MAGIC \<or> bi_boot_services_exited bi = 0 \<or>
            mm_buffer (bi_memory_map bi) = None \<or> mm_descriptor_size (bi_memory_map bi) = 0 \<or>
            bi_pmm_page_count bi = 0 \<or> range_base (bi_pmm_bitmap_storage bi) = 0 \<or>
            bi_pmm_bitmap_bytes bi = 0
         then (False, s)
         else
           let s = \<lparr>usable_bitmap = replicate (unat (bi_pmm_bitmap_bytes bi)) 0,
                    used_bitmap = replicate (unat (bi_pmm_bitmap_bytes bi)) 0xFF,
                    page_count = bi_pmm_page_count bi, managed_count = 0, free_count = 0\<rparr>;
               s = fold add_descriptor (map_descriptors (bi_memory_map bi)) s;
               s = reserve_range \<lparr>range_base = 0, range_size = 0x100000\<rparr> s;
               s = reserve_range (bi_kernel_image bi) s;
               s = reserve_range (bi_boot_info_storage bi) s;
               s = reserve_range (bi_kernel_stack bi) s;
               s = reserve_range (bi_pmm_bitmap_storage bi) s;
               s = reserve_range (bi_memory_map_storage bi) s;
               s = reserve_range \<lparr>range_base = fb_base (bi_framebuffer bi),
                     range_size = fb_size (bi_framebuffer bi)\<rparr> s;
               s = (if bi_acpi_rsdp bi \<noteq> 0
                    then reserve_range \<lparr>range_base = bi_acpi_rsdp bi, range_size = ARGUS_PAGE_SIZE\<rparr> s
                    else s)
           in (managed_count s \<noteq> 0, s))"

text \<open>The first-fit scan of \<^verbatim>\<open>pmm_alloc_pages\<close>: the start of the first run of \<open>count\<close> free pages.\<close>

fun pmm_scan :: "pmm \<Rightarrow> u64 \<Rightarrow> nat list \<Rightarrow> u64 \<Rightarrow> u64 \<Rightarrow> u64 option" where
  "pmm_scan s count [] run_start run_length = None"
| "pmm_scan s count (page # pages) run_start run_length =
    (if bit_get (usable_bitmap s) (of_nat page) \<and> \<not> bit_get (used_bitmap s) (of_nat page) then
       let run_start = (if run_length = 0 then of_nat page else run_start);
           run_length = run_length + 1
       in if run_length \<noteq> count then pmm_scan s count pages run_start run_length
          else Some run_start
     else pmm_scan s count pages run_start 0)"

definition pmm_alloc_pages :: "u64 \<Rightarrow> pmm \<Rightarrow> u64 \<times> pmm" where
  "pmm_alloc_pages count s =
    (if count = 0 \<or> free_count s < count then (0, s)
     else
       (case pmm_scan s count [0..<unat (page_count s)] 0 0 of
          None \<Rightarrow> (0, s)
        | Some run_start \<Rightarrow>
            (run_start * ARGUS_PAGE_SIZE,
             s\<lparr>used_bitmap := fold (\<lambda>selected b. bit_set b (of_nat selected))
                 [unat run_start..<unat (run_start + count)] (used_bitmap s),
               free_count := free_count s - count\<rparr>)))"

definition pmm_alloc_page :: "pmm \<Rightarrow> u64 \<times> pmm" where
  "pmm_alloc_page s = pmm_alloc_pages 1 s"

definition pmm_release_pages :: "u64 \<Rightarrow> u64 \<Rightarrow> pmm \<Rightarrow> bool \<times> pmm" where
  "pmm_release_pages address count s =
    (if address AND (ARGUS_PAGE_SIZE - 1) \<noteq> 0 then (False, s)
     else
       let first = address div ARGUS_PAGE_SIZE in
       if count = 0 \<or> page_count s \<le> first \<or> page_count s - first < count then (False, s)
       else
         let pages = [unat first..<unat (first + count)] in
         if list_ex (\<lambda>page. \<not> bit_get (usable_bitmap s) (of_nat page) \<or>
              \<not> bit_get (used_bitmap s) (of_nat page)) pages
         then (False, s)
         else (True, s\<lparr>used_bitmap := fold (\<lambda>page b. bit_clear b (of_nat page)) pages (used_bitmap s),
                       free_count := free_count s + count\<rparr>))"

definition pmm_free_page :: "u64 \<Rightarrow> pmm \<Rightarrow> bool \<times> pmm" where
  "pmm_free_page address s = pmm_release_pages address 1 s"

definition pmm_validate :: "pmm \<Rightarrow> bool" where
  "pmm_validate s =
    (let (counted_managed, counted_free) =
       fold (\<lambda>page (m, f).
           if \<not> bit_get (usable_bitmap s) (of_nat page) then (m, f)
           else (m + 1, if \<not> bit_get (used_bitmap s) (of_nat page) then f + 1 else f))
         [0..<unat (page_count s)] (0 :: u64, 0 :: u64)
     in counted_managed = managed_count s \<and> counted_free = free_count s \<and>
        free_count s \<le> managed_count s)"

definition pmm_managed_pages :: "pmm \<Rightarrow> u64" where "pmm_managed_pages s = managed_count s"
definition pmm_free_pages :: "pmm \<Rightarrow> u64" where "pmm_free_pages s = free_count s"

text \<open>The eight single-page allocations of the self test, and the releases of its held pages.\<close>

fun self_test_alloc :: "nat \<Rightarrow> u64 list \<Rightarrow> bool \<Rightarrow> pmm \<Rightarrow> u64 list \<times> bool \<times> pmm" where
  "self_test_alloc 0 pages valid s = (pages, valid, s)"
| "self_test_alloc (Suc n) pages valid s =
    (let (page, s) = pmm_alloc_page s;
         valid = (page \<noteq> 0 \<and> valid);
         valid = (if list_ex (\<lambda>previous. page = previous) pages then False else valid)
     in self_test_alloc n (pages @ [page]) valid s)"

definition self_test_free :: "u64 list \<Rightarrow> nat list \<Rightarrow> bool \<times> pmm \<Rightarrow> bool \<times> pmm" where
  "self_test_free pages idx =
    fold (\<lambda>i (valid, s). if pages ! i \<noteq> 0 then
        let (ok, s) = pmm_free_page (pages ! i) s in (ok \<and> valid, s)
      else (valid, s)) idx"

definition pmm_self_test :: "pmm \<Rightarrow> bool \<times> pmm" where
  "pmm_self_test s =
    (let before = free_count s in
     if before < 16 \<or> \<not> pmm_validate s then (False, s)
     else
     let (r1, s) = pmm_release_pages 0 0 s;
         (r2, s) = (if \<not> r1 then pmm_free_page 1 s else (True, s));
         (r3, s) = (if \<not> r1 \<and> \<not> r2 then pmm_free_page (page_count s * ARGUS_PAGE_SIZE) s else (True, s));
         valid = (\<not> r1 \<and> \<not> r2 \<and> \<not> r3);
         (pages, valid, s) = self_test_alloc 8 [] valid s;
         (valid, s) = self_test_free pages [0, 2, 4, 6] (valid, s);
         valid = (pmm_validate s \<and> valid);
         (run, s) = pmm_alloc_pages 2 s;
         valid = (run \<noteq> 0 \<and> valid);
         valid = (if list_ex (\<lambda>i. run = pages ! i) [0, 2, 4, 6] then False else valid);
         (valid, s) = (if run \<noteq> 0 then
             let (ok, s) = pmm_release_pages run 2 s in (ok \<and> valid, s)
           else (valid, s));
         (valid, s) = self_test_free pages [1, 3, 5, 7] (valid, s);
         (probe, s) = pmm_alloc_page s;
         valid = (probe \<noteq> 0 \<and> valid);
         (valid, s) = (if probe \<noteq> 0 then
             let (ok, s) = pmm_free_page probe s;
                 valid = (ok \<and> valid);
                 (again, s) = pmm_free_page probe s
             in (\<not> again \<and> valid, s)
           else (valid, s))
     in (valid \<and> free_count s = before \<and> pmm_validate s, s))"

section \<open>Bitmaps as sets of pages\<close>

lemma page_byte: "unat (drop_bit 3 (page :: u64)) = unat page div 8"
  by (simp add: drop_bit_eq_div unat_div_distrib)

lemma page_bit: "unat ((page :: u64) AND 7) = unat page mod 8"
  using word_and_mask_mod [of page 3] by (simp add: mask_eq_exp_minus_1)

lemma bit_get_iff: "bit_get bm page \<longleftrightarrow> bit (bm ! (unat page div 8)) (unat page mod 8)"
proof -
  have "drop_bit n w AND 1 \<noteq> 0 \<longleftrightarrow> bit w n" for n and w :: u8
    by (simp add: bit_iff_odd_drop_bit and_one_eq odd_iff_mod_2_eq_one)
  then show ?thesis by (simp add: bit_get_def page_byte page_bit)
qed

lemma page_index_eq: "unat p div 8 = unat q div 8 \<and> unat p mod 8 = unat q mod 8 \<longleftrightarrow> p = (q :: u64)"
  by (metis div_mult_mod_eq word_unat_eq_iff)

lemma bit_get_set:
  assumes "unat p < 8 * length bm"
  shows "bit_get (bit_set bm p) q \<longleftrightarrow> p = q \<or> bit_get bm q"
proof -
  have len: "unat p div 8 < length bm" using assms by (simp add: less_mult_imp_div_less mult.commute)
  show ?thesis
  proof (cases "unat p div 8 = unat q div 8")
    case True
    have "bit_get (bit_set bm p) q \<longleftrightarrow> bit_get bm q \<or> unat p mod 8 = unat q mod 8"
      using len True by (auto simp: bit_get_iff bit_set_def page_byte page_bit bit_simps)
    then show ?thesis using True page_index_eq [of p q] by blast
  next
    case False
    then have "bit_get (bit_set bm p) q = bit_get bm q"
      by (simp add: bit_get_iff bit_set_def page_byte)
    then show ?thesis using False by auto
  qed
qed

lemma bit_get_clear:
  assumes "unat p < 8 * length bm"
  shows "bit_get (bit_clear bm p) q \<longleftrightarrow> p \<noteq> q \<and> bit_get bm q"
proof -
  have len: "unat p div 8 < length bm" using assms by (simp add: less_mult_imp_div_less mult.commute)
  show ?thesis
  proof (cases "unat p div 8 = unat q div 8")
    case True
    have "bit_get (bit_clear bm p) q \<longleftrightarrow> bit_get bm q \<and> unat p mod 8 \<noteq> unat q mod 8"
      using len True by (auto simp: bit_get_iff bit_clear_def page_byte page_bit bit_simps)
    then show ?thesis using True page_index_eq [of p q] by blast
  next
    case False
    then have "bit_get (bit_clear bm p) q = bit_get bm q"
      by (simp add: bit_get_iff bit_clear_def page_byte)
    then show ?thesis using False by auto
  qed
qed

lemma length_bit_set [simp]: "length (bit_set bm p) = length bm"
  by (simp add: bit_set_def)

lemma length_bit_clear [simp]: "length (bit_clear bm p) = length bm"
  by (simp add: bit_clear_def)

text \<open>The managed pages and, among them, the free ones.\<close>

definition managed_set :: "pmm \<Rightarrow> nat set" where
  "managed_set s = {p. p < unat (page_count s) \<and> bit_get (usable_bitmap s) (of_nat p)}"

definition free_set :: "pmm \<Rightarrow> nat set" where
  "free_set s = {p. p < unat (page_count s) \<and> bit_get (usable_bitmap s) (of_nat p) \<and>
     \<not> bit_get (used_bitmap s) (of_nat p)}"

definition pmm_inv :: "pmm \<Rightarrow> bool" where
  "pmm_inv s \<longleftrightarrow> unat (page_count s) < 2 ^ 52 \<and>
     unat (page_count s) \<le> 8 * length (usable_bitmap s) \<and>
     unat (page_count s) \<le> 8 * length (used_bitmap s) \<and>
     unat (managed_count s) = card (managed_set s) \<and>
     unat (free_count s) = card (free_set s)"

lemma finite_managed [simp]: "finite (managed_set s)" "finite (free_set s)"
  by (simp_all add: managed_set_def free_set_def)

lemma free_subset_managed: "free_set s \<subseteq> managed_set s"
  by (auto simp: managed_set_def free_set_def)

lemma managed_set_bound: "managed_set s \<subseteq> {..<unat (page_count s)}"
  by (auto simp: managed_set_def)

lemma unat_page:
  assumes "p < unat (n :: u64)"
  shows "unat (of_nat p :: u64) = p"
  using assms unat_u64_less [of n] by (simp add: unat_of_nat)

lemma of_nat_page_eq:
  assumes "p < unat (n :: u64)" and "q < unat (n :: u64)"
  shows "(of_nat p :: u64) = of_nat q \<longleftrightarrow> p = q"
  using unat_page [OF assms(1)] unat_page [OF assms(2)] by metis

lemma fold_bit_set:
  assumes "unat n \<le> 8 * length bm" and "b \<le> unat (n :: u64)" and "q < unat n"
  shows "bit_get (fold (\<lambda>p bm. bit_set bm (of_nat p)) [a..<b] bm) (of_nat q) \<longleftrightarrow>
    q \<in> {a..<b} \<or> bit_get bm (of_nat q)"
  using assms
proof (induction b)
  case (Suc b)
  show ?case
  proof (cases "a \<le> b")
    case True
    have b: "unat (of_nat b :: u64) = b" "b < unat n" using Suc.prems unat_page [of b n] by simp_all
    have len: "length (fold (\<lambda>p bm. bit_set bm (of_nat p)) [a..<b] bm) = length bm" for a b
      by (induction b) auto
    show ?thesis
      using True Suc b of_nat_page_eq [OF b(2) Suc.prems(3)]
      by (auto simp: bit_get_set len)
  qed (use Suc in simp)
qed simp

lemma fold_bit_clear:
  assumes "unat n \<le> 8 * length bm" and "b \<le> unat (n :: u64)" and "q < unat n"
  shows "bit_get (fold (\<lambda>p bm. bit_clear bm (of_nat p)) [a..<b] bm) (of_nat q) \<longleftrightarrow>
    q \<notin> {a..<b} \<and> bit_get bm (of_nat q)"
  using assms
proof (induction b)
  case (Suc b)
  show ?case
  proof (cases "a \<le> b")
    case True
    have b: "unat (of_nat b :: u64) = b" "b < unat n" using Suc.prems unat_page [of b n] by simp_all
    have len: "length (fold (\<lambda>p bm. bit_clear bm (of_nat p)) [a..<b] bm) = length bm" for a b
      by (induction b) auto
    show ?thesis
      using True Suc b of_nat_page_eq [OF b(2) Suc.prems(3)]
      by (auto simp: bit_get_clear len)
  qed (use Suc in simp)
qed simp

lemma length_fold_bits [simp]:
  "length (fold (\<lambda>p bm. bit_set bm (of_nat p)) ps bm) = length bm"
  "length (fold (\<lambda>p bm. bit_clear bm (of_nat p)) ps bm) = length bm"
  by (induction ps arbitrary: bm) simp_all

section \<open>Allocation\<close>

definition free_run :: "pmm \<Rightarrow> nat \<Rightarrow> nat \<Rightarrow> bool" where
  "free_run s c q \<longleftrightarrow> {q..<q + c} \<subseteq> free_set s"

lemma free_run_bound: "free_run s c q \<Longrightarrow> 0 < c \<Longrightarrow> q + c \<le> unat (page_count s)"
proof -
  assume "free_run s c q" "0 < c"
  then have "q + c - 1 \<in> free_set s" by (auto simp: free_run_def)
  then have "q + c - 1 < unat (page_count s)" by (simp add: free_set_def)
  then show ?thesis by simp
qed

lemma pmm_scan_spec:
  assumes "a \<le> unat (page_count s)" and "unat r < unat count" and "unat r \<le> a"
    and "{a - unat r..<a} \<subseteq> free_set s" and "r \<noteq> 0 \<Longrightarrow> rs = of_nat (a - unat r)"
    and "\<And>q. free_run s (unat count) q \<Longrightarrow> a - unat r \<le> q"
  shows "case pmm_scan s count [a..<unat (page_count s)] rs r of
      None \<Rightarrow> \<forall>q. \<not> free_run s (unat count) q
    | Some x \<Rightarrow> \<exists>q. x = of_nat q \<and> free_run s (unat count) q \<and> (\<forall>q'. free_run s (unat count) q' \<longrightarrow> q \<le> q')"
  using assms
proof (induction "unat (page_count s) - a" arbitrary: a r rs)
  case 0
  then have e: "[a..<unat (page_count s)] = []" by simp
  have "\<not> free_run s (unat count) q" for q
  proof
    assume q: "free_run s (unat count) q"
    then have "q + unat count \<le> unat (page_count s)" using 0 by (intro free_run_bound) simp_all
    with 0(7) [OF q] 0(1-4) show False by linarith
  qed
  then show ?case unfolding e by simp
next
  case (Suc k)
  note prems = Suc.prems
  have upt: "[a..<unat (page_count s)] = a # [Suc a..<unat (page_count s)]"
    using Suc.hyps(2) by (simp add: upt_conv_Cons)
  have a: "a < unat (page_count s)" using Suc.hyps(2) by simp
  let ?free = "bit_get (usable_bitmap s) (of_nat a) \<and> \<not> bit_get (used_bitmap s) (of_nat a)"
  show ?case
  proof (cases ?free)
    case True
    then have af: "a \<in> free_set s" using a by (simp add: free_set_def)
    let ?rs = "if r = 0 then of_nat a else rs"
    have rs: "?rs = of_nat (a - unat r)" using prems(5) by simp
    have r1: "unat (r + 1) = unat r + 1"
      using prems(2) unat_u64_less [of count] by (simp add: unat_word_ariths)
    have run: "{a - unat r..<Suc a} \<subseteq> free_set s"
      using prems(4) af prems(3) by (auto simp: less_Suc_eq)
    show ?thesis
    proof (cases "r + 1 = count")
      case eq: True
      have c: "unat count = unat r + 1" using r1 eq by simp
      have "free_run s (unat count) (a - unat r)"
        using run prems(3) by (simp add: free_run_def c)
      then show ?thesis using True eq prems(6) rs by (auto simp: upt Let_def)
    next
      case False
      have lt: "unat (r + 1) < unat count"
        using r1 prems(2) False by (metis Suc_eq_plus1 Suc_lessI word_unat_eq_iff)
      have "case pmm_scan s count [Suc a..<unat (page_count s)] ?rs (r + 1) of
          None \<Rightarrow> \<forall>q. \<not> free_run s (unat count) q
        | Some x \<Rightarrow> \<exists>q. x = of_nat q \<and> free_run s (unat count) q \<and>
            (\<forall>q'. free_run s (unat count) q' \<longrightarrow> q \<le> q')"
        using Suc.hyps(2) a prems(3,6) run rs r1
        by (intro Suc.hyps(1) lt) simp_all
      then show ?thesis using True False by (simp add: upt Let_def)
    qed
  next
    case False
    then have af: "a \<notin> free_set s" by (simp add: free_set_def)
    have "Suc a \<le> q" if q: "free_run s (unat count) q" for q
    proof (rule ccontr)
      assume "\<not> Suc a \<le> q"
      then have "a \<in> {q..<q + unat count}" using prems(6) [OF q] prems(2,3) by simp
      with q af show False by (auto simp: free_run_def)
    qed
    then have "case pmm_scan s count [Suc a..<unat (page_count s)] rs 0 of
          None \<Rightarrow> \<forall>q. \<not> free_run s (unat count) q
        | Some x \<Rightarrow> \<exists>q. x = of_nat q \<and> free_run s (unat count) q \<and>
            (\<forall>q'. free_run s (unat count) q' \<longrightarrow> q \<le> q')"
      using Suc.hyps(2) a prems(2) by (intro Suc.hyps(1)) simp_all
    then show ?thesis using False by (auto simp: upt)
  qed
qed

lemma free_run_card:
  assumes "pmm_inv s" and "free_run s c q"
  shows "c \<le> unat (free_count s)"
  using card_mono [OF _ assms(2) [unfolded free_run_def]] assms(1) by (simp add: pmm_inv_def)

lemma pmm_alloc_pages_cases:
  assumes "pmm_inv s"
  obtains (none) "pmm_alloc_pages count s = (0, s)"
      "count = 0 \<or> (\<forall>q. \<not> free_run s (unat count) q)"
  | (run) q where "count \<noteq> 0" "free_run s (unat count) q"
      "\<And>q'. free_run s (unat count) q' \<Longrightarrow> q \<le> q'"
      "pmm_alloc_pages count s = (of_nat q * ARGUS_PAGE_SIZE,
         s\<lparr>used_bitmap := fold (\<lambda>selected b. bit_set b (of_nat selected)) [q..<q + unat count] (used_bitmap s),
           free_count := free_count s - count\<rparr>)"
proof (cases "count = 0 \<or> free_count s < count")
  case True
  then have "count = 0 \<or> (\<forall>q. \<not> free_run s (unat count) q)"
    using free_run_card [OF assms, of "unat count"] by (auto simp: word_less_nat_alt)
  with True show thesis by (intro none) (auto simp: pmm_alloc_pages_def)
next
  case False
  then have c: "0 < unat count" by (simp add: unat_gt_0)
  have spec: "case pmm_scan s count [0..<unat (page_count s)] 0 0 of
      None \<Rightarrow> \<forall>q. \<not> free_run s (unat count) q
    | Some x \<Rightarrow> \<exists>q. x = of_nat q \<and> free_run s (unat count) q \<and> (\<forall>q'. free_run s (unat count) q' \<longrightarrow> q \<le> q')"
    using c by (intro pmm_scan_spec) simp_all
  show thesis
  proof (cases "pmm_scan s count [0..<unat (page_count s)] 0 0")
    case None
    with spec False show thesis by (intro none) (simp_all add: pmm_alloc_pages_def)
  next
    case (Some x)
    with spec obtain q where q: "x = of_nat q" "free_run s (unat count) q"
        "\<And>q'. free_run s (unat count) q' \<Longrightarrow> q \<le> q'" by auto
    have b: "q + unat count \<le> unat (page_count s)" by (rule free_run_bound [OF q(2) c])
    have uq: "unat (of_nat q :: u64) = q" using b c by (intro unat_page [of q "page_count s"]) simp
    have "unat (of_nat q + count) = q + unat count"
      using b uq unat_u64_less [of "page_count s"] by (simp add: unat_word_ariths)
    then show thesis
      using False Some q uq by (intro run [of q]) (simp_all add: pmm_alloc_pages_def)
  qed
qed

subsection \<open>Effect on the sets\<close>

lemma mark_used:
  assumes "pmm_inv s" and "b \<le> unat (page_count s)"
  shows "free_set (s\<lparr>used_bitmap := fold (\<lambda>p bm. bit_set bm (of_nat p)) [a..<b] (used_bitmap s),
      free_count := f\<rparr>) = free_set s - {a..<b}"
    and "managed_set (s\<lparr>used_bitmap := u, free_count := f\<rparr>) = managed_set s"
proof -
  have len: "unat (page_count s) \<le> 8 * length (used_bitmap s)" using assms(1) by (simp add: pmm_inv_def)
  show "free_set (s\<lparr>used_bitmap := fold (\<lambda>p bm. bit_set bm (of_nat p)) [a..<b] (used_bitmap s),
      free_count := f\<rparr>) = free_set s - {a..<b}"
    using fold_bit_set [OF len assms(2)] by (auto simp: free_set_def)
qed (simp add: managed_set_def)

lemma mark_free:
  assumes "pmm_inv s" and "b \<le> unat (page_count s)" and "{a..<b} \<subseteq> managed_set s"
  shows "free_set (s\<lparr>used_bitmap := fold (\<lambda>p bm. bit_clear bm (of_nat p)) [a..<b] (used_bitmap s),
      free_count := f\<rparr>) = free_set s \<union> {a..<b}"
proof -
  have len: "unat (page_count s) \<le> 8 * length (used_bitmap s)" using assms(1) by (simp add: pmm_inv_def)
  show ?thesis
    using fold_bit_clear [OF len assms(2)] assms(3) by (auto simp: free_set_def managed_set_def)
qed

lemma unat_of_nat_run:
  assumes "pmm_inv s" and "free_run s c q" and "0 < c"
  shows "unat (of_nat q * ARGUS_PAGE_SIZE :: u64) = q * 4096"
    and "unat (of_nat q :: u64) = q" and "q + c \<le> unat (page_count s)"
proof -
  show b: "q + c \<le> unat (page_count s)" by (rule free_run_bound [OF assms(2,3)])
  have n: "unat (page_count s) < 2 ^ 52" using assms(1) by (simp add: pmm_inv_def)
  show uq: "unat (of_nat q :: u64) = q" using b assms(3) by (intro unat_page [of q "page_count s"]) simp
  have "q * 4096 < 2 ^ 64" using b n by simp
  then show "unat (of_nat q * ARGUS_PAGE_SIZE :: u64) = q * 4096" by (simp add: unat_word_ariths uq)
qed

lemma pmm_alloc_spec:
  assumes "pmm_inv s" and "pmm_alloc_pages count s = (address, s')"
  shows "pmm_inv s' \<and> managed_set s' = managed_set s \<and> page_count s' = page_count s \<and>
    (s' = s \<and> address = 0 \<and> (count = 0 \<or> (\<forall>q. \<not> free_run s (unat count) q)) \<or>
     (\<exists>q. unat address = q * 4096 \<and> count \<noteq> 0 \<and> free_run s (unat count) q \<and>
        (\<forall>q'. free_run s (unat count) q' \<longrightarrow> q \<le> q') \<and>
        free_set s' = free_set s - {q..<q + unat count}))"
proof (cases rule: pmm_alloc_pages_cases [OF assms(1), of count, case_names none run])
  case none
  then show ?thesis using assms by auto
next
  case (run q)
  have c: "0 < unat count" using run(1) by (simp add: unat_gt_0)
  note u = unat_of_nat_run [OF assms(1) run(2) c]
  have s': "address = of_nat q * ARGUS_PAGE_SIZE" "s' = s\<lparr>used_bitmap :=
      fold (\<lambda>selected b. bit_set b (of_nat selected)) [q..<q + unat count] (used_bitmap s),
      free_count := free_count s - count\<rparr>"
    using assms(2) run(4) by simp_all
  have fs: "free_set s' = free_set s - {q..<q + unat count}"
    unfolding s' by (rule mark_used(1) [OF assms(1) u(3)])
  have le: "count \<le> free_count s"
    using free_run_card [OF assms(1) run(2)] by (simp add: word_le_nat_alt)
  have "card (free_set s') = card (free_set s) - unat count"
    unfolding fs using run(2) by (subst card_Diff_subset) (simp_all add: free_run_def)
  then have "pmm_inv s'"
    using assms(1) le by (simp add: pmm_inv_def s' mark_used(2) [OF assms(1) u(3)] unat_sub)
  then show ?thesis
    using run(1-3) u fs s' mark_used(2) [OF assms(1) u(3)] by auto
qed

text \<open>The release is accepted exactly for page-aligned runs of managed pages in use.\<close>

definition releasable :: "pmm \<Rightarrow> u64 \<Rightarrow> u64 \<Rightarrow> bool" where
  "releasable s address count \<longleftrightarrow> 4096 dvd unat address \<and> count \<noteq> 0 \<and>
     {unat address div 4096..<unat address div 4096 + unat count} \<subseteq> managed_set s - free_set s"

lemma releasable_bound:
  assumes "releasable s address count"
  shows "unat address div 4096 + unat count \<le> unat (page_count s)"
proof -
  let ?q = "unat address div 4096"
  have "0 < unat count" using assms by (simp add: releasable_def unat_gt_0)
  then have "?q + unat count - 1 \<in> {?q..<?q + unat count}" by auto
  then have "?q + unat count - 1 \<in> managed_set s" using assms unfolding releasable_def by blast
  then have "?q + unat count - 1 < unat (page_count s)" by (simp add: managed_set_def)
  then show ?thesis by linarith
qed

lemma pmm_release_eq:
  defines "q \<equiv> \<lambda>address :: u64. unat address div 4096"
  shows "pmm_release_pages address count s =
    (if releasable s address count
     then (True, s\<lparr>used_bitmap := fold (\<lambda>page b. bit_clear b (of_nat page))
           [q address..<q address + unat count] (used_bitmap s),
         free_count := free_count s + count\<rparr>) else (False, s))"
proof -
  let ?first = "address div ARGUS_PAGE_SIZE"
  have uq: "unat ?first = q address" by (simp add: q_def unat_div_page)
  have al: "address AND (ARGUS_PAGE_SIZE - 1) = 0 \<longleftrightarrow> 4096 dvd unat address"
    using word_and_mask_mod [of address 12]
    by (simp add: mask_eq_exp_minus_1 word_unat_eq_iff mod_eq_0_iff_dvd)
  define bad where "bad \<longleftrightarrow> count = 0 \<or> page_count s \<le> ?first \<or> page_count s - ?first < count"
  have bad: "\<not> bad \<longleftrightarrow> count \<noteq> 0 \<and> q address + unat count \<le> unat (page_count s)"
  proof (cases "count = 0 \<or> page_count s \<le> ?first")
    case True
    then show ?thesis using uq by (auto simp: bad_def word_le_nat_alt unat_gt_0 dest: unat_gt_0 [THEN iffD2])
  next
    case False
    then have "unat (page_count s - ?first) = unat (page_count s) - q address"
      using uq by (simp add: unat_sub not_le less_imp_le)
    then show ?thesis using False uq by (auto simp: bad_def word_le_nat_alt word_less_nat_alt)
  qed
  have pages: "unat (?first + count) = q address + unat count" if "\<not> bad"
    using that uq bad unat_u64_less [of "page_count s"] by (simp add: unat_word_ariths)
  have used: "list_ex (\<lambda>page. \<not> bit_get (usable_bitmap s) (of_nat page) \<or>
      \<not> bit_get (used_bitmap s) (of_nat page)) [q address..<q address + unat count] \<longleftrightarrow>
      \<not> {q address..<q address + unat count} \<subseteq> managed_set s - free_set s" if "\<not> bad"
    using that bad by (force simp: list_ex_iff managed_set_def free_set_def)
  have rel: "releasable s address count \<longleftrightarrow> 4096 dvd unat address \<and> \<not> bad \<and>
      {q address..<q address + unat count} \<subseteq> managed_set s - free_set s"
    using releasable_bound [of s address count] bad by (auto simp: releasable_def q_def)
  show ?thesis
    using used pages al rel unfolding pmm_release_pages_def Let_def bad_def [symmetric] uq by auto
qed

lemma pmm_release_spec:
  assumes "pmm_inv s" and "releasable s address count"
    and "pmm_release_pages address count s = (True, s')"
  shows "pmm_inv s' \<and> managed_set s' = managed_set s \<and> page_count s' = page_count s \<and>
      free_set s' = free_set s \<union> {unat address div 4096..<unat address div 4096 + unat count}"
proof -
  define q where "q = unat address div 4096"
  have s': "s' = s\<lparr>used_bitmap := fold (\<lambda>page b. bit_clear b (of_nat page)) [q..<q + unat count] (used_bitmap s),
       free_count := free_count s + count\<rparr>" using assms(2,3) by (simp add: pmm_release_eq q_def)
  have sub: "{q..<q + unat count} \<subseteq> managed_set s - free_set s" "q + unat count \<le> unat (page_count s)"
    using assms(2) releasable_bound [OF assms(2)] by (simp_all add: releasable_def q_def)
  have fs: "free_set s' = free_set s \<union> {q..<q + unat count}"
    unfolding s' by (rule mark_free [OF assms(1) sub(2)]) (use sub(1) in blast)
  have "card (free_set s') = card (free_set s) + unat count"
    unfolding fs using sub(1) by (subst card_Un_disjoint) auto
  moreover have "card (free_set s) + unat count < 2 ^ 64"
  proof -
    have "card (free_set s') \<le> card {..<unat (page_count s)}"
      by (rule card_mono) (auto simp: free_set_def s')
    then show ?thesis using calculation unat_u64_less [of "page_count s"] by simp
  qed
  ultimately have "pmm_inv s'"
    using assms(1) by (simp add: pmm_inv_def s' mark_used(2) [OF assms(1) sub(2)] unat_word_ariths)
  then show ?thesis
    using fs by (simp add: s' mark_used(2) [OF assms(1) sub(2)] q_def [symmetric])
qed

section \<open>Initialisation\<close>

text \<open>The pages that a byte range touches.\<close>

definition range_pages :: "physical_range \<Rightarrow> nat set" where
  "range_pages r = {p. \<exists>a. unat (range_base r) \<le> a \<and>
     a < unat (range_base r) + unat (range_size r) \<and> p = a div 4096}"

definition descriptor_pages :: "efi_memory_descriptor \<Rightarrow> nat set" where
  "descriptor_pages d = (if desc_Type d = EfiConventionalMemory
     then {unat (desc_PhysicalStart d) div 4096..<
       unat (desc_PhysicalStart d) div 4096 + unat (desc_NumberOfPages d)} else {})"

text \<open>A state whose sets are given, under the invariant; what every initialisation step keeps.\<close>

definition pmm_holds :: "pmm \<Rightarrow> u64 \<Rightarrow> nat set \<Rightarrow> nat set \<Rightarrow> bool" where
  "pmm_holds s n M F \<longleftrightarrow> pmm_inv s \<and> page_count s = n \<and> managed_set s = M \<and> free_set s = F"

lemma pmm_inv_lengths:
  assumes "pmm_inv s" and "p < unat (page_count s)"
  shows "unat (of_nat p :: u64) < 8 * length (usable_bitmap s)"
    and "unat (of_nat p :: u64) < 8 * length (used_bitmap s)"
  using assms unat_page [OF assms(2)] by (simp_all add: pmm_inv_def)

lemma of_nat_page_iff:
  assumes "p < unat (page_count s)"
  shows "page_count s \<le> of_nat p \<longleftrightarrow> False"
  using unat_page [OF assms] assms by (simp add: word_le_nat_alt)

lemma make_usable_spec:
  assumes "pmm_inv s" and "p < unat (page_count s)"
  shows "pmm_holds (make_usable (of_nat p) s) (page_count s) (insert p (managed_set s))
    (if p \<in> managed_set s then free_set s else insert p (free_set s))"
proof (cases "p \<in> managed_set s")
  case True
  then show ?thesis
    using assms by (auto simp: pmm_holds_def make_usable_def managed_set_def)
next
  case False
  let ?s = "make_usable (of_nat p) s"
  have s: "?s = s\<lparr>usable_bitmap := bit_set (usable_bitmap s) (of_nat p),
      used_bitmap := bit_clear (used_bitmap s) (of_nat p),
      managed_count := managed_count s + 1, free_count := free_count s + 1\<rparr>"
    using False assms(2) of_nat_page_iff [OF assms(2)] by (simp add: make_usable_def managed_set_def)
  note g = bit_get_set [OF pmm_inv_lengths(1) [OF assms]] bit_get_clear [OF pmm_inv_lengths(2) [OF assms]]
    of_nat_page_eq [OF assms(2)]
  have m: "managed_set ?s = insert p (managed_set s)"
    unfolding s using assms(2) by (auto simp: managed_set_def g)
  have f: "free_set ?s = insert p (free_set s)"
    unfolding s using assms(2) False by (auto simp: free_set_def managed_set_def g)
  have bound: "card (insert p (managed_set s)) \<le> unat (page_count s)"
    using card_mono [of "{..<unat (page_count s)}" "insert p (managed_set s)"] managed_set_bound [of s]
      assms(2) by auto
  have nf: "p \<notin> free_set s" using False free_subset_managed by blast
  have "card (free_set s) \<le> card (managed_set s)" by (rule card_mono [OF _ free_subset_managed]) simp
  then have "pmm_inv ?s"
    using assms(1) bound False nf unat_u64_less [of "page_count s"] m f
    by (simp add: pmm_inv_def s unat_word_ariths)
  then show ?thesis using m f False by (simp add: pmm_holds_def s)
qed

lemma reserve_page_spec:
  assumes "pmm_inv s" and "p < unat (page_count s)"
  shows "pmm_holds (reserve_page (of_nat p) s) (page_count s) (managed_set s - {p}) (free_set s - {p})"
proof (cases "p \<in> managed_set s")
  case False
  then show ?thesis
    using assms free_subset_managed [of s] by (auto simp: pmm_holds_def reserve_page_def managed_set_def)
next
  case True
  let ?s = "reserve_page (of_nat p) s"
  have s: "?s = s\<lparr>usable_bitmap := bit_clear (usable_bitmap s) (of_nat p),
      used_bitmap := bit_set (used_bitmap s) (of_nat p),
      managed_count := managed_count s - 1,
      free_count := (if p \<in> free_set s then free_count s - 1 else free_count s)\<rparr>"
    using True of_nat_page_iff [OF assms(2)]
    by (simp add: reserve_page_def managed_set_def free_set_def Let_def)
  note g = bit_get_clear [OF pmm_inv_lengths(1) [OF assms]] bit_get_set [OF pmm_inv_lengths(2) [OF assms]]
    of_nat_page_eq [OF assms(2)]
  have m: "managed_set ?s = managed_set s - {p}"
    unfolding s using assms(2) by (auto simp: managed_set_def g)
  have f: "free_set ?s = free_set s - {p}"
    unfolding s using assms(2) by (auto simp: free_set_def g)
  have "managed_count s \<noteq> 0" "p \<in> free_set s \<Longrightarrow> free_count s \<noteq> 0"
    using assms(1) True by (auto simp: pmm_inv_def card_gt_0_iff dest: card_gt_0_iff [THEN iffD2])
  then have "pmm_inv ?s"
    using assms(1) True m f by (simp add: pmm_inv_def s unat_minus_one)
  then show ?thesis using m f by (simp add: pmm_holds_def s)
qed

lemma reserve_pages_spec:
  assumes "pmm_inv s" and "b \<le> unat (page_count s)"
  shows "pmm_holds (fold (\<lambda>p. reserve_page (of_nat p)) [a..<b] s) (page_count s)
    (managed_set s - {a..<b}) (free_set s - {a..<b})"
  using assms(2)
proof (induction b)
  case 0
  then show ?case using assms(1) by (simp add: pmm_holds_def)
next
  case (Suc b)
  show ?case
  proof (cases "a \<le> b")
    case True
    let ?t = "fold (\<lambda>p. reserve_page (of_nat p)) [a..<b] s"
    have t: "pmm_holds ?t (page_count s) (managed_set s - {a..<b}) (free_set s - {a..<b})"
      using Suc by simp
    have "pmm_holds (reserve_page (of_nat b) ?t) (page_count ?t) (managed_set ?t - {b}) (free_set ?t - {b})"
      using t Suc.prems by (intro reserve_page_spec) (simp_all add: pmm_holds_def)
    moreover have "X - {a..<b} - {b} = X - {a..<Suc b}" for X :: "nat set" using True by auto
    ultimately show ?thesis using t True by (simp add: pmm_holds_def)
  qed (use Suc assms(1) in \<open>simp add: pmm_holds_def\<close>)
qed

lemma page_count_bytes:
  assumes "pmm_inv s"
  shows "unat (page_count s * ARGUS_PAGE_SIZE) = unat (page_count s) * 4096"
  using assms by (simp add: pmm_inv_def unat_word_ariths)

lemma last_byte_eq:
  fixes b z :: u64
  assumes "z \<noteq> 0"
  shows "unat (if UINT64_MAX - b < z - 1 then UINT64_MAX else b + z - 1) =
    min (unat b + unat z - 1) (2 ^ 64 - 1)"
proof -
  have z: "unat (z - 1) = unat z - 1" "0 < unat z" using assms by (simp_all add: unat_minus_one unat_gt_0)
  have le: "b \<le> UINT64_MAX" using unat_u64_less [of b] by (simp add: word_le_nat_alt)
  have d: "unat (UINT64_MAX - b) = 2 ^ 64 - 1 - unat b" using le by (simp add: unat_sub)
  show ?thesis
  proof (cases "UINT64_MAX - b < z - 1")
    case True
    then show ?thesis using z d unat_u64_less [of b] by (simp add: word_less_nat_alt)
  next
    case False
    then have le: "unat z - 1 \<le> 2 ^ 64 - 1 - unat b" using z d by (simp add: word_less_nat_alt)
    define w where "w = z - 1"
    have "unat (b + w) = unat b + (unat z - 1)"
      using le unat_u64_less [of b] z by (simp add: unat_word_ariths w_def [symmetric])
    then have "unat (b + z - 1) = unat b + (unat z - 1)" by (simp add: w_def add_diff_eq)
    then show ?thesis using False le z unat_u64_less [of b] by simp
  qed
qed

lemma range_pages_iff:
  assumes "range_size r \<noteq> 0"
  shows "p \<in> range_pages r \<longleftrightarrow> unat (range_base r) div 4096 \<le> p \<and>
    p \<le> (unat (range_base r) + unat (range_size r) - 1) div 4096"
proof -
  let ?b = "unat (range_base r)" and ?z = "unat (range_size r)"
  have z: "0 < ?z" using assms by (simp add: unat_gt_0)
  show ?thesis
  proof
    assume "p \<in> range_pages r"
    then obtain a where "?b \<le> a" "a \<le> ?b + ?z - 1" "p = a div 4096" by (auto simp: range_pages_def)
    then show "?b div 4096 \<le> p \<and> p \<le> (?b + ?z - 1) div 4096" by (simp add: div_le_mono)
  next
    assume p: "?b div 4096 \<le> p \<and> p \<le> (?b + ?z - 1) div 4096"
    then have "?b \<le> max ?b (p * 4096)" "max ?b (p * 4096) < ?b + ?z" "p = max ?b (p * 4096) div 4096"
      using z by (auto simp: max_def)
    then show "p \<in> range_pages r" unfolding range_pages_def by blast
  qed
qed

lemma reserve_range_spec:
  assumes "pmm_inv s"
  shows "pmm_holds (reserve_range r s) (page_count s) (managed_set s - range_pages r)
    (free_set s - range_pages r)"
proof (cases "range_size r = 0 \<or> page_count s * ARGUS_PAGE_SIZE \<le> range_base r")
  case True
  have "managed_set s \<inter> range_pages r = {}"
  proof (cases "range_size r = 0")
    case False
    then have "unat (page_count s) * 4096 \<le> unat (range_base r)"
      using True page_count_bytes [OF assms] by (simp add: word_le_nat_alt)
    then have "unat (page_count s) \<le> unat (range_base r) div 4096"
      by (simp add: less_eq_div_iff_mult_less_eq)
    then show ?thesis using range_pages_iff [OF False] by (auto simp: managed_set_def)
  qed (auto simp: range_pages_def)
  then have "managed_set s - range_pages r = managed_set s" "free_set s - range_pages r = free_set s"
    using free_subset_managed [of s] by blast+
  then show ?thesis using True assms by (auto simp: pmm_holds_def reserve_range_def)
next
  case False
  then have z: "range_size r \<noteq> 0" by simp
  let ?b = "unat (range_base r)" and ?n = "unat (page_count s)"
  define m where "m = min (?b + unat (range_size r) - 1) (2 ^ 64 - 1)"
  let ?last = "if UINT64_MAX - range_base r < range_size r - 1 then UINT64_MAX
    else range_base r + range_size r - 1"
  have last: "unat ?last = m" unfolding m_def by (rule last_byte_eq [OF z])
  have lim: "unat (?last div ARGUS_PAGE_SIZE + 1) = m div 4096 + 1"
  proof -
    have "unat (?last div ARGUS_PAGE_SIZE) = m div 4096" unfolding unat_div_page last ..
    moreover have "m div 4096 < 2 ^ 52" by (simp add: m_def less_mult_imp_div_less)
    ultimately show ?thesis by (simp add: unat_word_ariths)
  qed
  let ?limit = "min ?n (m div 4096 + 1)"
  have eq: "reserve_range r s = fold (\<lambda>p. reserve_page (of_nat p)) [?b div 4096..<?limit] s"
    using False lim unfolding reserve_range_def Let_def
    by (simp add: word_less_nat_alt unat_div_page min_def not_less)
  have n52: "?n < 2 ^ 52" using assms by (simp add: pmm_inv_def)
  have pages: "p \<in> {?b div 4096..<?limit} \<longleftrightarrow> p \<in> range_pages r" if "p < ?n" for p
  proof -
    have "p \<le> m div 4096 \<longleftrightarrow> p \<le> (?b + unat (range_size r) - 1) div 4096"
      using that n52 by (simp add: m_def less_eq_div_iff_mult_less_eq)
    then show ?thesis using that by (auto simp: range_pages_iff [OF z])
  qed
  have "managed_set s - {?b div 4096..<?limit} = managed_set s - range_pages r"
    "free_set s - {?b div 4096..<?limit} = free_set s - range_pages r"
    using pages by (auto simp: managed_set_def free_set_def)
  then show ?thesis
    using reserve_pages_spec [OF assms, of ?limit "?b div 4096"] unfolding eq by simp
qed


lemma make_usable_run:
  assumes "pmm_holds s n M M" and "a + k \<le> unat n"
  shows "pmm_holds (fold (\<lambda>i. make_usable (of_nat a + of_nat i)) [0..<k] s) n
    (M \<union> {a..<a + k}) (M \<union> {a..<a + k})"
  using assms(2)
proof (induction k)
  case 0
  then show ?case using assms(1) by simp
next
  case (Suc k)
  let ?t = "fold (\<lambda>i. make_usable (of_nat a + of_nat i)) [0..<k] s"
  have t: "pmm_holds ?t n (M \<union> {a..<a + k}) (M \<union> {a..<a + k})" using Suc by simp
  have "pmm_holds (make_usable (of_nat (a + k)) ?t) (page_count ?t) (insert (a + k) (managed_set ?t))
      (if a + k \<in> managed_set ?t then free_set ?t else insert (a + k) (free_set ?t))"
    using t Suc.prems by (intro make_usable_spec) (simp_all add: pmm_holds_def)
  moreover have "insert (a + k) (M \<union> {a..<a + k}) = M \<union> {a..<a + Suc k}" by auto
  ultimately show ?case using t by (auto simp: pmm_holds_def insert_absorb split: if_splits)
qed

lemma add_descriptor_spec:
  assumes "pmm_holds s n M M"
  defines "P \<equiv> \<lambda>d. descriptor_pages d \<inter> {..<unat n}"
  shows "pmm_holds (add_descriptor d s) n (M \<union> P d) (M \<union> P d)"
proof (cases "desc_Type d = EfiConventionalMemory \<and> desc_PhysicalStart d div ARGUS_PAGE_SIZE < n")
  case False
  then have "P d = {}"
    by (auto simp: P_def descriptor_pages_def word_less_nat_alt unat_div_page)
  then show ?thesis using False assms(1) by (auto simp: add_descriptor_def pmm_holds_def)
next
  case True
  let ?a = "unat (desc_PhysicalStart d) div 4096"
  let ?first = "desc_PhysicalStart d div ARGUS_PAGE_SIZE"
  let ?c = "if n - ?first < desc_NumberOfPages d then n - ?first else desc_NumberOfPages d"
  have a: "?a < unat n" using True by (simp add: word_less_nat_alt unat_div_page)
  have nf: "unat (n - ?first) = unat n - ?a"
    using True by (simp add: unat_sub less_imp_le unat_div_page)
  have c: "unat ?c = min (unat n - ?a) (unat (desc_NumberOfPages d))"
    using nf by (simp add: word_less_nat_alt min_def)
  have first: "?first = of_nat ?a"
    by (rule word_unat_eq_iff [THEN iffD2]) (simp only: unat_div_page unat_page [OF a])
  have eq: "add_descriptor d s = fold (\<lambda>i. make_usable (of_nat ?a + of_nat i)) [0..<unat ?c] s"
    using True assms(1) unfolding add_descriptor_def Let_def first by (simp add: pmm_holds_def)
  have "P d = {?a..<?a + unat ?c}"
    unfolding c using True a by (auto simp: P_def descriptor_pages_def min_def)
  then show ?thesis unfolding eq using make_usable_run [OF assms(1), of ?a "unat ?c"] a c by simp
qed

lemma add_descriptors_spec:
  assumes "pmm_holds s n M M"
  defines "P \<equiv> \<lambda>d. descriptor_pages d \<inter> {..<unat n}"
  shows "pmm_holds (fold add_descriptor ds s) n (M \<union> \<Union> (P ` set ds)) (M \<union> \<Union> (P ` set ds))"
  using assms(1)
proof (induction ds arbitrary: s M)
  case (Cons d ds)
  from Cons.IH [OF add_descriptor_spec [OF Cons.prems, of d]]
  show ?case by (simp add: P_def Un_assoc)
qed simp

lemma reserve_range_holds:
  "pmm_holds s n M M \<Longrightarrow> pmm_holds (reserve_range r s) n (M - range_pages r) (M - range_pages r)"
  using reserve_range_spec [of s r] by (simp add: pmm_holds_def)

definition reserved_ranges :: "boot_info \<Rightarrow> physical_range list" where
  "reserved_ranges bi = [\<lparr>range_base = 0, range_size = 0x100000\<rparr>, bi_kernel_image bi,
     bi_boot_info_storage bi, bi_kernel_stack bi, bi_pmm_bitmap_storage bi, bi_memory_map_storage bi,
     \<lparr>range_base = fb_base (bi_framebuffer bi), range_size = fb_size (bi_framebuffer bi)\<rparr>] @
     (if bi_acpi_rsdp bi \<noteq> 0 then [\<lparr>range_base = bi_acpi_rsdp bi, range_size = ARGUS_PAGE_SIZE\<rparr>] else [])"

definition conventional_pages :: "boot_info \<Rightarrow> nat set" where
  "conventional_pages bi = (\<Union>d \<in> set (map_descriptors (bi_memory_map bi)). descriptor_pages d) \<inter>
     {..<unat (bi_pmm_page_count bi)}"

definition reserved_pages :: "boot_info \<Rightarrow> nat set" where
  "reserved_pages bi = (\<Union>r \<in> set (reserved_ranges bi). range_pages r)"

lemma reserve_ranges_holds:
  "pmm_holds s n M M \<Longrightarrow> pmm_holds (fold reserve_range rs s) n
     (M - (\<Union>r \<in> set rs. range_pages r)) (M - (\<Union>r \<in> set rs. range_pages r))"
proof (induction rs arbitrary: s M)
  case (Cons r rs)
  have "M - range_pages r - (\<Union>r \<in> set rs. range_pages r) = M - (\<Union>r \<in> set (r # rs). range_pages r)"
    by auto
  then show ?case using Cons.IH [OF reserve_range_holds [OF Cons.prems, of r]] by simp
qed simp

lemma zero_bitmap: "p < 8 * k \<Longrightarrow> \<not> bit_get (replicate k 0) (of_nat p :: u64)"
proof -
  assume p: "p < 8 * k"
  have "unat (of_nat p :: u64) \<le> p" by (simp add: unat_of_nat)
  then have "unat (of_nat p :: u64) div 8 < k" using p by (simp add: less_mult_imp_div_less mult.commute)
  then show ?thesis by (simp add: bit_get_iff)
qed

lemma empty_pmm_holds:
  assumes "unat n < 2 ^ 52" and "unat n \<le> 8 * k"
  shows "pmm_holds \<lparr>usable_bitmap = replicate k 0, used_bitmap = replicate k 0xFF,
    page_count = n, managed_count = 0, free_count = 0\<rparr> n {} {}"
  using assms zero_bitmap [of _ k] by (auto simp: pmm_holds_def pmm_inv_def managed_set_def free_set_def)

definition boot_header_ok :: "boot_info \<Rightarrow> bool" where
  "boot_header_ok bi \<longleftrightarrow> bi_magic bi = ARGUS_BOOT_INFO_MAGIC \<and> bi_boot_services_exited bi \<noteq> 0 \<and>
     mm_buffer (bi_memory_map bi) \<noteq> None \<and> mm_descriptor_size (bi_memory_map bi) \<noteq> 0 \<and>
     bi_pmm_page_count bi \<noteq> 0 \<and> range_base (bi_pmm_bitmap_storage bi) \<noteq> 0 \<and> bi_pmm_bitmap_bytes bi \<noteq> 0"

lemma pmm_init_eq:
  "pmm_init (Some bi) s0 =
    (if boot_header_ok bi then
       let s = fold reserve_range (reserved_ranges bi)
         (fold add_descriptor (map_descriptors (bi_memory_map bi))
           \<lparr>usable_bitmap = replicate (unat (bi_pmm_bitmap_bytes bi)) 0,
            used_bitmap = replicate (unat (bi_pmm_bitmap_bytes bi)) 0xFF,
            page_count = bi_pmm_page_count bi, managed_count = 0, free_count = 0\<rparr>)
       in (managed_count s \<noteq> 0, s)
     else (False, s0))"
  by (simp add: pmm_init_def boot_header_ok_def reserved_ranges_def Let_def)

lemma pmm_init_holds:
  assumes "boot_header_ok bi" and "unat (bi_pmm_page_count bi) < 2 ^ 52"
    and "unat (bi_pmm_page_count bi) \<le> 8 * unat (bi_pmm_bitmap_bytes bi)"
    and "pmm_init (Some bi) s0 = (ok, s)"
  shows "pmm_holds s (bi_pmm_page_count bi) (conventional_pages bi - reserved_pages bi)
    (conventional_pages bi - reserved_pages bi) \<and> (ok \<longleftrightarrow> conventional_pages bi - reserved_pages bi \<noteq> {})"
proof -
  let ?n = "bi_pmm_page_count bi" and ?ds = "map_descriptors (bi_memory_map bi)"
  let ?z = "\<lparr>usable_bitmap = replicate (unat (bi_pmm_bitmap_bytes bi)) 0,
            used_bitmap = replicate (unat (bi_pmm_bitmap_bytes bi)) 0xFF,
            page_count = ?n, managed_count = 0, free_count = 0\<rparr>"
  have s: "s = fold reserve_range (reserved_ranges bi) (fold add_descriptor ?ds ?z)"
    and ok: "ok \<longleftrightarrow> managed_count s \<noteq> 0"
    using assms(1,4) by (auto simp: pmm_init_eq Let_def)
  have conv: "conventional_pages bi = {} \<union> (\<Union>d \<in> set ?ds. descriptor_pages d \<inter> {..<unat ?n})"
    by (auto simp: conventional_pages_def)
  have "pmm_holds (fold add_descriptor ?ds ?z) ?n (conventional_pages bi) (conventional_pages bi)"
    unfolding conv by (rule add_descriptors_spec [OF empty_pmm_holds [OF assms(2,3)]])
  from reserve_ranges_holds [OF this, of "reserved_ranges bi"]
  have h: "pmm_holds s ?n (conventional_pages bi - reserved_pages bi) (conventional_pages bi - reserved_pages bi)"
    unfolding s reserved_pages_def .
  then have "unat (managed_count s) = card (conventional_pages bi - reserved_pages bi)"
    by (simp add: pmm_holds_def pmm_inv_def)
  moreover have "finite (conventional_pages bi)" by (simp add: conventional_pages_def)
  ultimately have "managed_count s = 0 \<longleftrightarrow> conventional_pages bi - reserved_pages bi = {}"
    by (simp add: word_unat_eq_iff)
  with h ok show ?thesis by simp
qed

lemma pmm_validate_counts:
  assumes "n \<le> unat (page_count s)"
  shows "fold (\<lambda>page (m, f).
           if \<not> bit_get (usable_bitmap s) (of_nat page) then (m, f)
           else (m + 1, if \<not> bit_get (used_bitmap s) (of_nat page) then f + 1 else f))
         [0..<n] (0 :: u64, 0 :: u64) =
    (of_nat (card (managed_set s \<inter> {..<n})), of_nat (card (free_set s \<inter> {..<n})))"
  using assms
proof (induction n)
  case (Suc n)
  have "X \<inter> {..<Suc n} = (if n \<in> X then insert n (X \<inter> {..<n}) else X \<inter> {..<n})" for X :: "nat set"
    by (auto simp: less_Suc_eq)
  moreover have "n \<in> managed_set s \<longleftrightarrow> bit_get (usable_bitmap s) (of_nat n)"
    "n \<in> free_set s \<longleftrightarrow> bit_get (usable_bitmap s) (of_nat n) \<and> \<not> bit_get (used_bitmap s) (of_nat n)"
    using Suc.prems by (simp_all add: managed_set_def free_set_def)
  ultimately show ?case using Suc by (simp add: add.commute)
qed simp

lemma pmm_validate_holds:
  assumes "pmm_inv s"
  shows "pmm_validate s"
proof -
  have "managed_set s \<inter> {..<unat (page_count s)} = managed_set s"
    "free_set s \<inter> {..<unat (page_count s)} = free_set s"
    by (auto simp: managed_set_def free_set_def)
  moreover have "of_nat (card (managed_set s)) = managed_count s"
    "of_nat (card (free_set s)) = free_count s"
    using assms of_nat_unat_id [of "managed_count s"] of_nat_unat_id [of "free_count s"]
    by (simp_all add: pmm_inv_def)
  ultimately have e: "fold (\<lambda>page (m, f).
           if \<not> bit_get (usable_bitmap s) (of_nat page) then (m, f)
           else (m + 1, if \<not> bit_get (used_bitmap s) (of_nat page) then f + 1 else f))
         [0..<unat (page_count s)] (0 :: u64, 0 :: u64) = (managed_count s, free_count s)"
    unfolding pmm_validate_counts [OF order_refl] by (simp only:)
  have "card (free_set s) \<le> card (managed_set s)" by (rule card_mono [OF _ free_subset_managed]) simp
  then show ?thesis unfolding pmm_validate_def e using assms by (simp add: pmm_inv_def word_le_nat_alt)
qed

text \<open>A small allocator with the two free pages 2 and 3, for the examples.\<close>

abbreviation pmm_example :: pmm where
  "pmm_example \<equiv> \<lparr>usable_bitmap = [0x0C], used_bitmap = [0], page_count = 8, managed_count = 2,
     free_count = 2\<rparr>"

lemma pmm_example_inv: "pmm_inv pmm_example" "0 \<notin> managed_set pmm_example"
proof -
  have sets: "managed_set pmm_example = set (filter (\<lambda>p. bit_get [0x0C] (of_nat p)) [0..<8])"
    "free_set pmm_example =
      set (filter (\<lambda>p. bit_get [0x0C] (of_nat p) \<and> \<not> bit_get [0] (of_nat p)) [0..<8])"
    by (auto simp: managed_set_def free_set_def)
  have f: "filter (\<lambda>p. bit_get [0x0C] (of_nat p)) [0..<8] = [2, 3]"
    "filter (\<lambda>p. bit_get [0x0C] (of_nat p) \<and> \<not> bit_get [0] (of_nat p)) [0..<8] = [2, 3]"
    by code_simp+
  show "pmm_inv pmm_example" "0 \<notin> managed_set pmm_example" by (simp_all add: pmm_inv_def sets f)
qed

section \<open>Properties\<close>

text \<open>
  Claim C8. Page allocation is sound, complete and first-fit. On a valid allocator state,
  \<^verbatim>\<open>pmm_alloc_pages\<close> returns 0 and changes nothing exactly when the count is 0 or no run of that
  many consecutive free pages exists below or above; otherwise it returns the address of the
  lowest such run, takes just those pages out of the free set, and keeps the managed set, the
  counters and the invariant. The result 0 is unambiguous as long as page 0 is not managed.
\<close>

theorem pmm_alloc_pages_first_fit:
  assumes "pmm_inv s" and "0 \<notin> managed_set s" and "pmm_alloc_pages count s = (address, s')"
  shows "pmm_inv s' \<and> managed_set s' = managed_set s \<and>
    (if count = 0 \<or> (\<forall>q. \<not> {q..<q + unat count} \<subseteq> free_set s)
     then address = 0 \<and> s' = s
     else \<exists>q. unat address = q * 4096 \<and> address \<noteq> 0 \<and> {q..<q + unat count} \<subseteq> free_set s \<and>
       (\<forall>q'<q. \<not> {q'..<q' + unat count} \<subseteq> free_set s) \<and>
       free_set s' = free_set s - {q..<q + unat count})"
proof -
  note spec = pmm_alloc_spec [OF assms(1,3), unfolded free_run_def]
  show ?thesis
  proof (cases "count = 0 \<or> (\<forall>q. \<not> {q..<q + unat count} \<subseteq> free_set s)")
    case True
    with spec have "address = 0 \<and> s' = s" by blast
    then show ?thesis unfolding if_P [OF True] using spec by blast
  next
    case False
    with spec obtain q where q: "unat address = q * 4096" "{q..<q + unat count} \<subseteq> free_set s"
        "\<And>q'. {q'..<q' + unat count} \<subseteq> free_set s \<Longrightarrow> q \<le> q'"
        "free_set s' = free_set s - {q..<q + unat count}" by blast
    have "0 < unat count" using False by (simp add: unat_gt_0)
    then have "q \<in> {q..<q + unat count}" by simp
    then have "q \<in> managed_set s" using q(2) free_subset_managed [of s] by blast
    then have "q \<noteq> 0" using assms(2) by metis
    then have "address \<noteq> 0" using q(1) by auto
    moreover have "\<forall>q'<q. \<not> {q'..<q' + unat count} \<subseteq> free_set s" using q(3) leD by blast
    ultimately show ?thesis unfolding if_not_P [OF False] using spec q(1,2,4) by blast
  qed
qed

text \<open>
  Claim C10. Releasing pages is safe. \<^verbatim>\<open>pmm_release_pages\<close> succeeds exactly for a page-aligned,
  non-empty run of managed pages that are all in use, so a double free, a free of reserved
  memory or of memory beyond the map is refused without any effect; when it succeeds just these
  pages become free and the invariant is kept.
\<close>

theorem pmm_release_pages_safe:
  assumes "pmm_inv s" and "pmm_release_pages address count s = (ok, s')"
  defines "pages \<equiv> {unat address div 4096..<unat address div 4096 + unat count}"
  shows "ok = (4096 dvd unat address \<and> count \<noteq> 0 \<and> pages \<subseteq> managed_set s - free_set s) \<and>
    (if ok then pmm_inv s' \<and> managed_set s' = managed_set s \<and> free_set s' = free_set s \<union> pages
     else s' = s)"
proof -
  have ok: "ok = releasable s address count" using assms(2) by (simp add: pmm_release_eq split: if_splits)
  show ?thesis
  proof (cases ok)
    case True
    then show ?thesis
      using pmm_release_spec [OF assms(1), of address count s'] assms(2) ok
      by (simp add: releasable_def pages_def)
  next
    case False
    then have "s' = s" using ok assms(2) by (simp add: pmm_release_eq)
    moreover have "\<not> (4096 dvd unat address \<and> count \<noteq> 0 \<and> pages \<subseteq> managed_set s - free_set s)"
      using False ok unfolding releasable_def pages_def by blast
    ultimately show ?thesis using False by simp
  qed
qed


theorem pmm_alloc_pages_first_fit_witness:
  "\<exists>s s'. pmm_inv s \<and> 0 \<notin> managed_set s \<and> pmm_alloc_pages 2 s = (0x2000, s')
    \<and> managed_set s' = managed_set s"
proof -
  have "fst (pmm_alloc_pages 2 pmm_example) = 0x2000" by code_simp
  then obtain s' where a: "pmm_alloc_pages 2 pmm_example = (0x2000, s')" by (cases "pmm_alloc_pages 2 pmm_example") auto
  from pmm_alloc_pages_first_fit [OF pmm_example_inv a] pmm_example_inv a show ?thesis by blast
qed

theorem pmm_release_pages_safe_witness:
  "\<exists>s s'. pmm_inv s \<and> pmm_release_pages 0x2000 1 s = (False, s') \<and> s' = s"
proof -
  have "\<not> fst (pmm_release_pages 0x2000 1 pmm_example)" by code_simp
  then obtain s' where a: "pmm_release_pages 0x2000 1 pmm_example = (False, s')"
    by (cases "pmm_release_pages 0x2000 1 pmm_example") auto
  from pmm_release_pages_safe [OF pmm_example_inv(1) a] pmm_example_inv a show ?thesis by auto
qed

text \<open>
  Claim C9. Initialisation builds the allocator from the firmware map and keeps the kernel's own
  memory out of it. When the loader sized the page count from the firmware map and one bitmap
  from the page count, as \<^verbatim>\<open>boot.c\<close> does, a successful \<^verbatim>\<open>pmm_init\<close> leaves a valid state whose
  managed pages are all free and are exactly the pages of conventional memory below the page
  count, minus every page touched by low memory, the kernel image, the handoff record, the stack,
  the bitmaps, the memory map, the framebuffer and the ACPI root pointer.
\<close>

theorem pmm_init_managed_pages:
  assumes "bi_pmm_page_count bi = highest_tracked_page preliminary"
    and "bi_pmm_bitmap_bytes bi = bytes_per_bitmap (bi_pmm_page_count bi)"
    and "pmm_init (Some bi) s0 = (True, s)"
  shows "pmm_inv s \<and> managed_set s = conventional_pages bi - reserved_pages bi \<and>
    free_set s = managed_set s \<and> managed_set s \<noteq> {} \<and> {..<256} \<inter> managed_set s = {} \<and> pmm_validate s"
proof -
  have h: "boot_header_ok bi" using assms(3) by (simp add: pmm_init_eq split: if_splits)
  have n: "unat (bi_pmm_page_count bi) < 2 ^ 52"
    unfolding assms(1) by (rule highest_tracked_page_bound)
  note r = pmm_init_holds [OF h n bytes_per_bitmap_covers [OF n, folded assms(2)] assms(3)]
  have "p \<in> reserved_pages bi" if "p < 256" for p
  proof -
    have "p \<in> range_pages \<lparr>range_base = 0, range_size = 0x100000\<rparr>"
      using that by (subst range_pages_iff) (simp_all add: less_eq_div_iff_mult_less_eq)
    then show ?thesis by (simp add: reserved_pages_def reserved_ranges_def)
  qed
  with r show ?thesis by (auto simp: pmm_holds_def pmm_validate_holds)
qed

theorem pmm_init_managed_pages_witness:
  "\<exists>s. pmm_init (Some boot_example) \<lparr>usable_bitmap = [], used_bitmap = [], page_count = 0,
      managed_count = 0, free_count = 0\<rparr> = (True, s) \<and> pmm_inv s \<and> free_set s = managed_set s"
proof -
  let ?z = "\<lparr>usable_bitmap = [], used_bitmap = [], page_count = 0, managed_count = 0, free_count = 0\<rparr>"
  have "fst (pmm_init (Some boot_example) ?z)" by code_simp
  then obtain s where i: "pmm_init (Some boot_example) ?z = (True, s)"
    by (cases "pmm_init (Some boot_example) ?z") auto
  have "bi_pmm_page_count boot_example = highest_tracked_page (bi_memory_map boot_example)"
    "bi_pmm_bitmap_bytes boot_example = bytes_per_bitmap (bi_pmm_page_count boot_example)"
    by code_simp+
  from pmm_init_managed_pages [OF this i] i show ?thesis by blast
qed

text \<open>
  Claim C27. Allocation and release are inverse. Pages that \<^verbatim>\<open>pmm_alloc_pages\<close> handed out can be
  released with the same address and count, which restores the free set and the counters; a
  second release of the same pages is then refused and has no effect.
\<close>

theorem pmm_alloc_release_roundtrip:
  assumes "pmm_inv s" and "0 \<notin> managed_set s" and "pmm_alloc_pages count s = (address, s1)"
    and "address \<noteq> 0"
  shows "\<exists>s2. pmm_release_pages address count s1 = (True, s2) \<and> free_set s2 = free_set s \<and>
    managed_set s2 = managed_set s \<and> free_count s2 = free_count s \<and>
    pmm_release_pages address count s2 = (False, s2)"
proof -
  obtain q where q: "unat address = q * 4096" "count \<noteq> 0" "{q..<q + unat count} \<subseteq> free_set s"
      "free_set s1 = free_set s - {q..<q + unat count}"
    and s1: "pmm_inv s1" "managed_set s1 = managed_set s"
    using pmm_alloc_spec [OF assms(1,3)] assms(4) by (auto simp: free_run_def)
  have d: "unat address div 4096 = q" "4096 dvd unat address" using q(1) by simp_all
  have rel: "releasable s1 address count"
    using q free_subset_managed [of s] s1 by (auto simp: releasable_def d)
  obtain s2 where r: "pmm_release_pages address count s1 = (True, s2)"
    using rel by (simp add: pmm_release_eq)
  note sp = pmm_release_spec [OF s1(1) rel r, unfolded d]
  have fs: "free_set s2 = free_set s" using sp q(3,4) by auto
  have "q \<in> {q..<q + unat count}" using q(2) by (simp add: unat_gt_0)
  then have "q \<in> free_set s2" using fs q(3) by blast
  then have "\<not> releasable s2 address count"
    using \<open>q \<in> {q..<q + unat count}\<close> unfolding releasable_def d by blast
  then have "pmm_release_pages address count s2 = (False, s2)" by (simp add: pmm_release_eq)
  moreover have "free_count s2 = free_count s"
    using sp assms(1) fs by (simp add: pmm_inv_def word_unat_eq_iff)
  ultimately show ?thesis using r fs sp s1(2) by blast
qed

theorem pmm_alloc_release_roundtrip_witness:
  "\<exists>s address s1 s2. pmm_alloc_pages 2 s = (address, s1) \<and> address \<noteq> 0 \<and>
     pmm_release_pages address 2 s1 = (True, s2) \<and> free_set s2 = free_set s"
proof -
  have "fst (pmm_alloc_pages 2 pmm_example) = 0x2000" by code_simp
  then obtain s1 where a: "pmm_alloc_pages 2 pmm_example = (0x2000, s1)" by (cases "pmm_alloc_pages 2 pmm_example") auto
  have "(0x2000 :: u64) \<noteq> 0" by simp
  from pmm_alloc_release_roundtrip [OF pmm_example_inv a this] a this show ?thesis by blast
qed

end
