(* ===== verification/Memory.thy ===== *)
theory Memory
  imports Argus_Prelude
begin

text \<open>
  Physical memory: a byte for every 64-bit address, with the little-endian loads and stores of
  one, four and eight bytes that the compiler emits for struct fields and table entries, and the
  byte loops of \<^verbatim>\<open>src/memory.c\<close>. The kernel runs identity-mapped, so a pointer is its address.
  The facts that matter to the clients are the two of any store: a load of the bytes just stored
  returns them, and a load of other bytes is not affected.
\<close>

type_synonym mem = "u64 \<Rightarrow> u8"

fun load :: "nat \<Rightarrow> mem \<Rightarrow> u64 \<Rightarrow> u64" where
  "load 0 m a = 0"
| "load (Suc k) m a = ucast (m a) OR push_bit 8 (load k m (a + 1))"

fun store :: "nat \<Rightarrow> mem \<Rightarrow> u64 \<Rightarrow> u64 \<Rightarrow> mem" where
  "store 0 m a v = m"
| "store (Suc k) m a v = store k (m(a := ucast v)) (a + 1) (drop_bit 8 v)"

definition load64 :: "mem \<Rightarrow> u64 \<Rightarrow> u64" where "load64 m a = load 8 m a"
definition store64 :: "mem \<Rightarrow> u64 \<Rightarrow> u64 \<Rightarrow> mem" where "store64 m a v = store 8 m a v"
definition load16 :: "mem \<Rightarrow> u64 \<Rightarrow> u16" where "load16 m a = ucast (load 2 m a)"
definition load32 :: "mem \<Rightarrow> u64 \<Rightarrow> u32" where "load32 m a = ucast (load 4 m a)"
definition store32 :: "mem \<Rightarrow> u64 \<Rightarrow> u32 \<Rightarrow> mem" where "store32 m a v = store 4 m a (ucast v)"

section \<open>Loads and stores\<close>

lemma bit_load:
  "bit (load k m a) n \<longleftrightarrow> n < 64 \<and> n < 8 * k \<and> bit (m (a + of_nat (n div 8))) (n mod 8)"
proof (induction k arbitrary: a n)
  case (Suc k)
  show ?case
  proof (cases "n < 8")
    case True
    then show ?thesis by (auto simp: bit_simps)
  next
    case False
    then have d: "n div 8 = Suc ((n - 8) div 8)" "n mod 8 = (n - 8) mod 8"
      by (simp_all add: le_div_geq le_mod_geq)
    have "\<not> bit (m a) n" using False bit_imp_le_length [of "m a" n] by auto
    then show ?thesis using False Suc.IH [of "a + 1" "n - 8"]
      by (auto simp: bit_simps d add.assoc add.commute add.left_commute)
  qed
qed simp

lemma store_apply:
  "k \<le> 8 \<Longrightarrow> store k m a v x =
    (if unat (x - a) < k then ucast (drop_bit (8 * unat (x - a)) v) else m x)"
proof (induction k arbitrary: m a v)
  case (Suc k)
  show ?case
  proof (cases "x = a")
    case True
    have "unat (x - (a + 1)) = 2 ^ 64 - 1"
      using True by (simp add: unsigned_minus_1_eq_mask mask_eq_exp_minus_1)
    then show ?thesis using Suc True by simp
  next
    case False
    then have "x - a \<noteq> 0" by simp
    then have u: "unat (x - (a + 1)) = unat (x - a) - 1" "0 < unat (x - a)"
      by (simp_all add: diff_diff_eq [symmetric] unat_minus_one unat_gt_0)
    then have "8 + 8 * (unat (x - a) - 1) = 8 * unat (x - a)" by simp
    moreover have "drop_bit (8 * (unat (x - a) - 1)) (drop_bit 8 v) =
        drop_bit (8 + 8 * (unat (x - a) - 1)) v" by (simp add: add.commute)
    ultimately show ?thesis using Suc u False by auto
  qed
qed simp

lemma load_store_same:
  assumes "k \<le> 8"
  shows "load k (store k m a v) a = take_bit (8 * k) v"
proof (rule bit_word_eqI)
  fix n assume n: "n < LENGTH(64)"
  have u: "unat (of_nat (n div 8) :: u64) = n div 8" using n by (simp add: unat_of_nat)
  have "n div 8 < k \<longleftrightarrow> n < 8 * k" by (simp add: div_less_iff_less_mult mult.commute)
  moreover have "8 * (n div 8) + n mod 8 = n" by simp
  ultimately show "bit (load k (store k m a v) a) n = bit (take_bit (8 * k) v) n"
    using n by (auto simp: bit_load store_apply [OF assms] u bit_simps)
qed

text \<open>Two byte ranges that share no address.\<close>

definition apart :: "u64 \<Rightarrow> nat \<Rightarrow> u64 \<Rightarrow> nat \<Rightarrow> bool" where
  "apart a j b k \<longleftrightarrow> (\<forall>i<k. j \<le> unat (b + of_nat i - a))"

lemma load_store_other:
  assumes "j \<le> 8" and "k \<le> 8" and "apart a j b k"
  shows "load k (store j m a v) b = load k m b"
proof (rule bit_word_eqI)
  fix n assume n: "n < LENGTH(64)"
  show "bit (load k (store j m a v) b) n = bit (load k m b) n"
  proof (cases "n < 8 * k")
    case True
    then have "n div 8 < k" by (simp add: div_less_iff_less_mult mult.commute)
    then have "j \<le> unat (b + of_nat (n div 8) - a)" using assms(3) by (simp add: apart_def)
    then show ?thesis by (simp add: bit_load store_apply [OF assms(1)])
  qed (simp add: bit_load)
qed

lemma load_cong:
  assumes "\<And>i. i < k \<Longrightarrow> m (a + of_nat i) = m' (a + of_nat i)"
  shows "load k m a = load k m' a"
proof (rule bit_word_eqI)
  fix n assume "n < LENGTH(64)"
  show "bit (load k m a) n = bit (load k m' a) n"
  proof (cases "n < 8 * k")
    case True
    then have "n div 8 < k" by (simp add: div_less_iff_less_mult mult.commute)
    then show ?thesis using assms by (simp add: bit_load)
  qed (simp add: bit_load)
qed

text \<open>Ranges of a memory that does not wrap around, by their natural addresses.\<close>

lemma apartI:
  assumes "x + j \<le> 2 ^ 64" and "y + k \<le> 2 ^ 64" and "x + j \<le> y \<or> y + k \<le> x"
    and "0 < j"
  shows "apart (of_nat x) j (of_nat y) k"
  unfolding apart_def
proof (intro allI impI)
  fix i assume i: "i < k"
  have eq: "(of_nat y + of_nat i - of_nat x :: u64) = of_nat (y + i) - of_nat x" by simp
  show "j \<le> unat (of_nat y + of_nat i - of_nat x :: u64)"
  proof (cases "x + j \<le> y")
    case True
    then have e: "(of_nat (y + i) - of_nat x :: u64) = of_nat (y + i - x)" by (simp add: of_nat_diff)
    have "unat (of_nat (y + i - x) :: u64) = y + i - x" using i assms(2) by (simp add: unat_of_nat)
    then show ?thesis unfolding eq e using True by simp
  next
    case False
    then have "y + i < x" using assms(3) i by simp
    then have "unat (of_nat x :: u64) = x" "unat (of_nat (y + i) :: u64) = y + i"
      using assms(1,4) by (simp_all add: unat_of_nat del: of_nat_add)
    then have "unat (of_nat (y + i) - of_nat x :: u64) = y + i + 2 ^ 64 - x"
      using \<open>y + i < x\<close> by (simp only: unat_sub_if_size) (simp add: word_size)
    then show ?thesis unfolding eq using assms(1) by simp
  qed
qed

lemma load_numeral: "load (numeral k) m a = ucast (m a) OR push_bit 8 (load (pred_numeral k) m (a + 1))"
  by (simp add: numeral_eq_Suc)

text \<open>A block of known bytes, for concrete memories.\<close>

definition bytes_at :: "u64 \<Rightarrow> u8 list \<Rightarrow> mem \<Rightarrow> mem" where
  "bytes_at base bytes m = (\<lambda>a. if a - base < of_nat (length bytes) then bytes ! unat (a - base) else m a)"

section \<open>The byte loops of \<^verbatim>\<open>memory.c\<close>\<close>

definition memset :: "mem \<Rightarrow> u64 \<Rightarrow> u32 \<Rightarrow> nat \<Rightarrow> mem" where
  "memset m destination v count =
    fold (\<lambda>i m. m(destination + of_nat i := ucast v)) [0..<count] m"

definition memcpy :: "mem \<Rightarrow> u64 \<Rightarrow> u64 \<Rightarrow> nat \<Rightarrow> mem" where
  "memcpy m destination source count =
    fold (\<lambda>i m. m(destination + of_nat i := m (source + of_nat i))) [0..<count] m"

definition memmove :: "mem \<Rightarrow> u64 \<Rightarrow> u64 \<Rightarrow> nat \<Rightarrow> mem" where
  "memmove m destination source count =
    (if destination < source then
       fold (\<lambda>i m. m(destination + of_nat i := m (source + of_nat i))) [0..<count] m
     else if source < destination then
       fold (\<lambda>i m. m(destination + of_nat i := m (source + of_nat i))) (rev [0..<count]) m
     else m)"

definition memcmp :: "mem \<Rightarrow> u64 \<Rightarrow> u64 \<Rightarrow> nat \<Rightarrow> int" where
  "memcmp m left right count =
    (case find (\<lambda>i. m (left + of_nat i) \<noteq> m (right + of_nat i)) [0..<count] of
       None \<Rightarrow> 0
     | Some i \<Rightarrow> if m (left + of_nat i) < m (right + of_nat i) then -1 else 1)"

text \<open>The bytes at \<open>d + i\<close> for \<open>i < n\<close> come from \<open>s + i\<close>, all others are as before.\<close>

definition moved :: "mem \<Rightarrow> u64 \<Rightarrow> u64 \<Rightarrow> nat \<Rightarrow> mem \<Rightarrow> bool" where
  "moved m d s n m' \<longleftrightarrow> (\<forall>x. m' x = (if unat (x - d) < n then m (s + (x - d)) else m x))"

lemma copy_forward:
  assumes "n \<le> 2 ^ 64" and "\<And>i j. i < j \<Longrightarrow> j < n \<Longrightarrow> s + of_nat j \<noteq> d + of_nat i"
  shows "moved m d s n (fold (\<lambda>i m. m(d + of_nat i := m (s + of_nat i))) [0..<n] m)"
  using assms
proof (induction n)
  case (Suc n)
  define g where "g = fold (\<lambda>i m. m(d + of_nat i := m (s + of_nat i))) [0..<n] m"
  have IH: "moved m d s n g" unfolding g_def by (rule Suc.IH) (use Suc.prems in simp_all)
  have eq: "fold (\<lambda>i m. m(d + of_nat i := m (s + of_nat i))) [0..<Suc n] m =
      g(d + of_nat n := g (s + of_nat n))" by (simp add: g_def del: fun_upd_apply)
  have un: "unat (of_nat n :: u64) = n" using Suc.prems(1) by (simp add: unat_of_nat)
  have src: "g (s + of_nat n) = m (s + of_nat n)"
  proof (cases "unat (s + of_nat n - d) < n")
    case True
    have "d + of_nat (unat (s + of_nat n - d)) = s + of_nat n" by (simp add: of_nat_unat_id)
    with Suc.prems(2) [OF True] show ?thesis by simp
  next
    case False
    then show ?thesis using IH by (simp add: moved_def)
  qed
  have "x = d + of_nat n \<longleftrightarrow> unat (x - d) = n" for x
    by (metis add_diff_cancel_left' diff_add_cancel add.commute un of_nat_unat_id)
  moreover have "s + (x - d) = s + of_nat n" if "unat (x - d) = n" for x
    using that of_nat_unat_id [of "x - d"] by simp
  ultimately show ?case using IH src unfolding eq moved_def by (auto simp: less_Suc_eq)
qed (simp add: moved_def)

lemma copy_backward:
  assumes "n \<le> 2 ^ 64" and "\<And>i j. i < j \<Longrightarrow> j < n \<Longrightarrow> s + of_nat i \<noteq> d + of_nat j"
  shows "moved m d s n (fold (\<lambda>i m. m(d + of_nat i := m (s + of_nat i))) (rev [0..<n]) m)"
  using assms
proof (induction n arbitrary: m)
  case (Suc n)
  define h where "h = m(d + of_nat n := m (s + of_nat n))"
  define g where "g = fold (\<lambda>i m. m(d + of_nat i := m (s + of_nat i))) (rev [0..<n]) h"
  have IH: "moved h d s n g" unfolding g_def by (rule Suc.IH) (use Suc.prems in simp_all)
  have eq: "fold (\<lambda>i m. m(d + of_nat i := m (s + of_nat i))) (rev [0..<Suc n]) m = g"
    by (simp add: g_def h_def del: fun_upd_apply)
  have un: "unat (of_nat n :: u64) = n" using Suc.prems(1) by (simp add: unat_of_nat)
  have src: "h (s + (x - d)) = m (s + (x - d))" if "unat (x - d) < n" for x
    using Suc.prems(2) [OF that] by (simp add: h_def of_nat_unat_id)
  have "x = d + of_nat n \<longleftrightarrow> unat (x - d) = n" for x
    by (metis add_diff_cancel_left' diff_add_cancel add.commute un of_nat_unat_id)
  then have "h x = (if unat (x - d) = n then m (s + of_nat n) else m x)" for x by (simp add: h_def)
  moreover have "s + (x - d) = s + of_nat n" if "unat (x - d) = n" for x
    using that of_nat_unat_id [of "x - d"] by simp
  ultimately show ?case using IH src unfolding eq moved_def by (auto simp: less_Suc_eq)
qed (simp add: moved_def)

lemma ahead_neq:
  fixes s d :: u64
  assumes "d < s" and "i < j" and "j < n" and "unat s + n \<le> 2 ^ 64"
  shows "s + of_nat j \<noteq> d + of_nat i"
proof
  assume eq: "s + of_nat j = d + of_nat i"
  have "unat (s + of_nat j) = unat s + j" using assms by (simp add: unat_word_ariths unat_of_nat)
  moreover have "unat (d + of_nat i) = unat d + i"
    using assms by (simp add: unat_word_ariths unat_of_nat word_less_nat_alt)
  ultimately show False using eq assms(1,2) by (simp add: word_less_nat_alt)
qed

text \<open>
  Claim C28. \<^verbatim>\<open>memmove\<close> moves overlapping buffers correctly: for any two buffers of the given
  length that lie inside the address space, however they overlap, every byte of the destination
  afterwards is the byte the source held before the call, and no other byte changes.
\<close>

theorem memmove_correct:
  assumes "unat d + n \<le> 2 ^ 64" and "unat s + n \<le> 2 ^ 64"
  shows "memmove m d s n x = (if unat (x - d) < n then m (s + (x - d)) else m x)"
proof -
  have n: "n \<le> 2 ^ 64" using assms(1) by simp
  consider "d < s" | "s < d" | "s = d" by fastforce
  then have "moved m d s n (memmove m d s n)"
  proof cases
    case 1
    then show ?thesis
      using copy_forward [OF n ahead_neq [OF 1 _ _ assms(2)]] by (simp add: memmove_def)
  next
    case 2
    have "s + of_nat i \<noteq> d + of_nat j" if "i < j" "j < n" for i j
      using ahead_neq [OF 2 that assms(1)] by simp
    from copy_backward [OF n this] show ?thesis
      using 2 less_not_sym [OF 2] by (simp add: memmove_def)
  qed (simp add: moved_def memmove_def)
  then show ?thesis by (simp add: moved_def)
qed

theorem memmove_correct_witness:
  "memmove (\<lambda>x. ucast x) 11 10 3 13 = 12 \<and> memmove (\<lambda>x. ucast x) 11 10 3 14 = 14"
  using memmove_correct [of 11 3 10 "\<lambda>x. ucast x" 13] memmove_correct [of 11 3 10 "\<lambda>x. ucast x" 14]
  by simp

end
