(* ===== verification/Heap.thy ===== *)
theory Heap
  imports Pmm Memory
begin

text \<open>
  The kernel heap of \<^verbatim>\<open>src/heap.c\<close>: block headers of 32 bytes in memory, chained in both
  directions, a first-fit allocator that splits and a release that merges. The three static
  variables are the record \<open>heap\<close>; the headers live in the byte memory of \<^verbatim>\<open>Memory\<close>, at the
  offsets of the C struct. The walk along the chain has no bound in the source, so it is a partial
  function: \<open>None\<close> is a walk that never ends. The allocator refines a list of (size, free) pairs.
\<close>

section \<open>Data\<close>

abbreviation (input) HEAP_BLOCK_MAGIC :: u32 where "HEAP_BLOCK_MAGIC \<equiv> 0xA86B10C5"
abbreviation (input) HEAP_ALIGNMENT :: u64 where "HEAP_ALIGNMENT \<equiv> 16"
abbreviation (input) HEADER_SIZE :: u64 where "HEADER_SIZE \<equiv> 32"

record heap =
  heap_base :: u64
  heap_size :: u64
  first_block :: u64

definition block_size :: "mem \<Rightarrow> u64 \<Rightarrow> u64" where "block_size m b = load64 m b"
definition block_previous :: "mem \<Rightarrow> u64 \<Rightarrow> u64" where "block_previous m b = load64 m (b + 8)"
definition block_next :: "mem \<Rightarrow> u64 \<Rightarrow> u64" where "block_next m b = load64 m (b + 16)"
definition block_magic :: "mem \<Rightarrow> u64 \<Rightarrow> u32" where "block_magic m b = load32 m (b + 24)"
definition block_free :: "mem \<Rightarrow> u64 \<Rightarrow> u32" where "block_free m b = load32 m (b + 28)"

definition set_size :: "u64 \<Rightarrow> u64 \<Rightarrow> mem \<Rightarrow> mem" where "set_size b v m = store64 m b v"
definition set_previous :: "u64 \<Rightarrow> u64 \<Rightarrow> mem \<Rightarrow> mem" where
  "set_previous b v m = store64 m (b + 8) v"
definition set_next :: "u64 \<Rightarrow> u64 \<Rightarrow> mem \<Rightarrow> mem" where "set_next b v m = store64 m (b + 16) v"
definition set_magic :: "u64 \<Rightarrow> u32 \<Rightarrow> mem \<Rightarrow> mem" where "set_magic b v m = store32 m (b + 24) v"
definition set_free :: "u64 \<Rightarrow> u32 \<Rightarrow> mem \<Rightarrow> mem" where "set_free b v m = store32 m (b + 28) v"

section \<open>Operations\<close>

definition align_size :: "u64 \<Rightarrow> u64" where
  "align_size sz =
    (if UINT64_MAX - (HEAP_ALIGNMENT - 1) < sz then 0
     else (sz + HEAP_ALIGNMENT - 1) AND NOT (HEAP_ALIGNMENT - 1))"

definition block_in_heap :: "heap \<Rightarrow> u64 \<Rightarrow> bool" where
  "block_in_heap h address \<longleftrightarrow>
    heap_base h \<noteq> 0 \<and> heap_base h \<le> address \<and> address \<le> heap_base h + heap_size h - HEADER_SIZE"

definition merge_with_next :: "u64 \<Rightarrow> mem \<Rightarrow> mem" where
  "merge_with_next block m =
    (let nxt = block_next m block in
     if nxt = 0 \<or> block_free m nxt = 0 \<or> block_magic m nxt \<noteq> HEAP_BLOCK_MAGIC then m
     else
       let m = set_size block (block_size m block + (HEADER_SIZE + block_size m nxt)) m;
           m = set_next block (block_next m nxt) m;
           m = (if block_next m block \<noteq> 0 then set_previous (block_next m block) block m else m)
       in set_magic nxt 0 m)"

definition heap_init :: "u64 \<Rightarrow> heap \<Rightarrow> pmm \<Rightarrow> mem \<Rightarrow> bool \<times> heap \<times> pmm \<times> mem" where
  "heap_init pages h p m =
    (if pages = 0 \<or> UINT64_MAX div ARGUS_PAGE_SIZE < pages then (False, h, p, m)
     else
       let (address, p) = pmm_alloc_pages pages p in
       if address = 0 then (False, h, p, m)
       else
         let h = \<lparr>heap_base = address, heap_size = pages * ARGUS_PAGE_SIZE, first_block = address\<rparr>;
             m = set_size address (heap_size h - HEADER_SIZE) m;
             m = set_previous address 0 m;
             m = set_next address 0 m;
             m = set_magic address HEAP_BLOCK_MAGIC m;
             m = set_free address 1 m
         in (True, h, p, m))"

text \<open>The walk of \<^verbatim>\<open>kmalloc\<close> to the first block that fits, or to the end of the chain.\<close>

partial_function (option) kmalloc_find :: "mem \<Rightarrow> u64 \<Rightarrow> u64 \<Rightarrow> u64 option" where
  "kmalloc_find m sz block =
    (if block = 0 then Some 0
     else if block_free m block = 0 \<or> block_magic m block \<noteq> HEAP_BLOCK_MAGIC \<or> block_size m block < sz
     then kmalloc_find m sz (block_next m block)
     else Some block)"

definition kmalloc_take :: "u64 \<Rightarrow> u64 \<Rightarrow> mem \<Rightarrow> mem" where
  "kmalloc_take block sz m =
    (let m =
       (if sz + HEADER_SIZE + HEAP_ALIGNMENT \<le> block_size m block then
          let split = block + HEADER_SIZE + sz;
              m = set_size split (block_size m block - sz - HEADER_SIZE) m;
              m = set_previous split block m;
              m = set_next split (block_next m block) m;
              m = set_magic split HEAP_BLOCK_MAGIC m;
              m = set_free split 1 m;
              m = (if block_next m split \<noteq> 0 then set_previous (block_next m split) split m else m);
              m = set_next block split m
          in set_size block sz m
        else m)
     in set_free block 0 m)"

definition kmalloc :: "heap \<Rightarrow> u64 \<Rightarrow> mem \<Rightarrow> (u64 \<times> mem) option" where
  "kmalloc h requested_size m =
    (let sz = align_size requested_size in
     if sz = 0 \<or> first_block h = 0 then Some (0, m)
     else
       (case kmalloc_find m sz (first_block h) of
          None \<Rightarrow> None
        | Some block \<Rightarrow>
            if block = 0 then Some (0, m)
            else Some (block + HEADER_SIZE, kmalloc_take block sz m)))"

definition kfree :: "heap \<Rightarrow> u64 \<Rightarrow> mem \<Rightarrow> bool \<times> mem" where
  "kfree h address m =
    (if address = 0 then (False, m)
     else if first_block h = 0 \<or> address < heap_base h + HEADER_SIZE \<or>
       heap_base h + heap_size h \<le> address \<or> address AND (HEAP_ALIGNMENT - 1) \<noteq> 0
     then (False, m)
     else
       let block = address - HEADER_SIZE in
       if \<not> block_in_heap h block \<or> block_magic m block \<noteq> HEAP_BLOCK_MAGIC \<or> block_free m block \<noteq> 0
       then (False, m)
       else
         let m = set_free block 1 m;
             m = merge_with_next block m;
             m = (if block_previous m block \<noteq> 0 \<and> block_free m (block_previous m block) \<noteq> 0
                  then merge_with_next (block_previous m block) m else m)
         in (True, m))"

definition heap_total_bytes :: "heap \<Rightarrow> u64" where
  "heap_total_bytes h = (if HEADER_SIZE < heap_size h then heap_size h - HEADER_SIZE else 0)"

partial_function (option) heap_sum :: "mem \<Rightarrow> bool \<Rightarrow> u64 \<Rightarrow> u64 \<Rightarrow> u64 option" where
  "heap_sum m want_free block acc =
    (if block = 0 then Some acc
     else heap_sum m want_free (block_next m block)
       (if block_magic m block = HEAP_BLOCK_MAGIC \<and> (block_free m block \<noteq> 0) = want_free
        then acc + block_size m block else acc))"

definition heap_free_bytes :: "heap \<Rightarrow> mem \<Rightarrow> u64 option" where
  "heap_free_bytes h m = heap_sum m True (first_block h) 0"

definition heap_used_bytes :: "heap \<Rightarrow> mem \<Rightarrow> u64 option" where
  "heap_used_bytes h m = heap_sum m False (first_block h) 0"

text \<open>
  The loop of \<^verbatim>\<open>heap_validate\<close>; its first argument counts the iterations that the block limit
  still allows, so the loop is total.
\<close>

fun heap_validate_loop :: "nat \<Rightarrow> heap \<Rightarrow> mem \<Rightarrow> u64 \<Rightarrow> u64 \<Rightarrow> u64 \<Rightarrow> bool" where
  "heap_validate_loop left h m block previous cursor =
    (if block = 0 then cursor = heap_base h + heap_size h
     else
       (case left of
          0 \<Rightarrow> False
        | Suc left' \<Rightarrow>
            if \<not> block_in_heap h block \<or> block \<noteq> cursor \<or> block_magic m block \<noteq> HEAP_BLOCK_MAGIC \<or>
               block_previous m block \<noteq> previous \<or> block_size m block = 0 \<or>
               block_size m block AND (HEAP_ALIGNMENT - 1) \<noteq> 0 \<or>
               heap_base h + heap_size h - block - HEADER_SIZE < block_size m block \<or>
               (previous \<noteq> 0 \<and> block_free m previous \<noteq> 0 \<and> block_free m block \<noteq> 0)
            then False
            else
              let cursor = block + HEADER_SIZE + block_size m block in
              if block_next m block \<noteq> 0 \<and> block_next m block \<noteq> cursor then False
              else heap_validate_loop left' h m (block_next m block) block cursor))"

definition heap_validate :: "heap \<Rightarrow> mem \<Rightarrow> bool" where
  "heap_validate h m \<longleftrightarrow>
    \<not> (first_block h = 0 \<or> first_block h \<noteq> heap_base h) \<and>
    heap_validate_loop (unat (heap_size h div HEADER_SIZE)) h m (first_block h) 0 (heap_base h)"

section \<open>Headers\<close>

record header =
  h_size :: u64
  h_previous :: u64
  h_next :: u64
  h_magic :: u32
  h_free :: u32

definition header_at :: "mem \<Rightarrow> nat \<Rightarrow> header" where
  "header_at m a = \<lparr>h_size = block_size m (of_nat a), h_previous = block_previous m (of_nat a),
     h_next = block_next m (of_nat a), h_magic = block_magic m (of_nat a),
     h_free = block_free m (of_nat a)\<rparr>"

text \<open>Two header positions that are the same or do not overlap, inside the address space.\<close>

definition header_pair :: "nat \<Rightarrow> nat \<Rightarrow> bool" where
  "header_pair x y \<longleftrightarrow> x + 32 \<le> 2 ^ 64 \<and> y + 32 \<le> 2 ^ 64 \<and> (x = y \<or> x + 32 \<le> y \<or> y + 32 \<le> x)"

lemma field_load_store:
  assumes "header_pair x y" and "i + j \<le> 32" and "p + k \<le> 32" and "j \<le> 8" and "k \<le> 8" and "0 < j"
    and "(i = p \<and> j = k) \<or> i + j \<le> p \<or> p + k \<le> i"
  shows "load k (store j m (of_nat y + of_nat i) v) (of_nat x + of_nat p) =
    (if x = y \<and> i = p then take_bit (8 * k) v else load k m (of_nat x + of_nat p))"
proof (cases "x = y \<and> i = p")
  case True
  then show ?thesis
    using assms(5-7) load_store_same [OF assms(5)] by (cases "k = 0") auto
next
  case False
  have "apart (of_nat (y + i)) j (of_nat (x + p)) k"
    by (rule apartI) (use assms False in \<open>auto simp: header_pair_def\<close>)
  then have "load k (store j m (of_nat (y + i)) v) (of_nat (x + p)) = load k m (of_nat (x + p))"
    using assms(4,5) by (intro load_store_other)
  then show ?thesis unfolding if_not_P [OF False] by simp
qed

lemma header_set:
  assumes "header_pair x y"
  shows "header_at (set_size (of_nat y) v m) x =
      (if x = y then (header_at m x)\<lparr>h_size := v\<rparr> else header_at m x)"
    and "header_at (set_previous (of_nat y) v m) x =
      (if x = y then (header_at m x)\<lparr>h_previous := v\<rparr> else header_at m x)"
    and "header_at (set_next (of_nat y) v m) x =
      (if x = y then (header_at m x)\<lparr>h_next := v\<rparr> else header_at m x)"
    and "header_at (set_magic (of_nat y) w m) x =
      (if x = y then (header_at m x)\<lparr>h_magic := w\<rparr> else header_at m x)"
    and "header_at (set_free (of_nat y) w m) x =
      (if x = y then (header_at m x)\<lparr>h_free := w\<rparr> else header_at m x)"
proof -
  have w: "take_bit 32 (ucast w :: u64) = ucast w" for w :: u32
    by (rule bit_word_eqI) (auto simp: bit_simps dest: bit_imp_le_length)
  have v: "take_bit 64 v = v" for v :: u64 by (rule bit_word_eqI) (simp add: bit_simps)
  note defs = header_at_def block_size_def block_previous_def block_next_def block_magic_def
    block_free_def load64_def load32_def store64_def store32_def
  note f = field_load_store [OF assms]
  show "header_at (set_size (of_nat y) v m) x =
      (if x = y then (header_at m x)\<lparr>h_size := v\<rparr> else header_at m x)"
    using f [of 0 8 0 8] f [of 0 8 8 8] f [of 0 8 16 8] f [of 0 8 24 4] f [of 0 8 28 4]
    by (simp add: defs set_size_def v)
  show "header_at (set_previous (of_nat y) v m) x =
      (if x = y then (header_at m x)\<lparr>h_previous := v\<rparr> else header_at m x)"
    using f [of 8 8 0 8] f [of 8 8 8 8] f [of 8 8 16 8] f [of 8 8 24 4] f [of 8 8 28 4]
    by (simp add: defs set_previous_def v)
  show "header_at (set_next (of_nat y) v m) x =
      (if x = y then (header_at m x)\<lparr>h_next := v\<rparr> else header_at m x)"
    using f [of 16 8 0 8] f [of 16 8 8 8] f [of 16 8 16 8] f [of 16 8 24 4] f [of 16 8 28 4]
    by (simp add: defs set_next_def v)
  show "header_at (set_magic (of_nat y) w m) x =
      (if x = y then (header_at m x)\<lparr>h_magic := w\<rparr> else header_at m x)"
    using f [of 24 4 0 8] f [of 24 4 8 8] f [of 24 4 16 8] f [of 24 4 24 4] f [of 24 4 28 4]
    by (simp add: defs set_magic_def w ucast_u32_u64)
  show "header_at (set_free (of_nat y) w m) x =
      (if x = y then (header_at m x)\<lparr>h_free := w\<rparr> else header_at m x)"
    using f [of 28 4 0 8] f [of 28 4 8 8] f [of 28 4 16 8] f [of 28 4 24 4] f [of 28 4 28 4]
    by (simp add: defs set_free_def w ucast_u32_u64)
qed

text \<open>Writing a header changes no byte outside its 32 bytes.\<close>

lemma set_frame:
  assumes "\<not> unat (z - b) < 32"
  shows "set_size b v m z = m z" "set_previous b v m z = m z" "set_next b v m z = m z"
    "set_magic b w m z = m z" "set_free b w m z = m z"
proof -
  have "\<not> unat (z - (b + of_nat i)) < j" if "i + j \<le> 32" "0 < j" for i j
  proof
    assume lt: "unat (z - (b + of_nat i)) < j"
    define w where "w = z - (b + of_nat i)"
    have "unat (w + of_nat i) \<le> unat w + unat (of_nat i :: u64)"
      unfolding unat_word_ariths(1) by (rule mod_less_eq_dividend)
    moreover have "w + of_nat i = z - b" by (simp add: w_def)
    ultimately have "unat (z - b) \<le> unat (z - (b + of_nat i)) + i"
      using that by (simp add: w_def unat_of_nat)
    with lt that assms show False by simp
  qed
  from this [of 0 8] this [of 8 8] this [of 16 8] this [of 24 4] this [of 28 4]
  show "set_size b v m z = m z" "set_previous b v m z = m z" "set_next b v m z = m z"
    "set_magic b w m z = m z" "set_free b w m z = m z"
    by (simp_all add: set_size_def set_previous_def set_next_def set_magic_def set_free_def
        store64_def store32_def store_apply)
qed

section \<open>The chain of blocks\<close>

lemma header_fields:
  "block_size m (of_nat a) = h_size (header_at m a)"
  "block_previous m (of_nat a) = h_previous (header_at m a)"
  "block_next m (of_nat a) = h_next (header_at m a)"
  "block_magic m (of_nat a) = h_magic (header_at m a)"
  "block_free m (of_nat a) = h_free (header_at m a)"
  by (simp_all add: header_at_def)

definition block_header :: "nat \<Rightarrow> nat \<Rightarrow> nat \<Rightarrow> bool \<Rightarrow> header" where
  "block_header sz prev nxt fr = \<lparr>h_size = of_nat sz, h_previous = of_nat prev, h_next = of_nat nxt,
     h_magic = HEAP_BLOCK_MAGIC, h_free = (if fr then 1 else 0)\<rparr>"

text \<open>
  A run of contiguous blocks, given by their sizes and states: \<open>prev\<close> is the block before the
  run (0 for none), \<open>a\<close> its first address and \<open>nxt\<close> the link of its last header.
\<close>

fun seg :: "(nat \<Rightarrow> header) \<Rightarrow> nat \<Rightarrow> nat \<Rightarrow> (nat \<times> bool) list \<Rightarrow> nat \<Rightarrow> bool" where
  "seg H prev a [] nxt \<longleftrightarrow> True"
| "seg H prev a ((sz, fr) # bs) nxt \<longleftrightarrow>
    H a = block_header sz prev (if bs = [] then nxt else a + 32 + sz) fr \<and>
    0 < sz \<and> 16 dvd sz \<and> seg H a (a + 32 + sz) bs nxt"

fun extent :: "(nat \<times> bool) list \<Rightarrow> nat" where
  "extent [] = 0"
| "extent ((sz, fr) # bs) = 32 + sz + extent bs"

fun last_address :: "nat \<Rightarrow> nat \<Rightarrow> (nat \<times> bool) list \<Rightarrow> nat" where
  "last_address prev a [] = prev"
| "last_address prev a ((sz, fr) # bs) = last_address a (a + 32 + sz) bs"

fun addresses :: "nat \<Rightarrow> (nat \<times> bool) list \<Rightarrow> nat list" where
  "addresses a [] = []"
| "addresses a ((sz, fr) # bs) = a # addresses (a + 32 + sz) bs"

fun no_adjacent_free :: "(nat \<times> bool) list \<Rightarrow> bool" where
  "no_adjacent_free [] \<longleftrightarrow> True"
| "no_adjacent_free (b # bs) \<longleftrightarrow> (bs = [] \<or> \<not> (snd b \<and> snd (hd bs))) \<and> no_adjacent_free bs"

definition heap_inv :: "heap \<Rightarrow> mem \<Rightarrow> (nat \<times> bool) list \<Rightarrow> bool" where
  "heap_inv h m bs \<longleftrightarrow> heap_base h \<noteq> 0 \<and> first_block h = heap_base h \<and> 16 dvd unat (heap_base h) \<and>
     unat (heap_base h) + unat (heap_size h) < 2 ^ 64 \<and> bs \<noteq> [] \<and>
     extent bs = unat (heap_size h) \<and> seg (header_at m) 0 (unat (heap_base h)) bs 0 \<and>
     no_adjacent_free bs"

lemma extent_append [simp]: "extent (xs @ ys) = extent xs + extent ys"
  by (induction xs rule: extent.induct) simp_all

lemma addresses_bound:
  "x \<in> set (addresses a bs) \<Longrightarrow> a \<le> x \<and> x + 32 \<le> a + extent bs"
  by (induction bs arbitrary: a rule: extent.induct) fastforce+

lemma last_address_in: "bs \<noteq> [] \<Longrightarrow> last_address p a bs \<in> set (addresses a bs)"
proof (induction bs arbitrary: p a rule: extent.induct)
  case (2 sz fr bs)
  then show ?case by (cases bs) auto
qed simp

lemma seg_append:
  "seg H p a (xs @ ys) nxt \<longleftrightarrow> seg H p a xs (if ys = [] then nxt else a + extent xs) \<and>
    seg H (last_address p a xs) (a + extent xs) ys nxt"
  by (induction xs arbitrary: p a rule: extent.induct) (auto simp: add.assoc)

lemma seg_cong:
  "(\<And>x. x \<in> set (addresses a bs) \<Longrightarrow> H x = H' x) \<Longrightarrow> seg H p a bs nxt = seg H' p a bs nxt"
  by (induction bs arbitrary: p a rule: extent.induct) auto

text \<open>Relinking the first header of a run to a new predecessor.\<close>

lemma seg_relink:
  assumes "seg H p a bs nxt" and "bs \<noteq> []" and "H' a = (H a)\<lparr>h_previous := of_nat q\<rparr>"
    and "\<And>x. x \<in> set (addresses a bs) \<Longrightarrow> x \<noteq> a \<Longrightarrow> H' x = H x"
  shows "seg H' q a bs nxt"
proof -
  obtain sz fr cs where bs: "bs = (sz, fr) # cs" using assms(2) by (cases bs) auto
  have "seg H' a (a + 32 + sz) cs nxt = seg H a (a + 32 + sz) cs nxt"
  proof (rule seg_cong)
    fix x assume "x \<in> set (addresses (a + 32 + sz) cs)"
    then show "H' x = H x" using assms(4) [of x] addresses_bound [of x "a + 32 + sz" cs] by (simp add: bs)
  qed
  then show ?thesis using assms(1,3) by (simp add: bs block_header_def)
qed

lemma no_adjacent_append:
  "no_adjacent_free (xs @ ys) \<longleftrightarrow> no_adjacent_free xs \<and> no_adjacent_free ys \<and>
    \<not> (xs \<noteq> [] \<and> ys \<noteq> [] \<and> snd (last xs) \<and> snd (hd ys))"
  by (induction xs) (auto simp: hd_append split: if_splits)

section \<open>Allocation\<close>

text \<open>The abstract allocator: the blocks before, the size of, and the blocks after the first fit.\<close>

fun first_fit :: "nat \<Rightarrow> (nat \<times> bool) list \<Rightarrow> ((nat \<times> bool) list \<times> nat \<times> (nat \<times> bool) list) option" where
  "first_fit n [] = None"
| "first_fit n ((sz, fr) # bs) =
    (if fr \<and> n \<le> sz then Some ([], sz, bs)
     else map_option (\<lambda>(xs, s, ys). ((sz, fr) # xs, s, ys)) (first_fit n bs))"

definition carve :: "nat \<Rightarrow> nat \<Rightarrow> (nat \<times> bool) list" where
  "carve n s = (if n + 48 \<le> s then [(n, False), (s - n - 32, True)] else [(s, False)])"

lemma first_fit_Some:
  "first_fit n bs = Some (xs, s, ys) \<Longrightarrow> bs = xs @ (s, True) # ys \<and> n \<le> s \<and>
    list_all (\<lambda>(z, f). \<not> (f \<and> n \<le> z)) xs"
  by (induction bs arbitrary: xs rule: extent.induct) (auto split: if_splits)

lemma first_fit_None: "first_fit n bs = None \<longleftrightarrow> list_all (\<lambda>(z, f). \<not> (f \<and> n \<le> z)) bs"
  by (induction bs rule: extent.induct) auto

lemma of_nat_address:
  assumes "a < 2 ^ 64"
  shows "unat (of_nat a :: u64) = a" and "0 < a \<Longrightarrow> (of_nat a :: u64) \<noteq> 0"
proof -
  show u: "unat (of_nat a :: u64) = a" using assms by (simp add: unat_of_nat)
  show "(of_nat a :: u64) \<noteq> 0" if "0 < a"
  proof
    assume "(of_nat a :: u64) = 0"
    then show False using u that by simp
  qed
qed

lemma kmalloc_find_spec:
  assumes "seg (header_at m) p a bs 0" and "a + extent bs < 2 ^ 64" and "0 < a"
  shows "kmalloc_find m sz (if bs = [] then 0 else of_nat a) =
    Some (case first_fit (unat sz) bs of None \<Rightarrow> 0 | Some (xs, s, ys) \<Rightarrow> of_nat (a + extent xs))"
  using assms
proof (induction bs arbitrary: p a rule: extent.induct)
  case 1
  then show ?case by (simp add: kmalloc_find.simps)
next
  case (2 s fr bs)
  let ?b = "of_nat a :: u64"
  have nz: "?b \<noteq> 0" by (rule of_nat_address(2)) (use 2(3,4) in simp_all)
  have H: "header_at m a = block_header s p (if bs = [] then 0 else a + 32 + s) fr" using 2(2) by simp
  have us: "unat (of_nat s :: u64) = s" by (rule of_nat_address(1)) (use 2(3) in simp)
  have IH: "kmalloc_find m sz (if bs = [] then 0 else of_nat (a + 32 + s)) =
      Some (case first_fit (unat sz) bs of None \<Rightarrow> 0 | Some (xs, s', ys) \<Rightarrow> of_nat (a + 32 + s + extent xs))"
    by (rule 2(1) [of a]) (use 2(2-4) in \<open>simp_all\<close>)
  have skip: "block_free m ?b = 0 \<or> block_magic m ?b \<noteq> HEAP_BLOCK_MAGIC \<or> block_size m ?b < sz \<longleftrightarrow>
      \<not> (fr \<and> unat sz \<le> s)"
    by (simp add: header_fields H block_header_def word_less_nat_alt us not_le)
  have nxt: "block_next m ?b = (if bs = [] then 0 else of_nat (a + 32 + s))"
    by (simp add: header_fields H block_header_def)
  show ?case
  proof (cases "fr \<and> unat sz \<le> s")
    case True
    then show ?thesis using nz skip by (subst kmalloc_find.simps) simp
  next
    case False
    then have "kmalloc_find m sz ?b = kmalloc_find m sz (if bs = [] then 0 else of_nat (a + 32 + s))"
      using nz skip nxt by (subst kmalloc_find.simps) simp
    then show ?thesis using IH False
      by (auto simp: ac_simps split: option.splits prod.splits)
  qed
qed

lemma take_whole_headers:
  assumes "header_pair x b" and "\<not> of_nat n + HEADER_SIZE + HEAP_ALIGNMENT \<le> h_size (header_at m b)"
  shows "header_at (kmalloc_take (of_nat b) (of_nat n) m) x =
    (if x = b then (header_at m b)\<lparr>h_free := 0\<rparr> else header_at m x)"
  using assms by (simp add: kmalloc_take_def Let_def header_fields header_set)

text \<open>The headers after a split of block \<open>b\<close> at \<open>c\<close>, where \<open>d\<close> is the block that followed it.\<close>

lemma take_split_headers:
  assumes "header_at m b = block_header s p d True" and "n + 48 \<le> s" and "s < 2 ^ 64"
    and "c = b + 32 + n" and "header_pair x b" and "header_pair x c"
    and "header_pair b c" and "header_pair c b" and "d < 2 ^ 64"
    and "0 < d \<Longrightarrow> header_pair x d \<and> header_pair b d \<and> header_pair c d \<and> d \<noteq> b \<and> d \<noteq> c"
  shows "header_at (kmalloc_take (of_nat b) (of_nat n) m) x =
    (if x = b then block_header n p c False
     else if x = c then block_header (s - n - 32) b d True
     else if 0 < d \<and> x = d then (header_at m d)\<lparr>h_previous := of_nat c\<rparr>
     else header_at m x)"
proof -
  have us: "unat (of_nat s :: u64) = s" "unat (of_nat n :: u64) = n"
    using assms(2,3) by (intro of_nat_address; simp)+
  have "unat (of_nat n + HEADER_SIZE + HEAP_ALIGNMENT) = n + 48"
    using assms(2,3) us by (simp add: unat_word_ariths)
  then have big: "of_nat n + HEADER_SIZE + HEAP_ALIGNMENT \<le> h_size (header_at m b)"
    using us assms(2) by (simp add: assms(1) block_header_def word_le_nat_alt)
  have c: "of_nat b + HEADER_SIZE + of_nat n = (of_nat c :: u64)" by (simp add: assms(4))
  have sub: "of_nat s - of_nat n - HEADER_SIZE = (of_nat (s - n - 32) :: u64)"
    using assms(2) by (simp add: of_nat_diff)
  have pairs: "header_pair b b" "header_pair c c" "b \<noteq> c" using assms(4,5,6) by (auto simp: header_pair_def)
  note sets = header_set [OF assms(5)] header_set [OF assms(6)] header_set [OF assms(7)]
    header_set [OF assms(8)] header_set [OF pairs(1)] header_set [OF pairs(2)]
  show ?thesis
  proof (cases "d = 0")
    case True
    then show ?thesis
      using big pairs(3) unfolding kmalloc_take_def Let_def header_fields if_P [OF big] c
      by (simp add: header_fields sets assms(1) block_header_def sub)
  next
    case False
    then have dp: "header_pair x d" "header_pair b d" "header_pair c d" "d \<noteq> b" "d \<noteq> c" "(of_nat d :: u64) \<noteq> 0"
      using assms(9,10) of_nat_address(2) [OF assms(9)] by auto
    have dq: "header_pair d c" "header_pair d b" using dp(2,3) by (auto simp: header_pair_def)
    show ?thesis
      using big pairs(3) dp(4-6) False unfolding kmalloc_take_def Let_def header_fields if_P [OF big] c
      by (simp add: header_fields sets header_set [OF dp(1)] header_set [OF dp(2)] header_set [OF dp(3)]
          header_set [OF dq(1)] header_set [OF dq(2)] assms(1) block_header_def sub)
  qed
qed


lemma addresses_gap: "x \<in> set (addresses a bs) \<Longrightarrow> x = a \<or> a + 32 \<le> x"
  by (cases bs rule: extent.cases) (auto dest: addresses_bound)

lemma header_pairI:
  assumes "x + 32 \<le> y \<or> y + 32 \<le> x \<or> x = y" and "x + 32 \<le> e" and "y + 32 \<le> e" and "e < 2 ^ 64"
  shows "header_pair x y"
  using assms by (auto simp: header_pair_def)

lemma seg_take:
  assumes "seg (header_at m) p a (xs @ (s, True) # ys) 0"
    and "a + extent (xs @ (s, True) # ys) < 2 ^ 64" and "n \<le> s" and "0 < n" and "16 dvd n"
    and "16 \<le> a"
  shows "seg (header_at (kmalloc_take (of_nat (a + extent xs)) (of_nat n) m)) p a (xs @ carve n s @ ys) 0"
proof -
  define b where "b = a + extent xs"
  define c where "c = b + 32 + n"
  define d where "d = (if ys = [] then 0 else b + 32 + s)"
  define e where "e = a + extent (xs @ (s, True) # ys)"
  let ?q = "last_address p a xs" and ?H' = "header_at (kmalloc_take (of_nat b) (of_nat n) m)"
  have e: "e = b + 32 + s + extent ys" "e < 2 ^ 64" using assms(2) by (simp_all add: e_def b_def)
  have sx: "seg (header_at m) p a xs b" and Hb: "header_at m b = block_header s ?q d True"
    and s: "0 < s" "16 dvd s" and sy: "seg (header_at m) b (b + 32 + s) ys 0"
    using assms(1) by (simp_all add: seg_append b_def d_def)
  have dpos: "d = b + 32 + s \<and> d + 32 \<le> e" if "ys \<noteq> []"
    using that by (cases ys rule: extent.cases) (auto simp: d_def e(1))
  have ax: "x + 32 \<le> b" if "x \<in> set (addresses a xs)" for x
    using addresses_bound [OF that] by (simp add: b_def)
  have ay: "b + 32 + s \<le> x \<and> x + 32 \<le> e \<and> (x = d \<or> d + 32 \<le> x) \<and> ys \<noteq> []"
    if "x \<in> set (addresses (b + 32 + s) ys)" for x
    using that addresses_bound [OF that] addresses_gap [OF that] by (cases "ys = []") (auto simp: e(1) d_def)
  show ?thesis
  proof (cases "n + 48 \<le> s")
    case True
    have take: "?H' x = (if x = b then block_header n ?q c False
       else if x = c then block_header (s - n - 32) b d True
       else if 0 < d \<and> x = d then (header_at m d)\<lparr>h_previous := of_nat c\<rparr> else header_at m x)"
      if x: "x + 32 \<le> b \<or> x = b \<or> x = c \<or> b + 32 + s \<le> x \<and> x + 32 \<le> e \<and> (x = d \<or> d + 32 \<le> x) \<and> ys \<noteq> []" for x
      by (rule take_split_headers [OF Hb True])
        (use x e True dpos in \<open>auto simp: c_def d_def header_pair_def\<close>)
    have "header_at m x = ?H' x" if "x \<in> set (addresses a xs)" for x
      using take [of x] ax [OF that] by (simp add: c_def d_def)
    then have xs: "seg ?H' p a xs b" using sx seg_cong [of a xs "header_at m" ?H' p b] by blast
    have ys: "seg ?H' c (b + 32 + s) ys 0"
    proof (cases "ys = []")
      case False
      then have "d = b + 32 + s" by (simp add: d_def)
      show ?thesis
      proof (rule seg_relink [OF sy False])
        show "?H' (b + 32 + s) = (header_at m (b + 32 + s))\<lparr>h_previous := of_nat c\<rparr>"
          using take [of "b + 32 + s"] dpos [OF False] True False by (simp add: c_def)
        fix x assume x: "x \<in> set (addresses (b + 32 + s) ys)" "x \<noteq> b + 32 + s"
        then show "?H' x = header_at m x"
          using take [of x] ay [OF x(1)] dpos [OF False] True by (simp add: c_def)
      qed
    qed simp
    have "16 dvd s - n - 32" using s(2) assms(5) True by (simp add: dvd_diff_nat)
    moreover have "b + 32 + n = c" "c + 32 + (s - (n + 32)) = b + 32 + s" "c \<noteq> b"
      using True by (simp_all add: c_def)
    ultimately have "seg ?H' ?q b (carve n s @ ys) 0"
      using take [of b] take [of c] ys True assms(4,5) by (simp add: carve_def d_def)
    then show ?thesis using xs True unfolding b_def [symmetric]
      by (subst seg_append) (simp add: b_def [symmetric] carve_def)
  next
    case False
    have "unat (of_nat s :: u64) = s" "unat (of_nat n :: u64) = n"
      using e assms(3) by (auto intro!: of_nat_address(1))
    then have nb: "\<not> of_nat n + HEADER_SIZE + HEAP_ALIGNMENT \<le> h_size (header_at m b)"
      using False e assms(3,6) by (simp add: b_def Hb [unfolded b_def] block_header_def word_le_nat_alt unat_word_ariths)
    have take: "?H' x = (if x = b then (header_at m b)\<lparr>h_free := 0\<rparr> else header_at m x)"
      if "x + 32 \<le> b \<or> x = b \<or> b + 32 \<le> x \<and> x + 32 \<le> e" for x
      by (rule take_whole_headers [OF _ nb]) (use that e in \<open>auto simp: header_pair_def\<close>)
    have "header_at m x = ?H' x" if "x \<in> set (addresses a xs)" for x
      using take [of x] ax [OF that] by simp
    then have xs: "seg ?H' p a xs b" using sx seg_cong [of a xs "header_at m" ?H' p b] by blast
    have "header_at m x = ?H' x" if "x \<in> set (addresses (b + 32 + s) ys)" for x
      using take [of x] ay [OF that] s by simp
    then have ys: "seg ?H' b (b + 32 + s) ys 0"
      using sy seg_cong [of "b + 32 + s" ys "header_at m" ?H' b 0] by blast
    have "seg ?H' ?q b (carve n s @ ys) 0"
      using take [of b] ys s False Hb by (auto simp: carve_def d_def block_header_def)
    then show ?thesis using xs False unfolding b_def [symmetric]
      by (subst seg_append) (simp add: b_def [symmetric] carve_def)
  qed
qed

lemma no_adjacent_carve:
  "no_adjacent_free (xs @ (s, True) # ys) \<Longrightarrow> no_adjacent_free (xs @ carve n s @ ys)"
  by (cases ys) (auto simp: no_adjacent_append carve_def)

lemma extent_carve: "extent (carve n s) = 32 + s"
  by (simp add: carve_def)

lemma align_size_spec:
  assumes "unat sz + 15 < 2 ^ 64"
  shows "unat (align_size sz) = (unat sz + 15) div 16 * 16"
proof -
  have le: "\<not> UINT64_MAX - (HEAP_ALIGNMENT - 1) < sz" using assms by (simp add: word_less_nat_alt)
  have u: "unat (sz + 15) = unat sz + 15" using assms by (simp add: unat_word_ariths)
  have "w AND NOT (mask 4) = push_bit 4 (drop_bit 4 w)" for w :: u64
    by (rule bit_word_eqI) (auto simp: bit_simps)
  then have "w AND NOT 15 = push_bit 4 (drop_bit 4 w)" for w :: u64
    by (simp add: mask_eq_exp_minus_1)
  then have "align_size sz = push_bit 4 (drop_bit 4 (sz + 15))"
    using le by (simp add: align_size_def add.commute)
  moreover have "unat (push_bit 4 (drop_bit 4 (sz + 15))) = (unat sz + 15) div 16 * 16"
    using u assms by (simp add: push_bit_eq_mult drop_bit_eq_div unat_word_ariths unat_div_distrib)
  ultimately show ?thesis by simp
qed

lemma align_size_zero: "align_size sz = 0 \<longleftrightarrow> sz = 0 \<or> 2 ^ 64 \<le> unat sz + 15"
proof (cases "unat sz + 15 < 2 ^ 64")
  case True
  have "align_size sz = 0 \<longleftrightarrow> unat (align_size sz) = 0" by (simp add: word_unat_eq_iff)
  also have "\<dots> \<longleftrightarrow> unat sz = 0" unfolding align_size_spec [OF True] by auto
  also have "\<dots> \<longleftrightarrow> sz = 0" by (simp add: word_unat_eq_iff)
  finally show ?thesis using True by simp
next
  case False
  then show ?thesis by (simp add: align_size_def word_less_nat_alt)
qed

text \<open>What a request of \<open>sz\<close> bytes needs: the size rounded up, or nothing for 0 and for overflow.\<close>

definition request :: "u64 \<Rightarrow> nat option" where
  "request sz = (if sz = 0 \<or> 2 ^ 64 \<le> unat sz + 15 then None else Some ((unat sz + 15) div 16 * 16))"

definition heap_alloc :: "nat \<Rightarrow> (nat \<times> bool) list \<Rightarrow> (nat \<times> (nat \<times> bool) list) option" where
  "heap_alloc n bs = (case first_fit n bs of None \<Rightarrow> None
     | Some (xs, s, ys) \<Rightarrow> Some (extent xs, xs @ carve n s @ ys))"

lemma kmalloc_refines:
  assumes "heap_inv h m bs"
  shows "kmalloc h sz m = Some (case request sz of None \<Rightarrow> (0, m)
    | Some n \<Rightarrow> (case first_fit n bs of None \<Rightarrow> (0, m)
       | Some (xs, s, ys) \<Rightarrow> (of_nat (unat (heap_base h) + extent xs + 32),
           kmalloc_take (of_nat (unat (heap_base h) + extent xs)) (of_nat n) m)))"
proof (cases "request sz")
  case None
  then have "align_size sz = 0" by (simp add: request_def align_size_zero split: if_splits)
  then show ?thesis using None by (simp add: kmalloc_def)
next
  case (Some n)
  let ?a = "unat (heap_base h)"
  have n: "unat (align_size sz) = n" "align_size sz \<noteq> 0"
    using Some by (auto simp: request_def align_size_spec align_size_zero split: if_splits)
  have a: "0 < ?a" using assms by (simp add: heap_inv_def unat_gt_0)
  have fb: "first_block h = (if bs = [] then 0 else of_nat ?a)" "first_block h \<noteq> 0"
    using assms by (auto simp: heap_inv_def of_nat_unat_id)
  have find: "kmalloc_find m (align_size sz) (first_block h) =
      Some (case first_fit n bs of None \<Rightarrow> 0 | Some (xs, s, ys) \<Rightarrow> of_nat (?a + extent xs))"
    unfolding fb(1) n(1) [symmetric]
    by (rule kmalloc_find_spec) (use assms a in \<open>auto simp: heap_inv_def\<close>)
  show ?thesis
  proof (cases "first_fit n bs")
    case None
    then show ?thesis using find n(2) fb(2) Some by (simp add: kmalloc_def)
  next
    case fit: (Some r)
    obtain xs s ys where r: "r = (xs, s, ys)" by (cases r)
    have "?a + extent xs < 2 ^ 64"
      using first_fit_Some [of n bs xs s ys] fit r assms by (auto simp: heap_inv_def)
    then have "(of_nat (?a + extent xs) :: u64) \<noteq> 0" using a by (intro of_nat_address(2)) simp_all
    moreover have "align_size sz = of_nat n" using n(1) of_nat_unat_id [of "align_size sz"] by simp
    ultimately show ?thesis using find n(2) fb(2) Some fit r
      by (simp add: kmalloc_def del: of_nat_add) (simp add: add.commute)
  qed
qed

lemma kmalloc_inv:
  assumes "heap_inv h m bs" and "request sz = Some n" and "first_fit n bs = Some (xs, s, ys)"
  shows "heap_inv h (kmalloc_take (of_nat (unat (heap_base h) + extent xs)) (of_nat n) m)
    (xs @ carve n s @ ys)"
proof -
  note bs = first_fit_Some [OF assms(3)]
  have "n = (unat sz + 15) div 16 * 16" "0 < unat sz"
    using assms(2) by (simp_all add: request_def unat_gt_0 split: if_splits)
  then have n: "0 < n" "16 dvd n" by (simp_all add: div_greater_zero_iff)
  have a: "16 \<le> unat (heap_base h)"
    using assms(1) by (auto simp: heap_inv_def unat_gt_0 intro: dvd_imp_le)
  have "seg (header_at (kmalloc_take (of_nat (unat (heap_base h) + extent xs)) (of_nat n) m)) 0
      (unat (heap_base h)) (xs @ carve n s @ ys) 0"
    by (rule seg_take) (use assms(1) bs n a in \<open>auto simp: heap_inv_def\<close>)
  moreover have "xs @ carve n s @ ys \<noteq> []" by (simp add: carve_def)
  ultimately show ?thesis
    using assms(1) bs no_adjacent_carve [of xs s ys n] by (simp add: heap_inv_def extent_carve)
qed

section \<open>Live allocations\<close>

fun located :: "nat \<Rightarrow> (nat \<times> bool) list \<Rightarrow> (nat \<times> nat \<times> bool) list" where
  "located a [] = []"
| "located a ((sz, fr) # bs) = (a, sz, fr) # located (a + 32 + sz) bs"

lemma located_append: "located a (xs @ ys) = located a xs @ located (a + extent xs) ys"
  by (induction xs arbitrary: a rule: extent.induct) (simp_all add: add.assoc)

lemma located_bound: "(x, t, f) \<in> set (located a bs) \<Longrightarrow> a \<le> x \<and> x + 32 + t \<le> a + extent bs"
  by (induction bs arbitrary: a rule: extent.induct) fastforce+

text \<open>Blocks do not overlap.\<close>

lemma located_disjoint:
  assumes "(x, t, f) \<in> set (located a bs)" and "(y, u, g) \<in> set (located a bs)"
  shows "(x = y \<and> t = u \<and> f = g) \<or> x + 32 + t \<le> y \<or> y + 32 + u \<le> x"
  using assms
proof (induction bs arbitrary: a rule: extent.induct)
  case (2 sz fr bs)
  then show ?case using located_bound [of _ _ _ "a + 32 + sz" bs] by fastforce
qed simp

lemma in_header_iff:
  assumes "z < 2 ^ 64" and "b + 32 \<le> 2 ^ 64"
  shows "unat (of_nat z - of_nat b :: u64) < 32 \<longleftrightarrow> b \<le> z \<and> z < b + 32"
proof -
  have u: "unat (of_nat z :: u64) = z" "unat (of_nat b :: u64) = b"
    using assms by (auto intro!: of_nat_address(1))
  show ?thesis using assms(2) by (auto simp: unat_sub_if' u)
qed

lemma kmalloc_take_frame:
  assumes "z < 2 ^ 64" and "b + 32 + s < 2 ^ 64" and "header_at m b = block_header s p d True"
    and "n \<le> s" and "d + 32 \<le> 2 ^ 64" and "\<not> (b \<le> z \<and> z < b + 32)"
    and "n + 48 \<le> s \<Longrightarrow> \<not> (b + 32 + n \<le> z \<and> z < b + 64 + n) \<and> (d = 0 \<or> \<not> (d \<le> z \<and> z < d + 32))"
    and "16 \<le> b"
  shows "kmalloc_take (of_nat b) (of_nat n) m (of_nat z) = m (of_nat z)"
proof -
  have nb: "\<not> unat (of_nat z - of_nat b :: u64) < 32"
    using assms(1,2,6) in_header_iff [of z b] by simp
  show ?thesis
  proof (cases "n + 48 \<le> s")
    case True
    let ?c = "b + 32 + n"
    have c: "of_nat b + HEADER_SIZE + of_nat n = (of_nat ?c :: u64)" by simp
    have pair: "header_pair b ?c" "header_pair ?c ?c" using assms(2) True by (auto simp: header_pair_def)
    have nc: "\<not> unat (of_nat z - of_nat ?c :: u64) < 32"
      using assms(1,2,7) True in_header_iff [of z ?c] by auto
    have nd: "\<not> unat (of_nat z - of_nat d :: u64) < 32" if "(of_nat d :: u64) \<noteq> 0"
      using assms(1,5,7) True in_header_iff [of z d] that by (cases "d = 0") auto
    have us: "unat (of_nat s :: u64) = s" "unat (of_nat n :: u64) = n"
      using assms(2,4) by (auto intro!: of_nat_address(1))
    then have big: "of_nat n + HEADER_SIZE + HEAP_ALIGNMENT \<le> h_size (header_at m b)"
      using True assms(2,8) by (simp add: assms(3) block_header_def word_le_nat_alt unat_word_ariths)
    show ?thesis
      unfolding kmalloc_take_def Let_def header_fields if_P [OF big] c
      using nb nc nd
      by (simp add: header_fields header_set [OF pair(1)] header_set [OF pair(2)] assms(3)
          block_header_def set_frame del: of_nat_add)
  next
    case False
    have us: "unat (of_nat s :: u64) = s" "unat (of_nat n :: u64) = n"
      using assms(2,4) by (auto intro!: of_nat_address(1))
    then have big: "\<not> of_nat n + HEADER_SIZE + HEAP_ALIGNMENT \<le> h_size (header_at m b)"
      using False assms(2,4,8) by (simp add: assms(3) block_header_def word_le_nat_alt unat_word_ariths)
    show ?thesis
      unfolding kmalloc_take_def Let_def header_fields if_not_P [OF big] using nb by (simp add: set_frame)
  qed
qed

lemma kmalloc_keeps_live:
  assumes "heap_inv h m (xs @ (s, True) # ys)" and "n \<le> s"
    and "(x, t, False) \<in> set (located (unat (heap_base h)) (xs @ (s, True) # ys))" and "i < t"
  defines "b \<equiv> unat (heap_base h) + extent xs"
  shows "kmalloc_take (of_nat b) (of_nat n) m (of_nat (x + 32 + i)) = m (of_nat (x + 32 + i))"
    and "(x, t, False) \<in> set (located (unat (heap_base h)) (xs @ carve n s @ ys))"
proof -
  let ?a = "unat (heap_base h)"
  have bound: "?a + extent (xs @ (s, True) # ys) < 2 ^ 64" and a: "16 \<le> ?a"
    using assms(1) by (auto simp: heap_inv_def unat_gt_0 intro: dvd_imp_le)
  define d where "d = (if ys = [] then 0 else b + 32 + s)"
  have Hb: "header_at m b = block_header s (last_address 0 ?a xs) d True"
    using assms(1) by (simp add: heap_inv_def seg_append b_def d_def)
  have dd: "d + 32 \<le> 2 ^ 64"
    using bound by (cases ys rule: extent.cases) (auto simp: d_def b_def)
  have mem: "(x, t, False) \<in> set (located ?a xs) \<or> (x, t, False) \<in> set (located (b + 32 + s) ys)"
    using assms(3) by (auto simp: located_append b_def)
  then have pos: "x + 32 + t \<le> b \<or> b + 32 + s \<le> x \<and> ys \<noteq> []"
    using located_bound [of x t False ?a xs] located_bound [of x t False "b + 32 + s" ys]
    by (auto simp: b_def)
  have z: "x + 32 + i < 2 ^ 64"
    using located_bound [OF assms(3)] bound assms(4) by simp
  show "kmalloc_take (of_nat b) (of_nat n) m (of_nat (x + 32 + i)) = m (of_nat (x + 32 + i))"
    by (rule kmalloc_take_frame [OF z _ Hb assms(2) dd])
      (use pos assms(4) bound a in \<open>auto simp: d_def b_def\<close>)
  show "(x, t, False) \<in> set (located ?a (xs @ carve n s @ ys))"
    using mem by (auto simp: located_append b_def extent_carve add.assoc)
qed

section \<open>Release\<close>

fun merge_block :: "nat \<Rightarrow> (nat \<times> bool) list \<Rightarrow> (nat \<times> bool) list" where
  "merge_block s ((t, True) # zs) = (s + 32 + t, True) # zs"
| "merge_block s ys = (s, True) # ys"

text \<open>The abstract release of the block between \<open>xs\<close> and \<open>ys\<close>: merge forward, then backward.\<close>

definition heap_release :: "(nat \<times> bool) list \<Rightarrow> nat \<Rightarrow> (nat \<times> bool) list \<Rightarrow> (nat \<times> bool) list" where
  "heap_release xs s ys =
    (if xs \<noteq> [] \<and> snd (last xs)
     then butlast xs @ merge_block (fst (last xs)) (merge_block s ys)
     else xs @ merge_block s ys)"

lemma merge_headers:
  assumes "header_at m b = block_header s p d True" and "header_at m d = block_header t b e True"
    and "d = b + 32 + s" and "d + 32 + t < 2 ^ 64" and "0 < e \<Longrightarrow> e = d + 32 + t \<and> e + 32 \<le> 2 ^ 64"
    and "x + 32 \<le> b \<or> x = b \<or> x = d \<or> x = e \<and> 0 < e \<or> 0 < e \<and> e + 32 \<le> x \<and> x + 32 \<le> 2 ^ 64"
  shows "header_at (merge_with_next (of_nat b) m) x =
    (if x = b then block_header (s + 32 + t) p e True
     else if x = d then (header_at m d)\<lparr>h_magic := 0\<rparr>
     else if 0 < e \<and> x = e then (header_at m e)\<lparr>h_previous := of_nat b\<rparr>
     else header_at m x)"
proof -
  have d0: "(of_nat d :: u64) \<noteq> 0" using assms(3,4) by (intro of_nat_address(2)) simp_all
  have pairs: "header_pair x b" "header_pair x d" "header_pair b b" "header_pair b d" "header_pair d b"
      "header_pair d d" "b \<noteq> d"
    using assms(3-6) by (auto simp: header_pair_def)
  note sets = header_set [OF pairs(1)] header_set [OF pairs(2)] header_set [OF pairs(3)]
    header_set [OF pairs(4)] header_set [OF pairs(5)] header_set [OF pairs(6)]
  have sum: "of_nat s + (32 + of_nat t) = (of_nat (s + 32 + t) :: u64)" by simp
  show ?thesis
  proof (cases "e = 0")
    case True
    then show ?thesis
      using d0 pairs(7)
      by (simp add: merge_with_next_def Let_def header_fields sets assms(1,2) block_header_def)
  next
    case False
    then have e0: "(of_nat e :: u64) \<noteq> 0" using assms(3-5) by (intro of_nat_address(2)) simp_all
    have ep: "header_pair x e" "header_pair b e" "header_pair d e" "header_pair e b" "header_pair e d"
        "e \<noteq> b" "e \<noteq> d"
      using assms(3-6) False by (auto simp: header_pair_def)
    note esets = header_set [OF ep(1)] header_set [OF ep(2)] header_set [OF ep(3)] header_set [OF ep(4)]
      header_set [OF ep(5)]
    show ?thesis
      using d0 e0 pairs(7) ep(6,7) False
      by (simp add: merge_with_next_def Let_def header_fields sets esets assms(1,2) block_header_def)
  qed
qed

lemma merge_noop:
  assumes "header_at m b = block_header s p d fr"
    and "0 < d \<Longrightarrow> \<exists>t q e. header_at m d = block_header t q e False"
  shows "merge_with_next (of_nat b) m = m"
  using assms by (cases "d = 0") (auto simp: merge_with_next_def Let_def header_fields block_header_def)

lemma seg_merge:
  assumes "seg (header_at m) p a (xs @ (s, True) # ys) 0"
    and "a + extent (xs @ (s, True) # ys) < 2 ^ 64"
  shows "seg (header_at (merge_with_next (of_nat (a + extent xs)) m)) p a (xs @ merge_block s ys) 0"
proof -
  define b where "b = a + extent xs"
  let ?q = "last_address p a xs" and ?H' = "header_at (merge_with_next (of_nat b) m)"
  have sx: "seg (header_at m) p a xs b"
    and Hb: "header_at m b = block_header s ?q (if ys = [] then 0 else b + 32 + s) True"
    and s: "0 < s" "16 dvd s" and sy: "seg (header_at m) b (b + 32 + s) ys 0"
    using assms(1) by (simp_all add: seg_append b_def)
  show ?thesis
  proof (cases "\<exists>t zs. ys = (t, True) # zs")
    case False
    have "merge_with_next (of_nat b) m = m"
      by (rule merge_noop [OF Hb]) (use False sy in \<open>cases ys rule: extent.cases; auto\<close>)
    moreover have "merge_block s ys = (s, True) # ys"
      using False by (cases "(s, ys)" rule: merge_block.cases) auto
    ultimately show ?thesis using assms(1) by (simp add: b_def)
  next
    case True
    then obtain t zs where ys: "ys = (t, True) # zs" by blast
    define d where "d = b + 32 + s"
    define e where "e = (if zs = [] then 0 else d + 32 + t)"
    have Hd: "header_at m d = block_header t b e True" and t: "0 < t" "16 dvd t"
      and sz: "seg (header_at m) d (d + 32 + t) zs 0" using sy by (simp_all add: ys d_def e_def)
    have bound: "d + 32 + t + extent zs < 2 ^ 64" using assms(2) by (simp add: ys d_def b_def)
    have epos: "0 < e \<Longrightarrow> e = d + 32 + t \<and> e + 32 \<le> 2 ^ 64"
      using bound by (cases zs rule: extent.cases) (auto simp: e_def)
    have Hb': "header_at m b = block_header s ?q d True" using Hb by (simp add: ys d_def)
    note H = merge_headers [OF Hb' Hd d_def _ epos]
    have "header_at m x = ?H' x" if "x \<in> set (addresses a xs)" for x
    proof -
      have "x + 32 \<le> b" using addresses_bound [OF that] by (simp add: b_def)
      then show ?thesis using H [of x] bound epos by (auto simp: d_def)
    qed
    then have xs: "seg ?H' p a xs b" using sx seg_cong [of a xs "header_at m" ?H' p b] by blast
    have zs: "seg ?H' b (d + 32 + t) zs 0"
    proof (cases "zs = []")
      case False
      show ?thesis
      proof (rule seg_relink [OF sz False])
        have e: "e = d + 32 + t" using False by (simp add: e_def)
        then show "?H' (d + 32 + t) = (header_at m (d + 32 + t))\<lparr>h_previous := of_nat b\<rparr>"
          using H [of e] bound by (simp add: d_def)
        fix x assume x: "x \<in> set (addresses (d + 32 + t) zs)" "x \<noteq> d + 32 + t"
        then show "?H' x = header_at m x"
          using H [of x] addresses_bound [OF x(1)] addresses_gap [OF x(1)] bound e by (simp add: d_def)
      qed
    qed simp
    have "16 dvd s + 32 + t" using s(2) t(2) by simp
    moreover have "b + 32 + (s + 32 + t) = d + 32 + t" by (simp add: d_def)
    ultimately have "seg ?H' ?q b ((s + 32 + t, True) # zs) 0"
      using H [of b] zs bound by (simp add: d_def e_def ac_simps)
    then show ?thesis using xs unfolding b_def [symmetric] ys
      by (subst seg_append) (simp add: b_def [symmetric])
  qed
qed


lemma merge_block_props:
  "extent (merge_block s ys) = 32 + s + extent ys" "merge_block s ys \<noteq> []" "snd (hd (merge_block s ys))"
  by (cases "(s, ys)" rule: merge_block.cases; simp)+

lemma no_adjacent_merge:
  "no_adjacent_free (xs @ [(s, False)] @ ys) \<Longrightarrow> no_adjacent_free (merge_block s ys)"
  by (cases "(s, ys)" rule: merge_block.cases) (auto simp: no_adjacent_append)

lemma no_adjacent_release:
  assumes "no_adjacent_free (xs @ (s, False) # ys)"
  shows "no_adjacent_free (heap_release xs s ys)"
proof -
  have m: "no_adjacent_free (merge_block s ys)" by (rule no_adjacent_merge) (use assms in simp)
  have x: "no_adjacent_free xs" using assms by (simp add: no_adjacent_append)
  show ?thesis
  proof (cases "xs \<noteq> [] \<and> snd (last xs)")
    case False
    then show ?thesis using m x by (auto simp: heap_release_def no_adjacent_append)
  next
    case True
    then obtain ws r where xs: "xs = ws @ [(r, True)]" by (metis append_butlast_last_id prod.collapse)
    obtain u zs where mb: "merge_block s ys = (u, True) # zs"
      using merge_block_props(2,3) [of s ys] by (cases "merge_block s ys") auto
    have "no_adjacent_free (ws @ (r + 32 + u, True) # zs)"
      using m x mb xs by (auto simp: no_adjacent_append)
    then show ?thesis by (simp add: heap_release_def xs mb)
  qed
qed

lemma extent_release: "extent (heap_release xs s ys) = extent xs + 32 + s + extent ys"
proof (cases "xs \<noteq> [] \<and> snd (last xs)")
  case True
  then obtain ws r where "xs = ws @ [(r, True)]" by (metis append_butlast_last_id prod.collapse)
  then show ?thesis by (simp add: heap_release_def merge_block_props(1))
qed (auto simp: heap_release_def merge_block_props(1))

text \<open>Setting the free flag of one block of the chain.\<close>

lemma seg_set_free:
  assumes "seg (header_at m) p a (xs @ (s, f) # ys) 0"
    and "a + extent (xs @ (s, f) # ys) < 2 ^ 64"
  shows "seg (header_at (set_free (of_nat (a + extent xs)) 1 m)) p a (xs @ (s, True) # ys) 0"
proof -
  define b where "b = a + extent xs"
  let ?H' = "header_at (set_free (of_nat b) 1 m)"
  have H: "?H' x = (if x = b then (header_at m b)\<lparr>h_free := 1\<rparr> else header_at m x)"
    if "header_pair x b" for x using header_set(5) [OF that] by simp
  have "header_at m x = ?H' x" if "x \<in> set (addresses a xs)" for x
    using H [of x] addresses_bound [OF that] assms(2) by (simp add: b_def header_pair_def)
  then have xs: "seg ?H' p a xs b = seg (header_at m) p a xs b" by (intro seg_cong) simp
  have "header_at m x = ?H' x" if "x \<in> set (addresses (b + 32 + s) ys)" for x
    using H [of x] addresses_bound [OF that] assms(2) by (simp add: b_def header_pair_def)
  then have ys: "seg ?H' b (b + 32 + s) ys 0 = seg (header_at m) b (b + 32 + s) ys 0"
    by (intro seg_cong) simp
  have "header_pair b b" using assms(2) by (simp add: header_pair_def b_def)
  then show ?thesis
    using assms(1) xs ys H [of b] by (simp add: seg_append b_def [symmetric] block_header_def)
qed

lemma seg_last_header:
  assumes "seg H p a (ws @ [(r, f)]) nxt"
  shows "last_address p a (ws @ [(r, f)]) = a + extent ws"
    and "H (a + extent ws) = block_header r (last_address p a ws) nxt f"
proof -
  show "last_address p a (ws @ [(r, f)]) = a + extent ws"
    by (induction ws arbitrary: p a rule: extent.induct) (simp_all add: add.assoc)
  show "H (a + extent ws) = block_header r (last_address p a ws) nxt f"
    using assms by (simp add: seg_append)
qed

lemma seg_first_previous:
  assumes "seg H p a (xs @ b # ys) nxt"
  shows "h_previous (H (a + extent xs)) = of_nat (last_address p a xs)"
  using assms by (cases b) (simp add: seg_append block_header_def)

lemma seg_extent_dvd: "seg H p a bs nxt \<Longrightarrow> 16 dvd extent bs"
  by (induction bs arbitrary: p a rule: extent.induct) (auto intro: dvd_add)

lemma kfree_block:
  assumes "heap_inv h m (xs @ (s, f) # ys)"
  defines "b \<equiv> unat (heap_base h) + extent xs"
  shows "kfree h (of_nat (b + 32)) m =
    (if f then (False, m)
     else let m = merge_with_next (of_nat b) (set_free (of_nat b) 1 m);
              q = block_previous m (of_nat b)
          in (True, if q \<noteq> 0 \<and> block_free m q \<noteq> 0 then merge_with_next q m else m))"
proof -
  let ?a = "unat (heap_base h)" and ?z = "unat (heap_size h)"
  have e: "extent xs + 32 + s + extent ys = ?z" "?a + ?z < 2 ^ 64" "0 < ?a" "16 dvd ?a"
      "first_block h \<noteq> 0" "heap_base h \<noteq> 0"
    using assms(1) by (auto simp: heap_inv_def unat_gt_0)
  have seg: "seg (header_at m) 0 ?a (xs @ (s, f) # ys) 0" using assms(1) by (simp add: heap_inv_def)
  then have Hb: "header_at m b = block_header s (last_address 0 ?a xs) (if ys = [] then 0 else b + 32 + s) f"
    and s: "0 < s" and x16: "16 dvd extent xs" by (auto simp: seg_append b_def dest: seg_extent_dvd)
  have u: "unat (of_nat (b + 32) :: u64) = b + 32" "unat (of_nat b :: u64) = b"
    by (rule of_nat_address(1), use e in \<open>simp add: b_def\<close>)+
  have sum: "unat (heap_base h + heap_size h) = ?a + ?z" using e(2) by (simp add: unat_word_ariths)
  then have sums: "unat (heap_base h + 32) = ?a + 32"
      "unat (heap_base h + heap_size h - 32) = ?a + ?z - 32"
    using e(1,2) by (simp_all add: unat_word_ariths unat_sub_if')
  have "of_nat (b + 32) AND (HEAP_ALIGNMENT - 1) = (0 :: u64)"
  proof -
    have "unat ((of_nat (b + 32) :: u64) AND mask 4) = (b + 32) mod 2 ^ 4"
      by (simp only: word_and_mask_mod u(1))
    also have "\<dots> = 0" using e(4) x16 by (simp add: b_def)
    finally show ?thesis by (simp add: word_unat_eq_iff mask_eq_exp_minus_1)
  qed
  moreover have "(of_nat (b + 32) :: u64) \<noteq> 0" using u(1) by auto
  moreover have "\<not> of_nat (b + 32) < heap_base h + 32" "\<not> heap_base h + heap_size h \<le> of_nat (b + 32)"
    using e(1) s unfolding word_less_nat_alt word_le_nat_alt u sum sums by (simp_all add: b_def)
  moreover have "of_nat (b + 32) - HEADER_SIZE = (of_nat b :: u64)" by simp
  moreover have "block_in_heap h (of_nat b)"
    unfolding block_in_heap_def word_le_nat_alt u sums using e(1,6) by (simp add: b_def)
  moreover have "block_magic m (of_nat b) = HEAP_BLOCK_MAGIC" "block_free m (of_nat b) = (if f then 1 else 0)"
    by (simp_all add: header_fields Hb block_header_def)
  ultimately show ?thesis
    using e(5) unfolding kfree_def Let_def by (simp del: of_nat_add)
qed

lemma kfree_refines:
  assumes "heap_inv h m (xs @ (s, False) # ys)"
  defines "b \<equiv> unat (heap_base h) + extent xs"
  shows "\<exists>m'. kfree h (of_nat (b + 32)) m = (True, m') \<and> heap_inv h m' (heap_release xs s ys)"
proof -
  let ?a = "unat (heap_base h)"
  define m2 where "m2 = merge_with_next (of_nat b) (set_free (of_nat b) 1 m)"
  have seg: "seg (header_at m) 0 ?a (xs @ (s, False) # ys) 0" and a: "0 < ?a"
    and bd: "?a + extent (xs @ (s, f) # ys) < 2 ^ 64" for f
    using assms(1) by (auto simp: heap_inv_def unat_gt_0)
  have seg2: "seg (header_at m2) 0 ?a (xs @ merge_block s ys) 0"
    unfolding m2_def b_def by (rule seg_merge [OF seg_set_free [OF seg bd] bd])
  obtain v vs where v: "merge_block s ys = v # vs" using merge_block_props(2) [of s ys] by (cases "merge_block s ys") auto
  have q: "block_previous m2 (of_nat b) = of_nat (last_address 0 ?a xs)"
    using seg_first_previous [OF seg2 [unfolded v]] by (simp only: header_fields b_def)
  have kf: "kfree h (of_nat (b + 32)) m = (True,
      if last_address 0 ?a xs \<noteq> 0 \<and> block_free m2 (of_nat (last_address 0 ?a xs)) \<noteq> 0
      then merge_with_next (of_nat (last_address 0 ?a xs)) m2 else m2)"
  proof -
    have "last_address 0 ?a xs = 0 \<or> last_address 0 ?a xs + 32 \<le> ?a + extent xs"
      using last_address_in [of xs 0 ?a] addresses_bound [of "last_address 0 ?a xs" ?a xs] by (cases xs) auto
    then have "(of_nat (last_address 0 ?a xs) :: u64) \<noteq> 0 \<longleftrightarrow> last_address 0 ?a xs \<noteq> 0"
      using of_nat_address(2) [of "last_address 0 ?a xs"] bd by (cases "last_address 0 ?a xs = 0") auto
    then show ?thesis
      using kfree_block [OF assms(1), folded b_def] unfolding m2_def [symmetric] Let_def q
      by (simp del: of_nat_add)
  qed
  have inv: "heap_inv h m' (heap_release xs s ys)"
    if "seg (header_at m') 0 ?a (heap_release xs s ys) 0" for m'
  proof -
    have "heap_release xs s ys \<noteq> []" using merge_block_props(2) by (simp add: heap_release_def)
    then show ?thesis
      using assms(1) that no_adjacent_release [of xs s ys] by (simp add: heap_inv_def extent_release)
  qed
  show ?thesis
  proof (cases xs rule: rev_cases)
    case Nil
    then show ?thesis using kf inv [of m2] seg2 by (simp add: heap_release_def)
  next
    case (snoc ws w)
    obtain r g where w: "w = (r, g)" by (cases w)
    have "seg (header_at m2) 0 ?a xs b" using seg2 unfolding seg_append v b_def by simp
    then have "seg (header_at m2) 0 ?a (ws @ [(r, g)]) b" by (simp only: snoc w)
    note l = seg_last_header [OF this]
    have la: "last_address 0 ?a xs = ?a + extent ws" using l(1) by (simp add: snoc w)
    have fr: "block_free m2 (of_nat (?a + extent ws)) \<noteq> 0 \<longleftrightarrow> g"
      unfolding header_fields l(2) by (simp add: block_header_def)
    show ?thesis
    proof (cases g)
      case True
      have "seg (header_at (merge_with_next (of_nat (?a + extent ws)) m2)) 0 ?a
          (ws @ merge_block r (merge_block s ys)) 0"
        by (rule seg_merge) (use seg2 bd in \<open>simp_all add: snoc w True merge_block_props(1)\<close>)
      then show ?thesis
        using kf inv fr True a unfolding la by (simp add: heap_release_def snoc w)
    next
      case False
      then show ?thesis using kf inv [of m2] seg2 fr unfolding la by (simp add: heap_release_def snoc w)
    qed
  qed
qed

section \<open>Validation, accounting and initialisation\<close>

lemma validate_loop_chain:
  assumes "seg (header_at m) p a bs 0" and "no_adjacent_free bs" and "length bs \<le> left"
    and "a + extent bs = unat (heap_base h) + unat (heap_size h)"
    and "unat (heap_base h) + unat (heap_size h) < 2 ^ 64"
    and "unat (heap_base h) \<le> a" and "heap_base h \<noteq> 0"
    and "p \<noteq> 0 \<Longrightarrow> bs \<noteq> [] \<Longrightarrow> block_free m (of_nat p) \<noteq> 0 \<Longrightarrow> \<not> snd (hd bs)" and "p < 2 ^ 64"
  shows "heap_validate_loop left h m (if bs = [] then 0 else of_nat a) (of_nat p) (of_nat a)"
  using assms
proof (induction bs arbitrary: p a left rule: extent.induct)
  case 1
  have "of_nat a = heap_base h + heap_size h"
    using 1(4,5) by (simp add: word_unat_eq_iff unat_word_ariths of_nat_address(1))
  then show ?case by simp
next
  case (2 s f bs)
  let ?b = "of_nat a :: u64" and ?limit = "unat (heap_base h) + unat (heap_size h)"
  obtain left' where left: "left = Suc left'" using 2(4) by (cases left) auto
  have e: "a + 32 + s + extent bs = ?limit" using 2(5) by simp
  have s: "0 < s" "16 dvd s" and H: "header_at m a = block_header s p (if bs = [] then 0 else a + 32 + s) f"
    and sg: "seg (header_at m) a (a + 32 + s) bs 0" using 2(2) by simp_all
  have u: "unat ?b = a" "unat (of_nat s :: u64) = s" "unat (of_nat p :: u64) = p"
    by (rule of_nat_address(1), use e 2(6,10) in simp)+
  have base: "0 < unat (heap_base h)" using 2(8) by (simp add: unat_gt_0)
  then have a0: "0 < a" using 2(7) by simp
  have nz: "?b \<noteq> 0" using u(1) a0 by auto
  have sum: "unat (heap_base h + heap_size h) = ?limit" using 2(6) by (simp add: unat_word_ariths)
  then have sum2: "unat (heap_base h + heap_size h - 32) = ?limit - 32"
      "unat (heap_base h + heap_size h - ?b - 32) = ?limit - a - 32"
    using e u(1) by (simp_all add: unat_sub_if')
  have fields: "block_size m ?b = of_nat s" "block_previous m ?b = of_nat p"
      "block_next m ?b = (if bs = [] then 0 else of_nat (a + 32 + s))" "block_magic m ?b = HEAP_BLOCK_MAGIC"
      "block_free m ?b = (if f then 1 else 0)"
    by (simp_all add: header_fields H block_header_def)
  have al: "of_nat s AND (HEAP_ALIGNMENT - 1) = (0 :: u64)"
  proof -
    have "unat ((of_nat s :: u64) AND mask 4) = s mod 2 ^ 4" by (simp only: word_and_mask_mod u(2))
    then show ?thesis using s(2) by (simp add: word_unat_eq_iff mask_eq_exp_minus_1)
  qed
  have ih: "block_in_heap h ?b"
    unfolding block_in_heap_def word_le_nat_alt u(1) sum2 using e 2(7,8) by simp
  have sz: "(of_nat s :: u64) \<noteq> 0" "\<not> heap_base h + heap_size h - ?b - 32 < of_nat s"
    by (rule of_nat_address(2); use s(1) e 2(6) in simp)
      (use e in \<open>simp add: word_less_nat_alt sum2 u(2)\<close>)
  have adj: "\<not> (of_nat p \<noteq> (0 :: u64) \<and> block_free m (of_nat p) \<noteq> 0 \<and> block_free m ?b \<noteq> 0)"
    using 2(9) fields(5) by (cases "p = 0") auto
  have IH: "heap_validate_loop left' h m (if bs = [] then 0 else of_nat (a + 32 + s)) ?b (of_nat (a + 32 + s))"
  proof (rule 2(1) [OF sg])
    show "\<not> snd (hd bs)" if "a \<noteq> 0" "bs \<noteq> []" "block_free m ?b \<noteq> 0"
      using that 2(3) fields(5) by (auto split: if_splits)
  qed (use 2 e left in simp_all)
  have cursor: "?b + HEADER_SIZE + block_size m ?b = of_nat (a + 32 + s)" by (simp add: fields(1))
  have nx: "\<not> (block_next m ?b \<noteq> 0 \<and> block_next m ?b \<noteq> ?b + HEADER_SIZE + block_size m ?b)"
    unfolding cursor by (simp add: fields(3))
  have bad: "\<not> (\<not> block_in_heap h ?b \<or> ?b \<noteq> ?b \<or> block_magic m ?b \<noteq> HEAP_BLOCK_MAGIC \<or>
      block_previous m ?b \<noteq> of_nat p \<or> block_size m ?b = 0 \<or>
      block_size m ?b AND (HEAP_ALIGNMENT - 1) \<noteq> 0 \<or>
      heap_base h + heap_size h - ?b - HEADER_SIZE < block_size m ?b \<or>
      (of_nat p \<noteq> (0 :: u64) \<and> block_free m (of_nat p) \<noteq> 0 \<and> block_free m ?b \<noteq> 0))"
    using ih al sz adj fields(1,2,4) by simp
  have "heap_validate_loop left h m ?b (of_nat p) ?b =
      heap_validate_loop left' h m (block_next m ?b) ?b (?b + HEADER_SIZE + block_size m ?b)"
    by (subst heap_validate_loop.simps) (simp only: left nat.case Let_def if_not_P [OF nz] if_not_P [OF bad] if_not_P [OF nx])
  then show ?case using IH unfolding cursor fields(3) by simp
qed

lemma length_extent: "32 * length bs \<le> extent bs"
  by (induction bs rule: extent.induct) simp_all

lemma heap_inv_validate:
  assumes "heap_inv h m bs"
  shows "heap_validate h m"
proof -
  have "length bs \<le> unat (heap_size h div HEADER_SIZE)"
    using length_extent [of bs] assms
    by (simp add: heap_inv_def unat_div_distrib less_eq_div_iff_mult_less_eq mult.commute)
  then have "heap_validate_loop (unat (heap_size h div HEADER_SIZE)) h m
      (if bs = [] then 0 else of_nat (unat (heap_base h))) (of_nat 0) (of_nat (unat (heap_base h)))"
    by (intro validate_loop_chain) (use assms in \<open>simp_all add: heap_inv_def\<close>)
  then show ?thesis using assms
    by (simp add: heap_validate_def heap_inv_def of_nat_unat_id del: heap_validate_loop.simps)
qed

definition bytes_in :: "bool \<Rightarrow> (nat \<times> bool) list \<Rightarrow> nat" where
  "bytes_in w bs = sum_list (map fst (filter (\<lambda>b. snd b = w) bs))"

lemma heap_sum_chain:
  assumes "seg (header_at m) p a bs 0" and "a + extent bs < 2 ^ 64" and "0 < a"
  shows "heap_sum m w (if bs = [] then 0 else of_nat a) acc = Some (acc + of_nat (bytes_in w bs))"
  using assms
proof (induction bs arbitrary: p a acc rule: extent.induct)
  case 1
  then show ?case by (simp add: heap_sum.simps bytes_in_def)
next
  case (2 s f bs)
  let ?b = "of_nat a :: u64"
  have nz: "?b \<noteq> 0" by (rule of_nat_address(2)) (use 2(3,4) in simp_all)
  have H: "header_at m a = block_header s p (if bs = [] then 0 else a + 32 + s) f" using 2(2) by simp
  have "heap_sum m w (if bs = [] then 0 else of_nat (a + 32 + s)) acc' =
      Some (acc' + of_nat (bytes_in w bs))" for acc'
    by (rule 2(1) [of a]) (use 2(2-4) in simp_all)
  moreover have "block_next m ?b = (if bs = [] then 0 else of_nat (a + 32 + s))" "block_size m ?b = of_nat s"
    "block_magic m ?b = HEAP_BLOCK_MAGIC" "block_free m ?b \<noteq> 0 \<longleftrightarrow> f"
    by (simp_all add: header_fields H block_header_def)
  ultimately show ?case
    using nz by (subst heap_sum.simps) (auto simp: bytes_in_def add.assoc)
qed

lemma bytes_extent: "bytes_in True bs + bytes_in False bs + 32 * length bs = extent bs"
  by (induction bs rule: extent.induct) (auto simp: bytes_in_def)

lemma heap_init_inv:
  assumes "pmm_inv q" and "0 \<notin> managed_set q" and "heap_init pages h0 q m0 = (True, h, q', m)"
  shows "heap_inv h m [(unat (heap_size h) - 32, True)] \<and> unat (heap_size h) = unat pages * 4096 \<and>
    (\<exists>p. unat (heap_base h) = p * 4096 \<and> {p..<p + unat pages} \<subseteq> free_set q - free_set q')"
proof -
  obtain a where al: "pmm_alloc_pages pages q = (a, q')" and a: "a \<noteq> 0" and p0: "pages \<noteq> 0"
    and h: "h = \<lparr>heap_base = a, heap_size = pages * ARGUS_PAGE_SIZE, first_block = a\<rparr>"
    and m: "m = set_free a 1 (set_magic a HEAP_BLOCK_MAGIC (set_next a 0 (set_previous a 0
        (set_size a (pages * ARGUS_PAGE_SIZE - HEADER_SIZE) m0))))"
    using assms(3) by (auto simp: heap_init_def Let_def split: if_splits prod.splits)
  obtain p where p: "unat a = p * 4096" "free_run q (unat pages) p"
      "free_set q' = free_set q - {p..<p + unat pages}"
    using pmm_alloc_spec [OF assms(1) al] a by blast
  have c: "0 < unat pages" using p0 by (simp add: unat_gt_0)
  have b: "p + unat pages \<le> unat (page_count q)" by (rule free_run_bound [OF p(2) c])
  have n52: "unat (page_count q) < 2 ^ 52" using assms(1) by (simp add: pmm_inv_def)
  have z: "unat (pages * ARGUS_PAGE_SIZE) = unat pages * 4096"
    using b n52 by (simp add: unat_word_ariths)
  have bound: "unat a + unat pages * 4096 < 2 ^ 64" using b n52 p(1) by simp
  have pair: "header_pair (unat a) (unat a)" using bound c by (simp add: header_pair_def)
  have sz: "pages * ARGUS_PAGE_SIZE - HEADER_SIZE = of_nat (unat pages * 4096 - 32)"
  proof (rule word_unat_eq_iff [THEN iffD2])
    have "unat (of_nat (unat pages * 4096 - 32) :: u64) = unat pages * 4096 - 32"
      by (rule of_nat_address(1)) (use bound in simp)
    then show "unat (pages * ARGUS_PAGE_SIZE - HEADER_SIZE) = unat (of_nat (unat pages * 4096 - 32) :: u64)"
      using z c by (simp add: unat_sub_if')
  qed
  have "header_at m (unat a) = block_header (unat pages * 4096 - 32) 0 0 True"
    unfolding m sz by (simp add: header_set [OF pair, unfolded of_nat_unat_id] block_header_def)
  moreover have "16 dvd unat a" "16 dvd unat pages * 4096 - 32" using p(1) by (auto intro: dvd_diff_nat)
  moreover have "0 < unat pages * 4096 - 32" "32 + (unat pages * 4096 - 32) = unat pages * 4096"
    using c by linarith+
  ultimately have "heap_inv h m [(unat (heap_size h) - 32, True)]"
    using a bound z by (simp only: heap_inv_def h) simp
  then show ?thesis using p z by (auto simp: h free_run_def)
qed

section \<open>Writes to the payload\<close>

lemma payload_not_header:
  assumes "(x, t, f) \<in> set (located a bs)" and "i < t" and "y \<in> set (addresses a bs)"
  shows "\<not> (y \<le> x + 32 + i \<and> x + 32 + i < y + 32)"
proof -
  obtain u g where "(y, u, g) \<in> set (located a bs)"
    using assms(3) by (induction bs arbitrary: a rule: extent.induct) auto
  from located_disjoint [OF assms(1) this] assms(2) show ?thesis by auto
qed

lemma header_at_write:
  assumes "y + 32 \<le> 2 ^ 64" and "z < 2 ^ 64" and "\<not> (y \<le> z \<and> z < y + 32)"
  shows "header_at (m(of_nat z := v)) y = header_at m y"
proof -
  have "load k (m(of_nat z := v)) (of_nat y + of_nat i) = load k m (of_nat y + of_nat i)"
    if "i + k \<le> 32" for i k
  proof (rule load_cong)
    fix j assume j: "j < k"
    have "(of_nat y + of_nat i + of_nat j :: u64) = of_nat (y + i + j)" by simp
    moreover have "unat (of_nat (y + i + j) :: u64) = y + i + j" "unat (of_nat z :: u64) = z"
      by (rule of_nat_address(1), use assms that j in simp)+
    moreover have "y + i + j \<noteq> z" using assms(3) that j by auto
    ultimately show "(m(of_nat z := v)) (of_nat y + of_nat i + of_nat j) =
        m (of_nat y + of_nat i + of_nat j)" by (metis fun_upd_other)
  qed
  from this [of 0 8] this [of 8 8] this [of 16 8] this [of 24 4] this [of 28 4] show ?thesis
    by (simp add: header_at_def block_size_def block_previous_def block_next_def block_magic_def
        block_free_def load64_def load32_def)
qed

lemma heap_inv_write:
  assumes "heap_inv h m bs" and "(x, t, f) \<in> set (located (unat (heap_base h)) bs)" and "i < t"
  shows "heap_inv h (m(of_nat (x + 32 + i) := v)) bs"
proof -
  let ?a = "unat (heap_base h)" and ?m = "m(of_nat (x + 32 + i) := v)"
  have b: "?a + extent bs < 2 ^ 64" using assms(1) by (simp add: heap_inv_def)
  have "header_at m y = header_at ?m y" if "y \<in> set (addresses ?a bs)" for y
    by (rule header_at_write [symmetric])
      (use addresses_bound [OF that] b located_bound [OF assms(2)] assms(3)
        payload_not_header [OF assms(2,3) that] in simp_all)
  then have "seg (header_at ?m) 0 ?a bs 0 = seg (header_at m) 0 ?a bs 0" by (intro seg_cong) simp
  then show ?thesis using assms(1) by (simp add: heap_inv_def)
qed

text \<open>
  The states a heap can be in: initialised by \<^verbatim>\<open>heap_init\<close> on a valid page allocator, then any
  sequence of allocations, releases of live blocks and writes inside live blocks.
\<close>

inductive heap_reachable :: "heap \<Rightarrow> mem \<Rightarrow> (nat \<times> bool) list \<Rightarrow> bool" where
  init: "pmm_inv q \<Longrightarrow> 0 \<notin> managed_set q \<Longrightarrow> heap_init pages h0 q m0 = (True, h, q', m) \<Longrightarrow>
    heap_reachable h m [(unat (heap_size h) - 32, True)]"
| alloc: "heap_reachable h m bs \<Longrightarrow> kmalloc h sz m = Some (p, m') \<Longrightarrow> p \<noteq> 0 \<Longrightarrow>
    request sz = Some n \<Longrightarrow> first_fit n bs = Some (xs, s, ys) \<Longrightarrow>
    heap_reachable h m' (xs @ carve n s @ ys)"
| release: "heap_reachable h m (xs @ (s, False) # ys) \<Longrightarrow>
    kfree h (of_nat (unat (heap_base h) + extent xs + 32)) m = (True, m') \<Longrightarrow>
    heap_reachable h m' (heap_release xs s ys)"
| client: "heap_reachable h m bs \<Longrightarrow> (x, t, False) \<in> set (located (unat (heap_base h)) bs) \<Longrightarrow> i < t \<Longrightarrow>
    heap_reachable h (m(of_nat (x + 32 + i) := v)) bs"

lemma heap_reachable_inv: "heap_reachable h m bs \<Longrightarrow> heap_inv h m bs"
proof (induction rule: heap_reachable.induct)
  case (init q pages h0 m0 h q' m)
  then show ?case using heap_init_inv by blast
next
  case (alloc h m bs sz p m' n xs s ys)
  have "m' = kmalloc_take (of_nat (unat (heap_base h) + extent xs)) (of_nat n) m"
    using alloc.hyps(2,4,5) kmalloc_refines [OF alloc.IH, of sz] by simp
  then show ?case using kmalloc_inv [OF alloc.IH alloc.hyps(4,5)] by simp
next
  case (release h m xs s ys m')
  then show ?case using kfree_refines [OF release.IH] by auto
next
  case (client h m bs x t i v)
  then show ?case using heap_inv_write by blast
qed

text \<open>A live block stays where it is, apart from the new block, with all its bytes.\<close>

lemma kmalloc_live:
  assumes "heap_inv h m (xs @ (s, True) # ys)" "n \<le> s"
    and l: "(y, t, False) \<in> set (located (unat (heap_base h)) (xs @ (s, True) # ys))"
  defines "b \<equiv> unat (heap_base h) + extent xs" and "z \<equiv> (if n + 48 \<le> s then n else s)"
  shows "(y, t, False) \<in> set (located (unat (heap_base h)) (xs @ carve n s @ ys)) \<and> (y + 32 + t \<le> b \<or> b + 32 + z \<le> y) \<and>
    (\<forall>i<t. kmalloc_take (of_nat b) (of_nat n) m (of_nat (y + 32 + i)) = m (of_nat (y + 32 + i)))"
proof -
  let ?a = "unat (heap_base h)"
  have "(b, s, True) \<in> set (located ?a (xs @ (s, True) # ys))" by (simp add: located_append b_def)
  from located_disjoint [OF l this] have "y + 32 + t \<le> b \<or> b + 32 + z \<le> y" using assms(2) by (auto simp: z_def split: if_splits)
  moreover have "(y, t, False) \<in> set (located ?a xs) \<or> (y, t, False) \<in> set (located (b + 32 + s) ys)"
    using l by (auto simp: located_append b_def)
  ultimately show ?thesis
    using kmalloc_keeps_live(1) [OF assms(1,2) l] assms(2)
    by (auto simp: b_def located_append extent_carve add.assoc)
qed

section \<open>Properties\<close>

text \<open>
  Claim C11. \<^verbatim>\<open>kmalloc\<close> is total, exact and safe on every reachable heap. The walk along the chain
  ends; the result is null exactly when the size is 0, rounds past the address space, or no free
  block holds the rounded size. Otherwise it takes the first free block of the chain that is large
  enough: every block before it is live or too small. The result points at the 16-byte aligned payload
  of that block, which is now live and split off to the rounded size when a header and a payload fit
  behind it. Every block that was live before is still live, does not overlap the new one and keeps all
  its bytes, and the heap is again reachable.
\<close>

theorem kmalloc_correct:
  assumes "heap_reachable h m bs"
  shows "\<exists>p m'. kmalloc h sz m = Some (p, m') \<and>
    (if sz = 0 \<or> 2 ^ 64 \<le> unat sz + 15 \<or>
        list_all (\<lambda>(s, f). \<not> (f \<and> (unat sz + 15) div 16 * 16 \<le> s)) bs
     then p = 0 \<and> m' = m
     else \<exists>x n bs' xs s ys. bs = xs @ (s, True) # ys \<and> (unat sz + 15) div 16 * 16 \<le> s \<and>
       list_all (\<lambda>(z, f). \<not> (f \<and> (unat sz + 15) div 16 * 16 \<le> z)) xs \<and>
       x = unat (heap_base h) + extent xs \<and>
       bs' = (if (unat sz + 15) div 16 * 16 + 48 \<le> s
              then xs @ [(n, False), (s - n - 32, True)] @ ys else xs @ [(n, False)] @ ys) \<and>
       n = (if (unat sz + 15) div 16 * 16 + 48 \<le> s then (unat sz + 15) div 16 * 16 else s) \<and>
       unat p = x + 32 \<and> 16 dvd x \<and> heap_reachable h m' bs' \<and>
       (x, n, False) \<in> set (located (unat (heap_base h)) bs') \<and> unat sz \<le> n \<and>
       (\<forall>y t. (y, t, False) \<in> set (located (unat (heap_base h)) bs) \<longrightarrow>
          (y, t, False) \<in> set (located (unat (heap_base h)) bs') \<and> (y + 32 + t \<le> x \<or> x + 32 + n \<le> y) \<and>
          (\<forall>i<t. m' (of_nat (y + 32 + i)) = m (of_nat (y + 32 + i)))))"
proof (cases "request sz")
  case None
  then show ?thesis
    using kmalloc_refines [OF heap_reachable_inv [OF assms], of sz] by (auto simp: request_def split: if_splits)
next
  case (Some n)
  note inv = heap_reachable_inv [OF assms]
  let ?a = "unat (heap_base h)"
  have n: "n = (unat sz + 15) div 16 * 16" "sz \<noteq> 0" "\<not> 2 ^ 64 \<le> unat sz + 15"
    using Some by (auto simp: request_def split: if_splits)
  show ?thesis
  proof (cases "first_fit n bs")
    case None
    have "kmalloc h sz m = Some (0, m)" using kmalloc_refines [OF inv, of sz] Some None by simp
    moreover have "list_all (\<lambda>(s, f). \<not> (f \<and> (unat sz + 15) div 16 * 16 \<le> s)) bs"
      using None n(1) first_fit_None [of n bs] by simp
    ultimately show ?thesis by auto
  next
    case fit: (Some r)
    obtain xs s ys where r: "first_fit n bs = Some (xs, s, ys)" using fit by (cases r) auto
    note bs = first_fit_Some [OF r]
    define b where "b = ?a + extent xs"
    define m' where "m' = kmalloc_take (of_nat b) (of_nat n) m"
    have k: "kmalloc h sz m = Some (of_nat (b + 32), m')"
      using kmalloc_refines [OF inv, of sz] Some r by (simp add: b_def m'_def)
    have bd: "b + 32 + s < 2 ^ 64" using inv bs by (auto simp: heap_inv_def b_def)
    have up: "unat (of_nat (b + 32) :: u64) = b + 32" by (rule of_nat_address(1)) (use bd in simp)
    then have p0: "(of_nat (b + 32) :: u64) \<noteq> 0" by auto
    have reach: "heap_reachable h m' (xs @ carve n s @ ys)" by (rule heap_reachable.alloc [OF assms k p0 Some r])
    have b16: "16 dvd b"
      using inv bs by (auto simp: heap_inv_def b_def seg_append dest: seg_extent_dvd)
    define z where "z = (if n + 48 \<le> s then n else s)"
    have z: "(b, z, False) \<in> set (located ?a (xs @ carve n s @ ys))" "n \<le> z" "z \<le> s"
      using bs by (auto simp: located_append carve_def b_def z_def)
    have inv': "heap_inv h m (xs @ (s, True) # ys)" using inv bs by simp
    note live = kmalloc_live [OF inv' conjunct1 [OF conjunct2 [OF bs]], folded b_def, folded m'_def z_def]
    have "\<not> list_all (\<lambda>(s, f). \<not> (f \<and> n \<le> s)) bs" using r first_fit_None [of n bs] by simp
    moreover have "unat sz \<le> z" using z(2) n(1) by linarith
    moreover have "xs @ carve n s @ ys = (if n + 48 \<le> s then xs @ [(z, False), (s - z - 32, True)] @ ys else xs @ [(z, False)] @ ys)"
      by (simp add: carve_def z_def)
    ultimately show ?thesis
      unfolding n(1) [symmetric] using n(2,3)
      by (subst if_not_P, simp) (intro exI conjI, rule k, rule bs [THEN conjunct1], use bs up b16 reach z(1) live b_def z_def in auto)
  qed
qed

text \<open>A heap of one page, as \<^verbatim>\<open>heap_init\<close> builds it on the two-page allocator of the examples.\<close>

lemma heap_example:
  "\<exists>h m. heap_reachable h m [(4064, True)] \<and> heap_base h = 0x2000 \<and> heap_size h = 4096"
proof -
  let ?h0 = "\<lparr>heap_base = 0, heap_size = 0, first_block = 0\<rparr>"
  let ?r = "heap_init 1 ?h0 pmm_example (\<lambda>_. 0)"
  have "fst (pmm_alloc_pages 1 pmm_example) = 0x2000" by code_simp
  then obtain q0 where "pmm_alloc_pages 1 pmm_example = (0x2000, q0)"
    by (cases "pmm_alloc_pages 1 pmm_example") auto
  then have ok: "fst ?r" and h: "fst (snd ?r) = \<lparr>heap_base = 0x2000, heap_size = 4096, first_block = 0x2000\<rparr>"
    by (simp_all add: heap_init_def Let_def)
  obtain h q m where r: "?r = (True, h, q, m)" using ok by (cases ?r) auto
  have "heap_reachable h m [(unat (heap_size h) - 32, True)]"
    by (rule heap_reachable.init [OF pmm_example_inv r])
  then show ?thesis using h r by (intro exI [of _ h] exI [of _ m]) simp
qed

theorem kmalloc_correct_witness:
  "\<exists>h m p m'. heap_reachable h m [(4064, True)] \<and> kmalloc h 100 m = Some (p, m') \<and> 32 \<le> unat p"
proof -
  obtain h m where r: "heap_reachable h m [(4064, True)]" using heap_example by blast
  have "\<not> list_all (\<lambda>(s, f). \<not> (f \<and> (unat (100 :: u64) + 15) div 16 * 16 \<le> s)) [(4064, True)]"
    "(100 :: u64) \<noteq> 0" "\<not> 2 ^ 64 \<le> unat (100 :: u64) + 15" by simp_all
  then obtain p m' x where "kmalloc h 100 m = Some (p, m')" "unat p = x + 32"
    using kmalloc_correct [OF r, of 100] by (metis (no_types, lifting))
  then have "kmalloc h 100 m = Some (p, m') \<and> 32 \<le> unat p" by simp
  with r show ?thesis by blast
qed

text \<open>
  Claim C12. \<^verbatim>\<open>kfree\<close> of a live block succeeds, leaves a reachable heap whose chain is the old one
  with the block merged into its free neighbours on both sides, and an immediate second release of
  the same pointer, when the block was not merged away, is refused without effect.
\<close>

theorem kfree_correct:
  assumes "heap_reachable h m (xs @ (s, False) # ys)"
  defines "p \<equiv> of_nat (unat (heap_base h) + extent xs + 32)"
  shows "\<exists>m'. kfree h p m = (True, m') \<and> heap_reachable h m' (heap_release xs s ys) \<and>
    (xs = [] \<or> \<not> snd (last xs) \<longrightarrow> kfree h p m' = (False, m'))"
proof -
  obtain m' where k: "kfree h p m = (True, m')" and inv: "heap_inv h m' (heap_release xs s ys)"
    using kfree_refines [OF heap_reachable_inv [OF assms(1)]] by (auto simp: p_def)
  have reach: "heap_reachable h m' (heap_release xs s ys)"
    by (rule heap_reachable.release [OF assms(1)]) (use k in \<open>simp add: p_def\<close>)
  have "kfree h p m' = (False, m')" if "xs = [] \<or> \<not> snd (last xs)"
  proof -
    obtain u zs where mb: "merge_block s ys = (u, True) # zs"
      using merge_block_props(2,3) [of s ys] by (cases "merge_block s ys") auto
    have "heap_release xs s ys = xs @ (u, True) # zs" using that mb by (auto simp: heap_release_def)
    then show ?thesis using kfree_block [of h m' xs u True zs] inv by (simp add: p_def)
  qed
  with k reach show ?thesis by blast
qed

theorem kfree_correct_witness:
  "\<exists>h m m'. heap_reachable h m ([] @ (112, False) # [(3920, True)]) \<and>
     kfree h (of_nat (unat (heap_base h) + extent [] + 32)) m = (True, m')"
proof -
  obtain h m where r: "heap_reachable h m [(4064, True)]" using heap_example by blast
  have q: "request 100 = Some 112" "first_fit 112 [(4064, True)] = Some ([], 4064, [])"
    by (simp_all add: request_def)
  let ?b = "unat (heap_base h)"
  define m' where "m' = kmalloc_take (of_nat ?b) (of_nat 112) m"
  have k: "kmalloc h 100 m = Some (of_nat (?b + 32), m')"
    using kmalloc_refines [OF heap_reachable_inv [OF r], of 100] q by (simp add: m'_def)
  have "?b + 32 < 2 ^ 64" using heap_reachable_inv [OF r] by (auto simp: heap_inv_def)
  then have p: "(of_nat (?b + 32) :: u64) \<noteq> 0" by (intro of_nat_address(2)) simp_all
  have "heap_reachable h m' ([] @ (112, False) # [(3920, True)])"
    using heap_reachable.alloc [OF r k p q] by (simp add: carve_def)
  from kfree_correct [OF this] this show ?thesis by blast
qed

text \<open>
  Claim C13. The heap stays consistent: in every reachable state \<^verbatim>\<open>heap_validate\<close> accepts the heap, and
  \<^verbatim>\<open>heap_free_bytes\<close> and \<^verbatim>\<open>heap_used_bytes\<close> return and account, with one header per block, for every byte of it.
\<close>

theorem heap_always_valid:
  assumes "heap_reachable h m bs"
  shows "heap_validate h m \<and> (\<exists>f u. heap_free_bytes h m = Some f \<and> heap_used_bytes h m = Some u \<and>
    unat f + unat u + 32 * length bs = unat (heap_size h))"
proof -
  note inv = heap_reachable_inv [OF assms]
  have fb: "first_block h = (if bs = [] then 0 else of_nat (unat (heap_base h)))"
    using inv by (simp add: heap_inv_def of_nat_unat_id)
  have sum: "heap_sum m w (first_block h) 0 = Some (of_nat (bytes_in w bs))" for w
    unfolding fb using inv heap_sum_chain [of m 0 "unat (heap_base h)" bs w 0]
    by (auto simp: heap_inv_def unat_gt_0)
  have e: "bytes_in True bs + bytes_in False bs + 32 * length bs = unat (heap_size h)"
    using bytes_extent [of bs] inv by (simp add: heap_inv_def)
  have "unat (of_nat (bytes_in w bs) :: u64) = bytes_in w bs" for w
    by (rule of_nat_address(1)) (use e unat_u64_less [of "heap_size h"] in \<open>cases w; simp\<close>)
  then show ?thesis
    using sum e heap_inv_validate [OF inv] by (simp add: heap_free_bytes_def heap_used_bytes_def)
qed

theorem heap_always_valid_witness:
  "\<exists>h m. heap_reachable h m [(4064, True)] \<and> heap_validate h m"
proof -
  obtain h m where r: "heap_reachable h m [(4064, True)]" using heap_example by blast
  from heap_always_valid [OF r] r show ?thesis by blast
qed

end
