(* ===== verification/Acpi.thy ===== *)
theory Acpi
  imports Boot_Info Memory
begin

text \<open>
  The discovery of the interrupt controllers, \<^verbatim>\<open>src/acpi.c\<close>: the root pointer that the firmware
  handed over, the extended system description table, and the walk over the variable-length entries
  of the MADT. The tables are read from physical memory. The walk is a pointer loop, so it is a
  \<open>partial_function\<close>: \<open>None\<close> stands for a loop that never ends.
\<close>

section \<open>Data\<close>

record acpi_info =
  local_apic_address :: u64
  io_apic_address :: u64
  io_apic_gsi_base :: u32
  keyboard_gsi :: u32
  mouse_gsi :: u32
  enabled_cpu_count :: u32
  interrupt_override_count :: u32
  madt_flags :: u32
  keyboard_flags :: u16
  mouse_flags :: u16

text \<open>Field offsets of the packed structs \<^verbatim>\<open>rsdp_t\<close>, \<^verbatim>\<open>sdt_header_t\<close> and \<^verbatim>\<open>madt_t\<close>.\<close>

definition rsdp_revision :: "mem \<Rightarrow> u64 \<Rightarrow> u8" where "rsdp_revision m a = m (a + 15)"
definition rsdp_length :: "mem \<Rightarrow> u64 \<Rightarrow> u32" where "rsdp_length m a = load32 m (a + 20)"
definition rsdp_xsdt_address :: "mem \<Rightarrow> u64 \<Rightarrow> u64" where "rsdp_xsdt_address m a = load64 m (a + 24)"
definition sdt_length :: "mem \<Rightarrow> u64 \<Rightarrow> u32" where "sdt_length m a = load32 m (a + 4)"
definition madt_local_apic_address :: "mem \<Rightarrow> u64 \<Rightarrow> u32" where
  "madt_local_apic_address m a = load32 m (a + 36)"
definition madt_table_flags :: "mem \<Rightarrow> u64 \<Rightarrow> u32" where "madt_table_flags m a = load32 m (a + 40)"

abbreviation (input) sizeof_rsdp :: u32 where "sizeof_rsdp \<equiv> 36"
abbreviation (input) sizeof_sdt_header :: u32 where "sizeof_sdt_header \<equiv> 36"
abbreviation (input) sizeof_madt :: u32 where "sizeof_madt \<equiv> 44"

section \<open>Operations\<close>

definition bytes_equal :: "mem \<Rightarrow> u64 \<Rightarrow> string \<Rightarrow> nat \<Rightarrow> bool" where
  "bytes_equal m a s count \<longleftrightarrow> list_all (\<lambda>i. m (a + of_nat i) = of_char (s ! i)) [0..<count]"

definition checksum_ok :: "mem \<Rightarrow> u64 \<Rightarrow> u32 \<Rightarrow> bool" where
  "checksum_ok m a len \<longleftrightarrow> fold (\<lambda>i sum. sum + m (a + of_nat i)) [0..<unat len] 0 = 0"

definition sdt_valid :: "mem \<Rightarrow> u64 \<Rightarrow> bool" where
  "sdt_valid m header \<longleftrightarrow> header \<noteq> 0 \<and> sizeof_sdt_header \<le> sdt_length m header \<and>
    sdt_length m header \<le> 0x100000 \<and> checksum_ok m header (sdt_length m header)"

definition find_madt :: "mem \<Rightarrow> u64 \<Rightarrow> u64 option" where
  "find_madt m rsdp =
    (if rsdp_revision m rsdp < 2 \<or> rsdp_xsdt_address m rsdp = 0 then None
     else
       let xsdt = rsdp_xsdt_address m rsdp in
       if \<not> sdt_valid m xsdt \<or> \<not> bytes_equal m xsdt ''XSDT'' 4 then None
       else
         let payload = sdt_length m xsdt - sizeof_sdt_header in
         if payload mod 8 \<noteq> 0 then None
         else find (\<lambda>candidate. sdt_valid m candidate \<and> bytes_equal m candidate ''APIC'' 4)
           (map (\<lambda>i. load64 m (xsdt + 36 + 8 * of_nat i)) [0..<unat (payload div 8)]))"

text \<open>What one entry of the MADT contributes.\<close>

definition madt_entry :: "mem \<Rightarrow> u64 \<Rightarrow> acpi_info \<Rightarrow> acpi_info" where
  "madt_entry m entry info =
    (let type = m entry; len = m (entry + 1) in
     if type = 0 \<and> 8 \<le> len then
       (if load32 m (entry + 4) AND 3 \<noteq> 0
        then info\<lparr>enabled_cpu_count := enabled_cpu_count info + 1\<rparr> else info)
     else if type = 1 \<and> 12 \<le> len \<and> io_apic_address info = 0 then
       info\<lparr>io_apic_address := ucast (load32 m (entry + 4)), io_apic_gsi_base := load32 m (entry + 8)\<rparr>
     else if type = 2 \<and> 10 \<le> len then
       let info = info\<lparr>interrupt_override_count := interrupt_override_count info + 1\<rparr> in
       if m (entry + 2) = 0 then
         let source = (ucast (m (entry + 3)) :: u32); gsi = load32 m (entry + 4);
             flags = load16 m (entry + 8) in
         if source = 1 then info\<lparr>keyboard_gsi := gsi, keyboard_flags := flags\<rparr>
         else if source = 12 then info\<lparr>mouse_gsi := gsi, mouse_flags := flags\<rparr>
         else info
       else info
     else if type = 5 \<and> 12 \<le> len then info\<lparr>local_apic_address := load64 m (entry + 4)\<rparr>
     else info)"

text \<open>The loop over the entries: whether it ran to the end of the table, and what was collected.\<close>

partial_function (option) madt_walk :: "mem \<Rightarrow> u64 \<Rightarrow> u64 \<Rightarrow> acpi_info \<Rightarrow> (bool \<times> acpi_info) option" where
  "madt_walk m last_byte entry info =
    (if entry + 2 \<le> last_byte then
       if m (entry + 1) < 2 \<or> last_byte < entry + ucast (m (entry + 1)) then Some (False, info)
       else madt_walk m last_byte (entry + ucast (m (entry + 1))) (madt_entry m entry info)
     else Some (True, info))"

definition acpi_defaults :: acpi_info where
  "acpi_defaults = \<lparr>local_apic_address = 0, io_apic_address = 0, io_apic_gsi_base = 0,
     keyboard_gsi = 1, mouse_gsi = 12, enabled_cpu_count = 0, interrupt_override_count = 0,
     madt_flags = 0, keyboard_flags = 0, mouse_flags = 0\<rparr>"

definition acpi_init :: "mem \<Rightarrow> boot_info option \<Rightarrow> (bool \<times> acpi_info) option" where
  "acpi_init m boot_info =
    (case boot_info of None \<Rightarrow> Some (False, acpi_defaults)
     | Some b \<Rightarrow>
       let rsdp = bi_acpi_rsdp b in
       if rsdp = 0 then Some (False, acpi_defaults)
       else if \<not> bytes_equal m rsdp ''RSD PTR '' 8 \<or> \<not> checksum_ok m rsdp 20 \<or>
          rsdp_revision m rsdp < 2 \<or> rsdp_length m rsdp < sizeof_rsdp \<or>
          4096 < rsdp_length m rsdp \<or> \<not> checksum_ok m rsdp (rsdp_length m rsdp)
       then Some (False, acpi_defaults)
       else
         case find_madt m rsdp of None \<Rightarrow> Some (False, acpi_defaults)
         | Some madt \<Rightarrow>
           if sdt_length m madt < sizeof_madt then Some (False, acpi_defaults)
           else
             case madt_walk m (madt + ucast (sdt_length m madt)) (madt + 44)
                 (acpi_defaults\<lparr>local_apic_address := ucast (madt_local_apic_address m madt),
                    madt_flags := madt_table_flags m madt\<rparr>) of
               None \<Rightarrow> None
             | Some (False, info) \<Rightarrow> Some (False, info)
             | Some (True, info) \<Rightarrow>
                 Some (local_apic_address info \<noteq> 0 \<and> enabled_cpu_count info \<noteq> 0, info))"

section \<open>The walk over the entries\<close>

text \<open>
  The reference splitting of a table into entries, on natural addresses: the addresses of the
  entries, and whether they fill the table without a malformed length.
\<close>

function madt_entries :: "mem \<Rightarrow> nat \<Rightarrow> nat \<Rightarrow> nat list \<times> bool" where
  "madt_entries m e a =
    (if a + 2 \<le> e then
       let n = unat (m (of_nat a + 1)) in
       if n < 2 \<or> e < a + n then ([], False)
       else let (xs, ok) = madt_entries m e (a + n) in (a # xs, ok)
     else ([], True))"
  by pat_completeness auto
termination by (relation "measure (\<lambda>(m, e, a). e - a)") auto

declare madt_entries.simps [simp del]

lemma madt_walk_entries:
  assumes "e + 256 \<le> 2 ^ 64" and "a \<le> e"
  shows "madt_walk m (of_nat e) (of_nat a) info =
    Some (snd (madt_entries m e a), fold (madt_entry m) (map of_nat (fst (madt_entries m e a))) info)"
  using assms
proof (induction m e a arbitrary: info rule: madt_entries.induct)
  case (1 m e a)
  define n where "n = unat (m (of_nat a + 1))"
  have n: "n < 256" using unat_u8_less [of "m (of_nat a + 1)"] by (simp add: n_def)
  have ue: "unat (of_nat e :: u64) = e" by (rule unat_of_nat_u64) (use 1 in linarith)
  have ua: "unat (of_nat (a + k) :: u64) = a + k" if "k < 256" for k
    by (rule unat_of_nat_u64) (use 1 that in linarith)
  have s: "(of_nat a :: u64) + ucast (m (of_nat a + 1)) = of_nat (a + n)" by (simp add: n_def)
  have c: "(of_nat a :: u64) + 2 \<le> of_nat e \<longleftrightarrow> a + 2 \<le> e"
    "(of_nat e :: u64) < of_nat (a + n) \<longleftrightarrow> e < a + n"
    using ua [of 2] ua [OF n] ue by (simp_all add: word_le_nat_alt word_less_nat_alt add.commute)
  have d: "m (of_nat a + 1) < 2 \<longleftrightarrow> n < 2" by (simp add: word_less_nat_alt n_def)
  note walk = madt_walk.simps [of m "of_nat e" "of_nat a" info, unfolded s c d]
  note entries = madt_entries.simps [of m e a, unfolded Let_def, folded n_def]
  show ?case
  proof (cases "a + 2 \<le> e \<and> 2 \<le> n \<and> a + n \<le> e")
    case True
    then show ?thesis using 1 by (simp add: walk entries case_prod_beta n_def del: of_nat_add)
  qed (auto simp: walk entries)
qed

section \<open>What the walk collects\<close>

definition entry_is :: "mem \<Rightarrow> u8 \<Rightarrow> u8 \<Rightarrow> u64 \<Rightarrow> bool" where
  "entry_is m type len x \<longleftrightarrow> m x = type \<and> len \<le> m (x + 1)"

definition isa_override :: "mem \<Rightarrow> u8 \<Rightarrow> u64 \<Rightarrow> bool" where
  "isa_override m source x \<longleftrightarrow> entry_is m 2 10 x \<and> m (x + 2) = 0 \<and> m (x + 3) = source"

text \<open>The value of the last entry that satisfies a test, or a default.\<close>

definition last_of :: "('a \<Rightarrow> bool) \<Rightarrow> ('a \<Rightarrow> 'b) \<Rightarrow> 'b \<Rightarrow> 'a list \<Rightarrow> 'b" where
  "last_of P f d xs = (case filter P xs of [] \<Rightarrow> d | ys \<Rightarrow> f (last ys))"

lemma last_of_Nil [simp]: "last_of P f d [] = d"
  by (simp add: last_of_def)

lemma last_of_Cons [simp]: "last_of P f d (x # xs) = last_of P f (if P x then f x else d) xs"
  by (auto simp: last_of_def split: list.splits)

lemma ucast_u8_u32_eq: "(ucast (b :: u8) :: u32) = 1 \<longleftrightarrow> b = 1" "(ucast b :: u32) = 12 \<longleftrightarrow> b = 12"
  by (simp_all add: word_unat_eq_iff)

lemmas madt_entry_defs = madt_entry_def Let_def entry_is_def isa_override_def ucast_u8_u32_eq

lemma fold_madt_entry:
  fixes es info m
  defines "r \<equiv> fold (madt_entry m) es info"
  shows "enabled_cpu_count r = enabled_cpu_count info +
      of_nat (length (filter (\<lambda>x. entry_is m 0 8 x \<and> load32 m (x + 4) AND 3 \<noteq> 0) es))"
    and "interrupt_override_count r = interrupt_override_count info + of_nat (length (filter (entry_is m 2 10) es))"
    and "local_apic_address r =
      last_of (entry_is m 5 12) (\<lambda>x. load64 m (x + 4)) (local_apic_address info) es"
    and "keyboard_gsi r = last_of (isa_override m 1) (\<lambda>x. load32 m (x + 4)) (keyboard_gsi info) es"
    and "keyboard_flags r = last_of (isa_override m 1) (\<lambda>x. load16 m (x + 8)) (keyboard_flags info) es"
    and "mouse_gsi r = last_of (isa_override m 12) (\<lambda>x. load32 m (x + 4)) (mouse_gsi info) es"
    and "mouse_flags r = last_of (isa_override m 12) (\<lambda>x. load16 m (x + 8)) (mouse_flags info) es"
    and "madt_flags r = madt_flags info"
  unfolding r_def by (induction es arbitrary: info) (auto simp: madt_entry_defs)

lemma fold_madt_entry_io_apic_kept:
  "io_apic_address info \<noteq> 0 \<Longrightarrow>
    io_apic_address (fold (madt_entry m) es info) = io_apic_address info \<and>
    io_apic_gsi_base (fold (madt_entry m) es info) = io_apic_gsi_base info"
  by (induction es arbitrary: info) (auto simp: madt_entry_defs)

lemma fold_madt_entry_io_apic:
  assumes "io_apic_address info = 0"
  shows "case find (\<lambda>x. entry_is m 1 12 x \<and> load32 m (x + 4) \<noteq> 0) es of
      None \<Rightarrow> io_apic_address (fold (madt_entry m) es info) = 0
    | Some x \<Rightarrow> io_apic_address (fold (madt_entry m) es info) = ucast (load32 m (x + 4)) \<and>
        io_apic_gsi_base (fold (madt_entry m) es info) = load32 m (x + 8)"
  using assms
proof (induction es arbitrary: info)
  case (Cons x es)
  show ?case
  proof (cases "entry_is m 1 12 x \<and> load32 m (x + 4) \<noteq> 0")
    case True
    have nz: "(ucast (load32 m (x + 4)) :: u64) \<noteq> 0" using True by (simp add: word_unat_eq_iff)
    have "io_apic_address (madt_entry m x info) = ucast (load32 m (x + 4))"
      "io_apic_gsi_base (madt_entry m x info) = load32 m (x + 8)"
      using True Cons.prems by (simp_all add: madt_entry_defs)
    then show ?thesis using True fold_madt_entry_io_apic_kept [of "madt_entry m x info" m es] nz by simp
  next
    case False
    then have "io_apic_address (madt_entry m x info) = 0" using Cons.prems by (auto simp: madt_entry_defs)
    from Cons.IH [OF this] show ?thesis using False by (simp only: find.simps if_False fold_simps)
  qed
qed simp

section \<open>Properties\<close>

definition root_pointer_ok :: "mem \<Rightarrow> u64 \<Rightarrow> bool" where
  "root_pointer_ok m rsdp \<longleftrightarrow> rsdp \<noteq> 0 \<and> bytes_equal m rsdp ''RSD PTR '' 8 \<and> checksum_ok m rsdp 20 \<and>
    2 \<le> rsdp_revision m rsdp \<and> 36 \<le> rsdp_length m rsdp \<and> rsdp_length m rsdp \<le> 4096 \<and>
    checksum_ok m rsdp (rsdp_length m rsdp)"

lemma acpi_init_no_tables:
  "\<not> root_pointer_ok m (bi_acpi_rsdp b) \<or> find_madt m (bi_acpi_rsdp b) = None \<Longrightarrow>
    acpi_init m (Some b) = Some (False, acpi_defaults)"
  by (auto simp: acpi_init_def root_pointer_ok_def Let_def not_le not_less)

lemma acpi_init_walk:
  assumes "root_pointer_ok m (bi_acpi_rsdp b)" and "find_madt m (bi_acpi_rsdp b) = Some madt"
    and "44 \<le> sdt_length m madt" and "unat madt + unat (sdt_length m madt) + 256 \<le> 2 ^ 64"
  defines "es \<equiv> madt_entries m (unat madt + unat (sdt_length m madt)) (unat madt + 44)"
  defines "info \<equiv> fold (madt_entry m) (map of_nat (fst es))
    (acpi_defaults\<lparr>local_apic_address := ucast (madt_local_apic_address m madt),
       madt_flags := madt_table_flags m madt\<rparr>)"
  shows "acpi_init m (Some b) =
    Some (snd es \<and> local_apic_address info \<noteq> 0 \<and> enabled_cpu_count info \<noteq> 0, info)"
proof -
  have a: "(of_nat (unat madt + unat (sdt_length m madt)) :: u64) = madt + ucast (sdt_length m madt)"
    "(of_nat (unat madt + 44) :: u64) = madt + 44" by simp_all
  have "44 \<le> unat (sdt_length m madt)" using assms(3) by (simp add: word_le_nat_alt)
  then show ?thesis
    using madt_walk_entries [OF assms(4), of "unat madt + 44" m, unfolded a] assms(1-3)
    by (auto simp: acpi_init_def root_pointer_ok_def Let_def not_le not_less es_def info_def
      split: bool.splits)
qed

text \<open>
  Claim C21. What \<^verbatim>\<open>acpi_init\<close> reads from well-placed tables is what the MADT says: the walk ends; the call
  succeeds exactly when the entries fill the table, a local APIC address is known and a processor is
  enabled; the processor count is the number of enabled local APIC entries (as a 32-bit count), the
  local APIC address is that of the last override entry or else of the table header, the I/O APIC is
  the first one with an address, and the interrupt lines of keyboard and mouse are those of their
  last ISA overrides, or 1 and 12.
\<close>

theorem acpi_init_reads_madt:
  assumes "root_pointer_ok m (bi_acpi_rsdp b)" and "find_madt m (bi_acpi_rsdp b) = Some madt"
    and "44 \<le> sdt_length m madt" and "unat madt + unat (sdt_length m madt) + 256 \<le> 2 ^ 64"
    and "madt_entries m (unat madt + unat (sdt_length m madt)) (unat madt + 44) = (offsets, complete)"
  defines "es \<equiv> map of_nat offsets"
  shows "\<exists>info. acpi_init m (Some b) =
      Some (complete \<and> local_apic_address info \<noteq> 0 \<and> enabled_cpu_count info \<noteq> 0, info) \<and>
    enabled_cpu_count info =
      of_nat (length (filter (\<lambda>x. entry_is m 0 8 x \<and> load32 m (x + 4) AND 3 \<noteq> 0) es)) \<and>
    local_apic_address info = last_of (entry_is m 5 12) (\<lambda>x. load64 m (x + 4))
      (ucast (madt_local_apic_address m madt)) es \<and>
    keyboard_gsi info = last_of (isa_override m 1) (\<lambda>x. load32 m (x + 4)) 1 es \<and>
    mouse_gsi info = last_of (isa_override m 12) (\<lambda>x. load32 m (x + 4)) 12 es \<and>
    (case find (\<lambda>x. entry_is m 1 12 x \<and> load32 m (x + 4) \<noteq> 0) es of None \<Rightarrow> io_apic_address info = 0
     | Some x \<Rightarrow> io_apic_address info = ucast (load32 m (x + 4)) \<and> io_apic_gsi_base info = load32 m (x + 8))"
proof -
  define init where "init = acpi_defaults\<lparr>local_apic_address := ucast (madt_local_apic_address m madt),
    madt_flags := madt_table_flags m madt\<rparr>"
  have "acpi_init m (Some b) = Some (complete \<and> local_apic_address (fold (madt_entry m) es init) \<noteq> 0 \<and>
      enabled_cpu_count (fold (madt_entry m) es init) \<noteq> 0, fold (madt_entry m) es init)"
    using acpi_init_walk [OF assms(1-4)] assms(5) by (simp add: es_def init_def)
  moreover have "io_apic_address init = 0" by (simp add: init_def acpi_defaults_def)
  note fold_madt_entry_io_apic [OF this, of m es]
  ultimately show ?thesis
    by (intro exI [of _ "fold (madt_entry m) es init"])
      (simp add: fold_madt_entry [of m es init], simp add: init_def acpi_defaults_def)
qed

definition acpi_example :: mem where
  "acpi_example = bytes_at 0x1000
   [82, 83, 68, 32, 80, 84, 82, 32, 61, 65, 82, 71, 85, 83, 32, 2, 0, 0, 0, 0, 36, 0, 0, 0, 0, 32,
    0, 0, 0, 0, 0, 0, 188, 0, 0, 0]
    (bytes_at 0x2000
   [88, 83, 68, 84, 44, 0, 0, 0, 1, 96, 0, 0, 0, 0, 0, 0, 0, 0, 0, 0, 0, 0, 0, 0, 0, 0, 0, 0, 0,
    0, 0, 0, 0, 0, 0, 0, 0, 48, 0, 0, 0, 0, 0, 0]
    (bytes_at 0x3000
   [65, 80, 73, 67, 74, 0, 0, 0, 1, 172, 0, 0, 0, 0, 0, 0, 0, 0, 0, 0, 0, 0, 0, 0, 0, 0, 0, 0, 0,
    0, 0, 0, 0, 0, 0, 0, 0, 0, 224, 254, 1, 0, 0, 0, 0, 8, 0, 0, 1, 0, 0, 0, 1, 12, 0, 0, 0, 0,
    192, 254, 0, 0, 0, 0, 2, 10, 0, 12, 20, 0, 0, 0, 13, 0]
    (\<lambda>_. 0)))"

lemmas acpi_example_bytes = acpi_example_def bytes_at_def

lemma acpi_example_fields:
  "rsdp_revision acpi_example 0x1000 = 2" "rsdp_length acpi_example 0x1000 = 36"
  "rsdp_xsdt_address acpi_example 0x1000 = 0x2000" "sdt_length acpi_example 0x2000 = 44"
  "load64 acpi_example 0x2024 = 0x3000" "sdt_length acpi_example 0x3000 = 74"
  "madt_local_apic_address acpi_example 0x3000 = 0xFEE00000"
  by (simp_all add: rsdp_revision_def rsdp_length_def rsdp_xsdt_address_def sdt_length_def
    madt_local_apic_address_def load32_def load64_def load_numeral acpi_example_bytes)

lemma acpi_example_checksums:
  "checksum_ok acpi_example 0x1000 20" "checksum_ok acpi_example 0x1000 36"
  "checksum_ok acpi_example 0x2000 44" "checksum_ok acpi_example 0x3000 74"
  by code_simp+

lemma acpi_example_signatures:
  "bytes_equal acpi_example 0x1000 ''RSD PTR '' 8" "bytes_equal acpi_example 0x2000 ''XSDT'' 4"
  "bytes_equal acpi_example 0x3000 ''APIC'' 4"
  by code_simp+

lemma acpi_example_tables:
  "root_pointer_ok acpi_example 0x1000" "find_madt acpi_example 0x1000 = Some 0x3000"
  "madt_entries acpi_example 12362 12332 = ([12332, 12340, 12352], True)"
proof -
  note f = acpi_example_fields acpi_example_checksums acpi_example_signatures
  show "root_pointer_ok acpi_example 0x1000" by (simp add: root_pointer_ok_def f)
  have "sdt_valid acpi_example 0x2000" "sdt_valid acpi_example 0x3000" by (simp_all add: sdt_valid_def f)
  then show "find_madt acpi_example 0x1000 = Some 0x3000" by (simp add: find_madt_def f Let_def)
  show "madt_entries acpi_example 12362 12332 = ([12332, 12340, 12352], True)"
    by (simp add: madt_entries.simps acpi_example_bytes)
qed

theorem acpi_init_reads_madt_witness:
  "\<exists>info. acpi_init acpi_example (Some (boot_example\<lparr>bi_acpi_rsdp := 0x1000\<rparr>)) = Some (True, info) \<and>
    enabled_cpu_count info = 1 \<and> mouse_gsi info = 20 \<and> keyboard_gsi info = 1 \<and>
    io_apic_address info = 0xFEC00000"
proof -
  let ?m = acpi_example and ?b = "boot_example\<lparr>bi_acpi_rsdp := 0x1000\<rparr>"
  have e: "load32 ?m 0x3030 = 1" "load32 ?m 0x3038 = 0xFEC00000" "load32 ?m 0x3044 = 20"
    "entry_is ?m 0 8 0x302C" "entry_is ?m 1 12 0x3034" "isa_override ?m 12 0x3040"
    by (simp_all add: load32_def load_numeral entry_is_def isa_override_def acpi_example_bytes)
  have n: "\<not> entry_is ?m 0 8 0x3034" "\<not> entry_is ?m 0 8 0x3040" "\<not> entry_is ?m 1 12 0x302C"
    "\<not> isa_override ?m 12 0x302C" "\<not> isa_override ?m 12 0x3034" "\<not> isa_override ?m 1 0x302C"
    "\<not> isa_override ?m 1 0x3034" "\<not> isa_override ?m 1 0x3040" "\<not> entry_is ?m 5 12 0x302C"
    "\<not> entry_is ?m 5 12 0x3034" "\<not> entry_is ?m 5 12 0x3040"
    by (simp_all add: entry_is_def isa_override_def acpi_example_bytes)
  have "madt_entries ?m (unat (0x3000 :: u64) + unat (sdt_length ?m 0x3000)) (unat (0x3000 :: u64) + 44) =
      ([12332, 12340, 12352], True)" using acpi_example_tables(3) by (simp add: acpi_example_fields)
  from acpi_init_reads_madt [OF _ _ _ _ this, of ?b] show ?thesis
    by (auto simp: acpi_example_tables acpi_example_fields e n)
qed

end
