(* ===== verification/Page_Table.thy ===== *)
theory Page_Table
  imports Pmm Memory Acpi
begin

text \<open>
  The machine state that \<^verbatim>\<open>src/paging.c\<close> works on and its table primitives: physical memory, the page
  allocator, the control registers that the routines of \<^verbatim>\<open>src/cpu.S\<close> write, and the 512 eight-byte
  entries of a table page. \<open>mmu_walk\<close> is what the processor does with the tables (four levels, a
  large page at the third); the properties of the paging code are stated over it.
\<close>

section \<open>State and constants\<close>

record vm =
  vm_memory :: mem
  vm_pmm :: pmm
  vm_table_pages :: u64
  vm_cr0 :: u64
  vm_cr3 :: u64
  vm_msr :: "u32 \<Rightarrow> u64"

abbreviation (input) PAGE_PRESENT :: u64 where "PAGE_PRESENT \<equiv> 0x1"
abbreviation (input) PAGE_WRITABLE :: u64 where "PAGE_WRITABLE \<equiv> 0x2"
abbreviation (input) PAGE_USER :: u64 where "PAGE_USER \<equiv> 0x4"
abbreviation (input) PAGE_PWT :: u64 where "PAGE_PWT \<equiv> 0x8"
abbreviation (input) PAGE_PCD :: u64 where "PAGE_PCD \<equiv> 0x10"
abbreviation (input) PAGE_LARGE :: u64 where "PAGE_LARGE \<equiv> 0x80"
abbreviation (input) PAGE_NX :: u64 where "PAGE_NX \<equiv> 0x8000000000000000"
abbreviation (input) PAGE_ADDRESS_MASK :: u64 where "PAGE_ADDRESS_MASK \<equiv> 0x000FFFFFFFFFF000"
abbreviation (input) LARGE_PAGE_SIZE :: u64 where "LARGE_PAGE_SIZE \<equiv> 0x200000"

section \<open>Processor routines\<close>

definition cpu_load_cr3 :: "u64 \<Rightarrow> vm \<Rightarrow> vm" where "cpu_load_cr3 root s = s\<lparr>vm_cr3 := root\<rparr>"

definition cpu_enable_write_protect :: "vm \<Rightarrow> vm" where
  "cpu_enable_write_protect s = s\<lparr>vm_cr0 := vm_cr0 s OR 0x10000\<rparr>"

text \<open>The instruction \<^verbatim>\<open>cpuid\<close> is a parameter: from a leaf to the registers eax, ebx, ecx, edx.\<close>

definition cpu_has_nx :: "(u32 \<Rightarrow> u32 \<times> u32 \<times> u32 \<times> u32) \<Rightarrow> bool" where
  "cpu_has_nx cpuid =
    (let (eax, _, _, _) = cpuid 0x80000000 in
     if eax < 0x80000001 then False
     else let (_, _, _, edx) = cpuid 0x80000001 in bit edx 20)"

text \<open>Model-specific registers are plain storage.\<close>

definition cpu_rdmsr :: "u32 \<Rightarrow> vm \<Rightarrow> u64" where "cpu_rdmsr msr s = vm_msr s msr"

definition cpu_wrmsr :: "u32 \<Rightarrow> u64 \<Rightarrow> vm \<Rightarrow> vm" where
  "cpu_wrmsr msr v s = s\<lparr>vm_msr := (vm_msr s)(msr := v)\<rparr>"

definition cpu_enable_nx :: "vm \<Rightarrow> vm" where
  "cpu_enable_nx s = s\<lparr>vm_msr := (vm_msr s)(0xC0000080 := vm_msr s 0xC0000080 OR 0x800)\<rparr>"

section \<open>Table entries\<close>

definition entry :: "mem \<Rightarrow> u64 \<Rightarrow> u32 \<Rightarrow> u64" where
  "entry m table index = load64 m (table + 8 * ucast index)"

definition set_entry :: "u64 \<Rightarrow> u32 \<Rightarrow> u64 \<Rightarrow> mem \<Rightarrow> mem" where
  "set_entry table index v m = store64 m (table + 8 * ucast index) v"

definition pml4_index :: "u64 \<Rightarrow> u32" where "pml4_index a = ucast (drop_bit 39 a AND 0x1FF)"
definition pdpt_index :: "u64 \<Rightarrow> u32" where "pdpt_index a = ucast (drop_bit 30 a AND 0x1FF)"
definition pd_index :: "u64 \<Rightarrow> u32" where "pd_index a = ucast (drop_bit 21 a AND 0x1FF)"
definition pt_index :: "u64 \<Rightarrow> u32" where "pt_index a = ucast (drop_bit 12 a AND 0x1FF)"

definition present :: "u64 \<Rightarrow> bool" where "present e \<longleftrightarrow> e AND PAGE_PRESENT \<noteq> 0"
definition user :: "u64 \<Rightarrow> bool" where "user e \<longleftrightarrow> e AND PAGE_USER \<noteq> 0"
definition large :: "u64 \<Rightarrow> bool" where "large e \<longleftrightarrow> e AND PAGE_LARGE \<noteq> 0"
definition target :: "u64 \<Rightarrow> u64" where "target e = e AND PAGE_ADDRESS_MASK"

definition zero_page :: "u64 \<Rightarrow> mem \<Rightarrow> mem" where
  "zero_page address m = fold (\<lambda>i m. set_entry address (of_nat i) 0 m) [0..<512] m"

definition allocate_table :: "vm \<Rightarrow> u64 \<times> vm" where
  "allocate_table s =
    (let (address, q) = pmm_alloc_page (vm_pmm s) in
     if address = 0 then (0, s\<lparr>vm_pmm := q\<rparr>)
     else (address, s\<lparr>vm_pmm := q, vm_memory := zero_page address (vm_memory s),
                      vm_table_pages := vm_table_pages s + 1\<rparr>))"

text \<open>
  The walk of the processor: the leaf entry that maps an address, and whether it is a large page. A
  leaf of the last level maps 4 KiB, a large leaf of the third level 2 MiB.
\<close>

definition mmu_walk :: "mem \<Rightarrow> u64 \<Rightarrow> u64 \<Rightarrow> (u64 \<times> bool) option" where
  "mmu_walk m root a =
    (let e4 = entry m root (pml4_index a) in
     if \<not> present e4 then None
     else let e3 = entry m (target e4) (pdpt_index a) in
     if \<not> present e3 \<or> large e3 then None
     else let e2 = entry m (target e3) (pd_index a) in
     if \<not> present e2 then None
     else if large e2 then Some (e2, True)
     else let e1 = entry m (target e2) (pt_index a) in
     if \<not> present e1 then None else Some (e1, False))"

definition mmu_translate :: "mem \<Rightarrow> u64 \<Rightarrow> u64 \<Rightarrow> u64 option" where
  "mmu_translate m root a = (case mmu_walk m root a of None \<Rightarrow> None
     | Some (e, True) \<Rightarrow> Some ((e AND 0x000FFFFFFFE00000) OR (a AND 0x1FFFFF))
     | Some (e, False) \<Rightarrow> Some (target e OR (a AND 0xFFF)))"

section \<open>Entries of page-aligned tables\<close>

definition table_page :: "u64 \<Rightarrow> bool" where "table_page t \<longleftrightarrow> 4096 dvd unat t"

lemma index_less [simp]: "unat (pml4_index a) < 512" "unat (pdpt_index a) < 512"
  "unat (pd_index a) < 512" "unat (pt_index a) < 512"
proof -
  have "unat (ucast (w AND 0x1FF :: u64) :: u32) < 512" for w
  proof -
    have "unat (w AND mask 9) < 512" by (simp add: word_and_mask_mod)
    then have "unat (w AND 0x1FF) < 512" by (simp add: mask_eq_exp_minus_1)
    then show ?thesis by (simp add: unat_ucast_narrow)
  qed
  then show "unat (pml4_index a) < 512" "unat (pdpt_index a) < 512" "unat (pd_index a) < 512" "unat (pt_index a) < 512"
    by (simp_all add: pml4_index_def pdpt_index_def pd_index_def pt_index_def)
qed

lemma entry_address:
  assumes "table_page t" and "unat i < 512"
  shows "t + 8 * ucast i = of_nat (unat t + 8 * unat i)" and "unat t + 8 * unat i + 8 \<le> 2 ^ 64"
proof -
  show "t + 8 * ucast i = of_nat (unat t + 8 * unat i)" by simp
  have "unat t + 4096 \<le> 2 ^ 64"
  proof -
    obtain k where k: "unat t = 4096 * k" using assms(1) by (auto simp: table_page_def)
    then have "4096 * k < 2 ^ 64" using unat_u64_less [of t] by simp
    then have "k < 2 ^ 52" by simp
    then show ?thesis using k by simp
  qed
  then show "unat t + 8 * unat i + 8 \<le> 2 ^ 64" using assms(2) by simp
qed

lemma entry_set_same [simp]: "entry (set_entry t i v m) t i = v"
  using take_bit_length_eq [of v] by (simp add: entry_def set_entry_def load64_def store64_def load_store_same)

lemma entry_set_other:
  assumes "table_page t" "table_page u" "unat i < 512" "unat j < 512" "(t, i) \<noteq> (u, j)"
  shows "entry (set_entry t i v m) u j = entry m u j"
proof -
  let ?x = "unat t + 8 * unat i" and ?y = "unat u + 8 * unat j"
  have "?x + 8 \<le> ?y \<or> ?y + 8 \<le> ?x"
  proof (cases "t = u")
    case True
    then have "unat i \<noteq> unat j" using assms(5) by (auto simp: word_unat_eq_iff)
    then show ?thesis using True by (cases "unat i < unat j") simp_all
  next
    case False
    then have "unat t \<noteq> unat u" by (simp add: word_unat_eq_iff)
    moreover obtain k l where kl: "unat t = 4096 * k" "unat u = 4096 * l"
      using assms(1,2) unfolding table_page_def by (elim dvdE)
    ultimately consider "k + 1 \<le> l" | "l + 1 \<le> k" by force
    then show ?thesis
    proof cases
      case 1
      then have "4096 * k + 4096 \<le> 4096 * l" by simp
      then show ?thesis using assms(3) kl by simp
    next
      case 2
      then have "4096 * l + 4096 \<le> 4096 * k" by simp
      then show ?thesis using assms(4) kl by simp
    qed
  qed
  then have "apart (of_nat ?x) 8 (of_nat ?y) 8"
    using entry_address(2) [OF assms(1,3)] entry_address(2) [OF assms(2,4)] by (intro apartI) simp_all
  then show ?thesis
    unfolding entry_def set_entry_def load64_def store64_def
      entry_address(1) [OF assms(1,3)] entry_address(1) [OF assms(2,4)]
    by (intro load_store_other) simp_all
qed

lemma entry_set:
  assumes "table_page t" "table_page u" "unat i < 512" "unat j < 512"
  shows "entry (set_entry t i v m) u j = (if (t, i) = (u, j) then v else entry m u j)"
  using entry_set_other [OF assms] by auto

text \<open>Memory outside the table page is not touched.\<close>

lemma set_entry_frame:
  assumes "table_page t" "unat i < 512" "unat x div 4096 \<noteq> unat t div 4096"
  shows "set_entry t i v m x = m x"
proof -
  have "8 \<le> unat (x - (t + 8 * ucast i))"
  proof (rule ccontr)
    assume "\<not> 8 \<le> unat (x - (t + 8 * ucast i))"
    then have d: "unat (x - (t + 8 * ucast i)) < 8" by simp
    have "x = (t + 8 * ucast i) + (x - (t + 8 * ucast i))" by simp
    also have "\<dots> = of_nat (unat t + 8 * unat i + unat (x - (t + 8 * ucast i)))"
      by (simp add: of_nat_unat_id)
    finally have x: "x = of_nat (unat t + 8 * unat i + unat (x - (t + 8 * ucast i)))" .
    have "unat t + 8 * unat i + unat (x - (t + 8 * ucast i)) < 2 ^ 64"
      using d entry_address(2) [OF assms(1,2)] by linarith
    from unat_of_nat_u64 [OF this, folded x]
    have "unat x = unat t + 8 * unat i + unat (x - (t + 8 * ucast i))" .
    moreover obtain k where "unat t = 4096 * k" using assms(1) by (auto simp: table_page_def)
    ultimately show False using assms(2,3) d by simp
  qed
  then show ?thesis by (simp add: set_entry_def store64_def store_apply)
qed

text \<open>Filling a table entry by entry.\<close>

lemma fill_table:
  assumes "table_page t" and "n \<le> 512"
  shows "table_page u \<Longrightarrow> unat j < 512 \<Longrightarrow>
      entry (fold (\<lambda>i m. set_entry t (of_nat i) (f i) m) [0..<n] m) u j =
      (if u = t \<and> unat j < n then f (unat j) else entry m u j)"
    and "unat x div 4096 \<noteq> unat t div 4096 \<Longrightarrow>
      fold (\<lambda>i m. set_entry t (of_nat i) (f i) m) [0..<n] m x = m x"
proof -
  show "entry (fold (\<lambda>i m. set_entry t (of_nat i) (f i) m) [0..<n] m) u j =
      (if u = t \<and> unat j < n then f (unat j) else entry m u j)" if "table_page u" "unat j < 512"
    using assms(2)
  proof (induction n)
    case (Suc n)
    have un: "unat (of_nat n :: u32) = n" using Suc.prems by (simp add: unat_of_nat)
    have "t = u \<and> of_nat n = j \<longleftrightarrow> u = t \<and> unat j = n"
      using un of_nat_unat_id [of j] by auto
    then show ?case
      using Suc entry_set [OF assms(1) that(1) _ that(2), of "of_nat n"] un by (auto simp: less_Suc_eq)
  qed simp
  show "fold (\<lambda>i m. set_entry t (of_nat i) (f i) m) [0..<n] m x = m x"
    if "unat x div 4096 \<noteq> unat t div 4096" using assms(2)
  proof (induction n)
    case (Suc n)
    then show ?case using set_entry_frame [OF assms(1) _ that, of "of_nat n"] by (simp add: unat_of_nat)
  qed simp
qed

lemma zero_page_entry:
  assumes "table_page t" "table_page u" "unat j < 512"
  shows "entry (zero_page t m) u j = (if u = t then 0 else entry m u j)"
  using fill_table(1) [OF assms(1) order_refl assms(2,3), of "\<lambda>_. 0"] assms(3) by (simp add: zero_page_def)

lemma zero_page_frame:
  "table_page t \<Longrightarrow> unat x div 4096 \<noteq> unat t div 4096 \<Longrightarrow> zero_page t m x = m x"
  using fill_table(2) [OF _ order_refl, of t x "\<lambda>_. 0"] by (simp add: zero_page_def)

section \<open>Frame addresses in entries\<close>

text \<open>A page address that fits the address field of an entry.\<close>

definition frame_address :: "u64 \<Rightarrow> bool" where "frame_address a \<longleftrightarrow> a AND PAGE_ADDRESS_MASK = a"

lemma page_address_mask: "PAGE_ADDRESS_MASK = push_bit 12 (mask 40)"
  by (simp add: mask_eq_exp_minus_1)

lemma bit_page_address_mask: "bit PAGE_ADDRESS_MASK n \<longleftrightarrow> 12 \<le> n \<and> n < 52"
  unfolding page_address_mask by (auto simp: bit_simps)

lemma aligned_low_bits: "table_page a \<longleftrightarrow> (\<forall>n<12. \<not> bit a n)"
proof -
  have "table_page a \<longleftrightarrow> take_bit 12 a = 0"
    by (simp only: table_page_def dvd_eq_mod_eq_0 word_unat_eq_iff unsigned_take_bit_eq)
      (simp add: take_bit_eq_mod)
  also have "\<dots> \<longleftrightarrow> (\<forall>n<12. \<not> bit a n)"
    by (auto simp: bit_eq_iff bit_simps)
  finally show ?thesis .
qed

lemma frame_addressI:
  assumes "table_page a" and "unat a < 2 ^ 52"
  shows "frame_address a"
proof -
  have "take_bit 52 a = a"
    using assms(2) by (simp only: word_unat_eq_iff unsigned_take_bit_eq) (simp add: take_bit_eq_mod)
  then have h: "\<not> bit a n" if "52 \<le> n" for n using that by (metis bit_take_bit_iff not_le)
  have l: "\<not> bit a n" if "n < 12" for n using assms(1) that by (simp add: aligned_low_bits)
  show ?thesis unfolding frame_address_def
  proof (rule bit_word_eqI)
    fix n assume "n < LENGTH(64)"
    show "bit (a AND PAGE_ADDRESS_MASK) n = bit a n"
      using h [of n] l [of n] bit_page_address_mask [of n] by (auto simp: bit_and_iff not_le)
  qed
qed

lemma frame_address_table: "frame_address a \<Longrightarrow> table_page a"
  unfolding frame_address_def aligned_low_bits by (metis bit_and_iff bit_page_address_mask not_le)

lemma frame_or_flags:
  assumes "frame_address a" and "f AND PAGE_ADDRESS_MASK = 0"
  shows "(a OR f) AND PAGE_ADDRESS_MASK = a" and "b AND PAGE_ADDRESS_MASK = 0 \<Longrightarrow> (a OR f) AND b = f AND b"
proof -
  show "(a OR f) AND PAGE_ADDRESS_MASK = a"
    using assms by (simp add: frame_address_def bit.conj_disj_distrib2)
  assume b: "b AND PAGE_ADDRESS_MASK = 0"
  have "a AND b = a AND (PAGE_ADDRESS_MASK AND b)"
    using assms(1) by (simp add: frame_address_def and.assoc [symmetric])
  then have "a AND b = 0" using b by (simp add: and.commute)
  then show "(a OR f) AND b = f AND b" by (simp add: bit.conj_disj_distrib2)
qed

lemma frame_or_flags_not:
  assumes "frame_address a" and "f AND PAGE_ADDRESS_MASK = 0"
  shows "(a OR f) AND NOT PAGE_ADDRESS_MASK = f"
proof -
  have "(a OR f) AND NOT PAGE_ADDRESS_MASK = f AND NOT PAGE_ADDRESS_MASK"
    by (rule frame_or_flags(2) [OF assms]) (simp add: and.commute)
  also have "\<dots> = f"
  proof (rule bit_word_eqI)
    fix n assume n: "n < LENGTH(64)"
    have "\<not> (bit f n \<and> bit PAGE_ADDRESS_MASK n)" using assms(2) by (metis bit_0_eq bit_and_iff bot_apply bot_bool_def)
    then show "bit (f AND NOT PAGE_ADDRESS_MASK) n = bit f n" using n by (auto simp: bit_simps)
  qed
  finally show ?thesis .
qed

lemma link_entry:
  assumes "frame_address u"
  shows "present (u OR 7)" "user (u OR 7)" "\<not> large (u OR 7)" "target (u OR 7) = u"
  using frame_or_flags [OF assms, of 7] by (simp_all add: present_def user_def large_def target_def)

lemma zero_entry [simp]: "\<not> present 0" "\<not> user 0" "\<not> large 0"
  by (simp_all add: present_def user_def large_def)

section \<open>Page allocation\<close>

abbreviation page_of :: "u64 \<Rightarrow> nat" where "page_of a \<equiv> unat a div 4096"

text \<open>The allocator after a successful \<^verbatim>\<open>paging_init\<close>: all its pages fit a table entry.\<close>

definition frames_ok :: "pmm \<Rightarrow> bool" where
  "frames_ok q \<longleftrightarrow> pmm_inv q \<and> 0 \<notin> managed_set q \<and> unat (page_count q) \<le> 2 ^ 35"

lemma page_of_inj: "table_page a \<Longrightarrow> table_page b \<Longrightarrow> page_of a = page_of b \<longleftrightarrow> a = b"
  unfolding table_page_def word_unat_eq_iff by (metis dvd_mult_div_cancel)

lemma pmm_alloc_page_cases:
  assumes "frames_ok q"
  obtains (none) "pmm_alloc_page q = (0, q)" "free_set q = {}"
  | (page) a q' where "pmm_alloc_page q = (a, q')" "a \<noteq> 0" "frame_address a" "page_of a \<in> free_set q"
      "frames_ok q'" "managed_set q' = managed_set q" "free_set q' = free_set q - {page_of a}"
proof -
  obtain a q' where e: "pmm_alloc_pages 1 q = (a, q')" by fastforce
  note spec = pmm_alloc_spec [OF _ e]
  consider "a = 0" "q' = q" "\<forall>p. \<not> free_run q 1 p" | p where "unat a = p * 4096" "free_run q 1 p" "free_set q' = free_set q - {p..<p + 1}"
    using spec assms unfolding frames_ok_def by auto
  then show thesis
  proof cases
    case 1
    then have "free_set q = {}" by (auto simp: free_run_def)
    then show ?thesis using none e 1 by (simp add: pmm_alloc_page_def)
  next
    case 2
    have p: "p \<in> free_set q" "page_of a = p" using 2 by (simp_all add: free_run_def)
    then have "p \<in> managed_set q" "p < 2 ^ 35"
      using free_subset_managed managed_set_bound assms by (auto simp: frames_ok_def free_set_def)
    moreover have "p \<noteq> 0" using \<open>p \<in> managed_set q\<close> assms by (metis frames_ok_def)
    ultimately have "p \<noteq> 0" "unat a < 2 ^ 52" using 2(1) by auto
    moreover have "frame_address a" by (rule frame_addressI) (use 2 calculation in \<open>simp_all add: table_page_def\<close>)
    moreover have "{p..<p + 1} = {p}" "a \<noteq> 0" using calculation 2(1) by (auto simp: word_unat_eq_iff)
    ultimately show ?thesis
      using page [of a q'] e spec assms p 2(1,3) by (auto simp: pmm_alloc_page_def frames_ok_def)
  qed
qed

lemma pmm_free_page_used:
  assumes "frames_ok q" and "table_page a" and "page_of a \<in> managed_set q - free_set q"
  obtains q' where "pmm_free_page a q = (True, q')" "frames_ok q'" "managed_set q' = managed_set q"
    "free_set q' = insert (page_of a) (free_set q)"
proof -
  have r: "releasable q a 1" using assms(2,3) by (auto simp: releasable_def table_page_def)
  obtain q' where e: "pmm_release_pages a 1 q = (True, q')" using r by (simp add: pmm_release_eq)
  have "frames_ok q'" "managed_set q' = managed_set q" "free_set q' = insert (page_of a) (free_set q)"
    using pmm_release_spec [OF _ r e] assms(1) by (auto simp: frames_ok_def)
  then show thesis using that e by (simp add: pmm_free_page_def)
qed

end
