(* ===== verification/Paging.thy ===== *)
theory Paging
  imports Page_Table
begin

text \<open>
  The operations of \<^verbatim>\<open>src/paging.c\<close>: the identity map of the kernel with its unmapped stack guard page,
  the marking of device memory as uncached, and the address spaces of user processes, which share
  the kernel's top-level entries and own at most 16 table pages of their own. A table is its physical
  address; the pointer results and the early returns are those of the source.
\<close>

section \<open>Data\<close>

record paging_info =
  pi_root_table :: u64
  pi_mapped_bytes :: u64
  pi_table_pages :: u64
  pi_stack_guard_page :: u64
  pi_nx_enabled :: bool

abbreviation (input) ARGUS_USER_TABLE_MAX_PAGES :: u32 where "ARGUS_USER_TABLE_MAX_PAGES \<equiv> 16"
abbreviation (input) ARGUS_USER_BASE :: u64 where "ARGUS_USER_BASE \<equiv> 0x0000008000000000"
abbreviation (input) EfiMemoryMappedIO :: u32 where "EfiMemoryMappedIO \<equiv> 11"

record paging_user_space =
  us_root_table :: u64
  us_user_base :: u64
  us_table_pages :: "u64 list"
  us_table_page_count :: u32
  us_nx_enabled :: bool

definition zero_user_space :: paging_user_space where
  "zero_user_space = \<lparr>us_root_table = 0, us_user_base = 0, us_table_pages = replicate 16 0,
     us_table_page_count = 0, us_nx_enabled = False\<rparr>"

section \<open>The kernel map\<close>

definition overlaps :: "u64 \<Rightarrow> u64 \<Rightarrow> u64 \<Rightarrow> u64 \<Rightarrow> bool" where
  "overlaps base sz other_base other_size =
    (if sz = 0 \<or> other_size = 0 then False
     else
       let end_address = (if UINT64_MAX - sz < base then UINT64_MAX else base + sz);
           other_end = (if UINT64_MAX - other_size < other_base then UINT64_MAX
                        else other_base + other_size)
       in base < other_end \<and> other_base < end_address)"

definition range_is_mmio :: "boot_info \<Rightarrow> acpi_info \<Rightarrow> u64 \<Rightarrow> bool" where
  "range_is_mmio boot_info acpi base \<longleftrightarrow>
    overlaps base LARGE_PAGE_SIZE (fb_base (bi_framebuffer boot_info)) (fb_size (bi_framebuffer boot_info)) \<or>
    overlaps base LARGE_PAGE_SIZE (local_apic_address acpi) ARGUS_PAGE_SIZE \<or>
    overlaps base LARGE_PAGE_SIZE (io_apic_address acpi) ARGUS_PAGE_SIZE \<or>
    list_ex (\<lambda>descriptor. desc_Type descriptor = EfiMemoryMappedIO \<and>
        desc_NumberOfPages descriptor \<le> UINT64_MAX div ARGUS_PAGE_SIZE \<and>
        overlaps base LARGE_PAGE_SIZE (desc_PhysicalStart descriptor)
          (desc_NumberOfPages descriptor * ARGUS_PAGE_SIZE))
      (map_descriptors (bi_memory_map boot_info))"

text \<open>The test and allocation of an intermediate table, for the kernel's own tables.\<close>

definition ensure_table :: "u64 \<Rightarrow> u32 \<Rightarrow> vm \<Rightarrow> bool \<times> vm" where
  "ensure_table table index s =
    (if present (entry (vm_memory s) table index) then (True, s)
     else let (address, s) = allocate_table s in
       if address = 0 then (False, s)
       else (True, s\<lparr>vm_memory :=
         set_entry table index (address OR PAGE_PRESENT OR PAGE_WRITABLE) (vm_memory s)\<rparr>))"

definition map_large_page :: "u64 \<Rightarrow> u64 \<Rightarrow> u64 \<Rightarrow> vm \<Rightarrow> bool \<times> vm" where
  "map_large_page root physical flags s =
    (let pml4 = root;
         (ok, s) = ensure_table pml4 (pml4_index physical) s in
     if \<not> ok then (False, s)
     else
       let pdpt = entry (vm_memory s) pml4 (pml4_index physical) AND 0x000FFFFFFFFFF000;
           (ok, s) = ensure_table pdpt (pdpt_index physical) s in
       if \<not> ok then (False, s)
       else
         let pd = entry (vm_memory s) pdpt (pdpt_index physical) AND 0x000FFFFFFFFFF000 in
         (True, s\<lparr>vm_memory := set_entry pd (pd_index physical)
           (physical OR flags OR PAGE_PRESENT OR PAGE_WRITABLE OR PAGE_LARGE) (vm_memory s)\<rparr>))"

text \<open>The 512 small entries that replace a large one.\<close>

definition split_large_entry :: "u64 \<Rightarrow> u64 \<Rightarrow> mem \<Rightarrow> mem" where
  "split_large_entry pt large_entry m =
    (let large_base = large_entry AND 0x000FFFFFFFE00000;
         leaf_flags = large_entry AND NOT PAGE_ADDRESS_MASK;
         leaf_flags = leaf_flags AND NOT PAGE_LARGE
     in fold (\<lambda>i m. set_entry pt (of_nat i) ((large_base + of_nat i * ARGUS_PAGE_SIZE) OR leaf_flags) m)
          [0..<512] m)"

definition unmap_4k_page :: "u64 \<Rightarrow> u64 \<Rightarrow> vm \<Rightarrow> bool \<times> vm" where
  "unmap_4k_page root physical s =
    (let pml4 = root; m = vm_memory s in
     if \<not> present (entry m pml4 (pml4_index physical)) then (False, s)
     else let pdpt = entry m pml4 (pml4_index physical) AND PAGE_ADDRESS_MASK in
     if \<not> present (entry m pdpt (pdpt_index physical)) then (False, s)
     else let pd = entry m pdpt (pdpt_index physical) AND PAGE_ADDRESS_MASK in
     if \<not> present (entry m pd (pd_index physical)) then (False, s)
     else if large (entry m pd (pd_index physical)) then
       let large_entry = entry m pd (pd_index physical);
           (pt_address, s) = allocate_table s in
       if pt_address = 0 then (False, s)
       else
         let m = split_large_entry pt_address large_entry (vm_memory s);
             m = set_entry pd (pd_index physical) (pt_address OR PAGE_PRESENT OR PAGE_WRITABLE) m
         in (True, s\<lparr>vm_memory := set_entry pt_address (pt_index physical) 0 m\<rparr>)
     else
       let pt = entry m pd (pd_index physical) AND PAGE_ADDRESS_MASK
       in (True, s\<lparr>vm_memory := set_entry pt (pt_index physical) 0 m\<rparr>))"

definition range_end :: "physical_range \<Rightarrow> u64" where
  "range_end r = (if UINT64_MAX - range_size r < range_base r then UINT64_MAX
     else range_base r + range_size r)"

definition paging_maximum :: "boot_info \<Rightarrow> acpi_info \<Rightarrow> u64" where
  "paging_maximum boot_info acpi =
    fold (\<lambda>candidate maximum. if maximum < candidate then candidate else maximum)
      [range_end (bi_kernel_image boot_info), range_end (bi_boot_info_storage boot_info),
       range_end (bi_kernel_stack boot_info), range_end (bi_pmm_bitmap_storage boot_info),
       range_end (bi_memory_map_storage boot_info),
       range_end \<lparr>range_base = fb_base (bi_framebuffer boot_info), range_size = fb_size (bi_framebuffer boot_info)\<rparr>,
       local_apic_address acpi + ARGUS_PAGE_SIZE, io_apic_address acpi + ARGUS_PAGE_SIZE]
      (bi_pmm_page_count boot_info * ARGUS_PAGE_SIZE)"

definition large_page_flags :: "boot_info \<Rightarrow> acpi_info \<Rightarrow> bool \<Rightarrow> u64 \<Rightarrow> u64" where
  "large_page_flags boot_info acpi nx address =
    (let flags = 0;
         flags = (if nx \<and> \<not> overlaps address LARGE_PAGE_SIZE (range_base (bi_kernel_image boot_info))
                      (range_size (bi_kernel_image boot_info)) then flags OR PAGE_NX else flags)
     in if range_is_mmio boot_info acpi address then flags OR PAGE_PCD OR PAGE_PWT else flags)"

text \<open>The loop over the large pages; it stops at the first table that cannot be allocated.\<close>

fun map_large_pages :: "boot_info \<Rightarrow> acpi_info \<Rightarrow> bool \<Rightarrow> u64 \<Rightarrow> u64 list \<Rightarrow> vm \<Rightarrow> bool \<times> vm" where
  "map_large_pages boot_info acpi nx root [] s = (True, s)"
| "map_large_pages boot_info acpi nx root (address # rest) s =
    (let (ok, s) = map_large_page root address (large_page_flags boot_info acpi nx address) s
     in if ok then map_large_pages boot_info acpi nx root rest s else (False, s))"

definition paging_init ::
    "(u32 \<Rightarrow> u32 \<times> u32 \<times> u32 \<times> u32) \<Rightarrow> boot_info \<Rightarrow> acpi_info \<Rightarrow> vm \<Rightarrow> paging_info option \<times> vm" where
  "paging_init cpuid boot_info acpi s =
    (let stack = bi_kernel_stack boot_info; guard = bi_kernel_stack_guard boot_info in
     if range_size stack < 2 * ARGUS_PAGE_SIZE \<or> range_base guard \<noteq> range_base stack \<or>
        range_size guard \<noteq> ARGUS_PAGE_SIZE \<or> range_base guard AND (ARGUS_PAGE_SIZE - 1) \<noteq> 0 \<or>
        \<not> overlaps (range_base stack) (range_size stack) (range_base guard) (range_size guard)
     then (None, s)
     else
       let maximum = paging_maximum boot_info acpi in
       if maximum = 0 \<or> 0x800000000000 < maximum then (None, s)
       else if UINT64_MAX - (LARGE_PAGE_SIZE - 1) < maximum then (None, s)
       else
         let maximum = (maximum + LARGE_PAGE_SIZE - 1) AND NOT (LARGE_PAGE_SIZE - 1);
             s = s\<lparr>vm_table_pages := 0\<rparr>;
             (root, s) = allocate_table s in
         if root = 0 then (None, s)
         else
           let nx = cpu_has_nx cpuid;
               (ok, s) = map_large_pages boot_info acpi nx root
                 (map (\<lambda>k. of_nat k * LARGE_PAGE_SIZE) [0..<unat (maximum div LARGE_PAGE_SIZE)]) s in
           if \<not> ok then (None, s)
           else
             let (ok, s) = unmap_4k_page root (range_base guard) s in
             if \<not> ok then (None, s)
             else
               let s = (if nx then cpu_enable_nx s else s);
                   s = cpu_enable_write_protect s;
                   s = cpu_load_cr3 root s
               in (Some \<lparr>pi_root_table = root, pi_mapped_bytes = maximum,
                     pi_table_pages = vm_table_pages s, pi_stack_guard_page = range_base guard,
                     pi_nx_enabled = nx\<rparr>, s))"

section \<open>Device memory\<close>

definition mark_entries :: "u64 \<Rightarrow> mem \<Rightarrow> mem" where
  "mark_entries pt m =
    fold (\<lambda>index m. if present (entry m pt (of_nat index))
        then set_entry pt (of_nat index) (entry m pt (of_nat index) OR (PAGE_PCD OR PAGE_PWT)) m
        else m) [0..<512] m"

partial_function (option) mark_mmio_loop :: "u64 \<Rightarrow> u64 \<Rightarrow> u64 \<Rightarrow> mem \<Rightarrow> (bool \<times> mem) option" where
  "mark_mmio_loop pml4 last_address address m =
    (if \<not> present (entry m pml4 (pml4_index address)) then Some (False, m)
     else let pdpt = entry m pml4 (pml4_index address) AND PAGE_ADDRESS_MASK in
     if \<not> present (entry m pdpt (pdpt_index address)) then Some (False, m)
     else let pd = entry m pdpt (pdpt_index address) AND PAGE_ADDRESS_MASK in
     if \<not> present (entry m pd (pd_index address)) then Some (False, m)
     else
       let e = entry m pd (pd_index address);
           m = (if large e then set_entry pd (pd_index address) (e OR (PAGE_PCD OR PAGE_PWT)) m
                else mark_entries (e AND PAGE_ADDRESS_MASK) m) in
       if address = last_address then Some (True, m)
       else mark_mmio_loop pml4 last_address (address + LARGE_PAGE_SIZE) m)"

definition paging_mark_mmio :: "paging_info option \<Rightarrow> u64 \<Rightarrow> u64 \<Rightarrow> vm \<Rightarrow> (bool \<times> vm) option" where
  "paging_mark_mmio paging_info physical sz s =
    (case paging_info of None \<Rightarrow> Some (False, s)
     | Some info \<Rightarrow>
       if pi_root_table info = 0 \<or> sz = 0 \<or> pi_mapped_bytes info \<le> physical \<or>
          UINT64_MAX - physical < sz - 1 \<or> pi_mapped_bytes info < physical + sz
       then Some (False, s)
       else
         let first = physical AND NOT (LARGE_PAGE_SIZE - 1);
             last_address = (physical + sz - 1) AND NOT (LARGE_PAGE_SIZE - 1) in
         case mark_mmio_loop (pi_root_table info) last_address first (vm_memory s) of
           None \<Rightarrow> None
         | Some (False, m) \<Rightarrow> Some (False, s\<lparr>vm_memory := m\<rparr>)
         | Some (True, m) \<Rightarrow> Some (True, cpu_load_cr3 (pi_root_table info) (s\<lparr>vm_memory := m\<rparr>)))"

section \<open>User address spaces\<close>

definition allocate_user_table :: "paging_user_space \<Rightarrow> vm \<Rightarrow> u64 \<times> paging_user_space \<times> vm" where
  "allocate_user_table us s =
    (if ARGUS_USER_TABLE_MAX_PAGES \<le> us_table_page_count us then (0, us, s)
     else
       let (address, q) = pmm_alloc_page (vm_pmm s) in
       if address = 0 then (0, us, s\<lparr>vm_pmm := q\<rparr>)
       else (address,
         us\<lparr>us_table_pages := (us_table_pages us)[unat (us_table_page_count us) := address],
            us_table_page_count := us_table_page_count us + 1\<rparr>,
         s\<lparr>vm_pmm := q, vm_memory := zero_page address (vm_memory s)\<rparr>))"

definition paging_user_space_destroy :: "paging_user_space option \<Rightarrow> vm \<Rightarrow> paging_user_space option \<times> vm" where
  "paging_user_space_destroy user_space s =
    (case user_space of None \<Rightarrow> (None, s)
     | Some us \<Rightarrow>
       (Some zero_user_space,
        s\<lparr>vm_pmm := fold (\<lambda>index q. snd (pmm_free_page (us_table_pages us ! (index - 1)) q))
            (rev [1..<unat (us_table_page_count us) + 1]) (vm_pmm s)\<rparr>))"

definition paging_user_space_create ::
    "paging_info option \<Rightarrow> paging_user_space option \<Rightarrow> vm \<Rightarrow> bool \<times> paging_user_space option \<times> vm" where
  "paging_user_space_create kernel_space user_space s =
    (case (kernel_space, user_space) of
       (Some kern, Some _) \<Rightarrow>
         if pi_root_table kern = 0 then (False, user_space, s)
         else
           let us = zero_user_space\<lparr>us_nx_enabled := pi_nx_enabled kern\<rparr>;
               (root, us, s) = allocate_user_table us s in
           if root = 0 then (False, Some us, s)
           else
             let s = s\<lparr>vm_memory := fold (\<lambda>index m.
                     set_entry root (of_nat index) (entry m (pi_root_table kern) (of_nat index)) m)
                   [0..<512] (vm_memory s)\<rparr>;
                 user_index = ucast (drop_bit 39 ARGUS_USER_BASE) in
             if present (entry (vm_memory s) root user_index) then
               let (us, s) = paging_user_space_destroy (Some us) s in (False, us, s)
             else (True, Some (us\<lparr>us_root_table := root, us_user_base := ARGUS_USER_BASE\<rparr>), s)
     | _ \<Rightarrow> (False, user_space, s))"

text \<open>The test and allocation of an intermediate table, for the tables of a user space.\<close>

definition ensure_user_table ::
    "u64 \<Rightarrow> u32 \<Rightarrow> paging_user_space \<Rightarrow> vm \<Rightarrow> bool \<times> paging_user_space \<times> vm" where
  "ensure_user_table table index us s =
    (if present (entry (vm_memory s) table index) then (True, us, s)
     else
       let (address, us, s) = allocate_user_table us s in
       if address = 0 then (False, us, s)
       else (True, us, s\<lparr>vm_memory := set_entry table index
         (address OR PAGE_PRESENT OR PAGE_WRITABLE OR PAGE_USER) (vm_memory s)\<rparr>))"

definition paging_user_map_page ::
    "paging_user_space option \<Rightarrow> u64 \<Rightarrow> u64 \<Rightarrow> bool \<Rightarrow> bool \<Rightarrow> vm \<Rightarrow> bool \<times> paging_user_space option \<times> vm" where
  "paging_user_map_page user_space virtual_address physical_address writable executable s =
    (case user_space of None \<Rightarrow> (False, None, s)
     | Some us \<Rightarrow>
       if us_root_table us = 0 \<or> virtual_address AND (ARGUS_PAGE_SIZE - 1) \<noteq> 0 \<or>
          physical_address AND (ARGUS_PAGE_SIZE - 1) \<noteq> 0 \<or> virtual_address < us_user_base us \<or>
          us_user_base us + 0x8000000000 \<le> virtual_address
       then (False, Some us, s)
       else
         let pml4 = us_root_table us; i4 = pml4_index virtual_address; i3 = pdpt_index virtual_address;
             i2 = pd_index virtual_address; i1 = pt_index virtual_address;
             (ok, us, s) = ensure_user_table pml4 i4 us s in
         if \<not> ok \<or> \<not> user (entry (vm_memory s) pml4 i4) then (False, Some us, s)
         else
           let pdpt = entry (vm_memory s) pml4 i4 AND PAGE_ADDRESS_MASK;
               (ok, us, s) = ensure_user_table pdpt i3 us s in
           if \<not> ok \<or> \<not> user (entry (vm_memory s) pdpt i3) \<or> large (entry (vm_memory s) pdpt i3)
           then (False, Some us, s)
           else
             let pd = entry (vm_memory s) pdpt i3 AND PAGE_ADDRESS_MASK;
                 (ok, us, s) = ensure_user_table pd i2 us s in
             if \<not> ok \<or> \<not> user (entry (vm_memory s) pd i2) \<or> large (entry (vm_memory s) pd i2)
             then (False, Some us, s)
             else
               let pt = entry (vm_memory s) pd i2 AND PAGE_ADDRESS_MASK in
               if present (entry (vm_memory s) pt i1) then (False, Some us, s)
               else
                 let flags = PAGE_PRESENT OR PAGE_USER;
                     flags = (if writable then flags OR PAGE_WRITABLE else flags);
                     flags = (if \<not> executable \<and> us_nx_enabled us then flags OR PAGE_NX else flags)
                 in (True, Some us,
                     s\<lparr>vm_memory := set_entry pt i1 (physical_address OR flags) (vm_memory s)\<rparr>))"

definition paging_user_translate :: "paging_user_space option \<Rightarrow> u64 \<Rightarrow> mem \<Rightarrow> (u64 \<times> u64) option" where
  "paging_user_translate user_space virtual_address m =
    (case user_space of None \<Rightarrow> None
     | Some us \<Rightarrow>
       if us_root_table us = 0 then None
       else
         let e4 = entry m (us_root_table us) (pml4_index virtual_address) in
         if \<not> present e4 \<or> \<not> user e4 then None
         else let e3 = entry m (e4 AND PAGE_ADDRESS_MASK) (pdpt_index virtual_address) in
         if \<not> present e3 \<or> \<not> user e3 \<or> large e3 then None
         else let e2 = entry m (e3 AND PAGE_ADDRESS_MASK) (pd_index virtual_address) in
         if \<not> present e2 \<or> \<not> user e2 \<or> large e2 then None
         else let e1 = entry m (e2 AND PAGE_ADDRESS_MASK) (pt_index virtual_address) in
         if \<not> present e1 \<or> \<not> user e1 then None
         else Some ((e1 AND PAGE_ADDRESS_MASK) OR (virtual_address AND (ARGUS_PAGE_SIZE - 1)),
                    e1 AND NOT PAGE_ADDRESS_MASK))"

definition paging_user_activate :: "paging_user_space option \<Rightarrow> vm \<Rightarrow> vm" where
  "paging_user_activate user_space s = (case user_space of None \<Rightarrow> s
     | Some us \<Rightarrow> if us_root_table us \<noteq> 0 then cpu_load_cr3 (us_root_table us) s else s)"

definition paging_kernel_activate :: "paging_info option \<Rightarrow> vm \<Rightarrow> vm" where
  "paging_kernel_activate kernel_space s = (case kernel_space of None \<Rightarrow> s
     | Some kern \<Rightarrow> if pi_root_table kern \<noteq> 0 then cpu_load_cr3 (pi_root_table kern) s else s)"

end
