(* ===== verification/User_Space.thy ===== *)
theory User_Space
  imports Paging
begin

text \<open>
  Correctness of the user address spaces of \<^verbatim>\<open>src/paging.c\<close>. The tables of a space form a tree of
  four levels under its root: an intermediate entry is absent or links to one of the space's own
  tables, no table is linked twice, and the root entries outside the user slot carry no user bit. Every
  operation keeps this, whether it succeeds or fails; a page that is mapped translates to its frame
  with exactly the requested rights, and no other translation changes.
\<close>

section \<open>The tree of tables\<close>

text \<open>One step of the walk of \<^verbatim>\<open>paging_user_translate\<close>, and its last.\<close>

definition child :: "mem \<Rightarrow> u64 \<Rightarrow> u32 \<Rightarrow> u64 option" where
  "child m t i = (let e = entry m t i in if present e \<and> user e \<and> \<not> large e then Some (target e) else None)"

definition leaf :: "mem \<Rightarrow> u64 \<Rightarrow> u32 \<Rightarrow> u64 option" where
  "leaf m t i = (let e = entry m t i in if present e \<and> user e then Some e else None)"

text \<open>An intermediate slot of the tree: the root has only the user slot.\<close>

definition slot :: "u64 list \<Rightarrow> (u64 \<Rightarrow> nat) \<Rightarrow> u64 \<Rightarrow> u32 \<Rightarrow> bool" where
  "slot T lvl t i \<longleftrightarrow> t \<in> set T \<and> unat i < 512 \<and> 2 \<le> lvl t \<and> (t = hd T \<longrightarrow> i = 1)"

definition links_ok :: "mem \<Rightarrow> u64 list \<Rightarrow> (u64 \<Rightarrow> nat) \<Rightarrow> bool" where
  "links_ok m T lvl \<longleftrightarrow> (\<forall>t i. slot T lvl t i \<longrightarrow> \<not> present (entry m t i) \<or>
     (\<exists>u\<in>set (tl T). entry m t i = u OR 7 \<and> lvl u = lvl t - 1))"

definition links_inj :: "mem \<Rightarrow> u64 list \<Rightarrow> (u64 \<Rightarrow> nat) \<Rightarrow> bool" where
  "links_inj m T lvl \<longleftrightarrow> (\<forall>t i t' i' u. slot T lvl t i \<and> slot T lvl t' i' \<and>
     entry m t i = u OR 7 \<and> entry m t' i' = u OR 7 \<and> u \<in> set T \<longrightarrow> t = t' \<and> i = i')"

definition root_ok :: "mem \<Rightarrow> u64 \<Rightarrow> bool" where
  "root_ok m root \<longleftrightarrow> (\<forall>i. unat i < 512 \<and> i \<noteq> 1 \<longrightarrow> \<not> user (entry m root i))"

definition leaves_ok :: "mem \<Rightarrow> u64 list \<Rightarrow> (u64 \<Rightarrow> nat) \<Rightarrow> bool" where
  "leaves_ok m T lvl \<longleftrightarrow> (\<forall>t\<in>set T. \<forall>i. unat i < 512 \<and> lvl t = 1 \<and> present (entry m t i) \<longrightarrow> user (entry m t i))"

definition tree_ok :: "mem \<Rightarrow> u64 list \<Rightarrow> (u64 \<Rightarrow> nat) \<Rightarrow> bool" where
  "tree_ok m T lvl \<longleftrightarrow> T \<noteq> [] \<and> distinct T \<and> (\<forall>t\<in>set T. frame_address t \<and> t \<noteq> 0) \<and>
     lvl (hd T) = 4 \<and> (\<forall>t\<in>set (tl T). lvl t \<in> {1, 2, 3}) \<and>
     root_ok m (hd T) \<and> links_ok m T lvl \<and> links_inj m T lvl \<and> leaves_ok m T lvl"

lemma tree_root_kernel:
  "tree_ok m T lvl \<Longrightarrow> unat i < 512 \<Longrightarrow> i \<noteq> 1 \<Longrightarrow> \<not> user (entry m (hd T) i)"
  by (simp add: tree_ok_def root_ok_def)

lemma tree_link:
  "tree_ok m T lvl \<Longrightarrow> slot T lvl t i \<Longrightarrow>
    \<not> present (entry m t i) \<or> (\<exists>u\<in>set (tl T). entry m t i = u OR 7 \<and> lvl u = lvl t - 1)"
  unfolding tree_ok_def links_ok_def by blast

lemma tree_inj:
  assumes "tree_ok m T lvl" "slot T lvl t i" "slot T lvl t' i'" "entry m t i = u OR 7" "entry m t' i' = u OR 7"
    "u \<in> set T"
  shows "t = t' \<and> i = i'"
  using assms unfolding tree_ok_def links_inj_def by blast

lemma tree_tables:
  assumes "tree_ok m T lvl"
  shows "hd T \<in> set T" "lvl (hd T) = 4" "t \<in> set T \<Longrightarrow> frame_address t" "t \<in> set T \<Longrightarrow> t \<noteq> 0" "distinct T"
    "u \<in> set (tl T) \<Longrightarrow> u \<in> set T \<and> u \<noteq> hd T \<and> lvl u \<in> {1, 2, 3}" "t \<in> set T \<Longrightarrow> lvl t \<le> 4"
proof -
  have T: "T \<noteq> []" "distinct T" "\<forall>t\<in>set T. frame_address t \<and> t \<noteq> 0" "lvl (hd T) = 4" "\<forall>t\<in>set (tl T). lvl t \<in> {1, 2, 3}"
    using assms unfolding tree_ok_def by blast+
  then show "hd T \<in> set T" "lvl (hd T) = 4" "t \<in> set T \<Longrightarrow> frame_address t" "t \<in> set T \<Longrightarrow> t \<noteq> 0" "distinct T" by simp_all
  show "u \<in> set T \<and> u \<noteq> hd T \<and> lvl u \<in> {1, 2, 3}" if "u \<in> set (tl T)"
    using T that by (cases T) auto
  show "lvl t \<le> 4" if "t \<in> set T" using T that by (cases T) auto
qed

lemma tree_slot_cases:
  assumes "tree_ok m T lvl" and "slot T lvl t i"
  obtains (absent) "\<not> present (entry m t i)" "child m t i = None"
  | (link) u where "u \<in> set (tl T)" "entry m t i = u OR 7" "lvl u = lvl t - 1" "child m t i = Some u"
proof -
  consider "\<not> present (entry m t i)" | u where "u \<in> set (tl T)" "entry m t i = u OR 7" "lvl u = lvl t - 1"
    using tree_link [OF assms] by blast
  then show thesis
  proof cases
    case 1
    then show ?thesis using absent by (simp add: child_def)
  next
    case 2
    have "frame_address u" using tree_tables [OF assms(1)] 2(1) by simp
    then show ?thesis using link [OF 2] 2(2) by (simp add: child_def link_entry)
  qed
qed

lemma tree_child:
  assumes "tree_ok m T lvl" and "t \<in> set T" and "2 \<le> lvl t" and "unat i < 512" and "child m t i = Some u"
  shows "slot T lvl t i" "u \<in> set T" "u \<noteq> hd T" "lvl u = lvl t - 1" "entry m t i = u OR 7"
proof -
  have "user (entry m t i)" using assms(5) by (simp add: child_def Let_def split: if_splits)
  then have "t = hd T \<longrightarrow> i = 1" using tree_root_kernel [OF assms(1,4)] by blast
  then show s: "slot T lvl t i" using assms by (simp add: slot_def)
  show "u \<in> set T" "u \<noteq> hd T" "lvl u = lvl t - 1" "entry m t i = u OR 7"
    using tree_slot_cases [OF assms(1) s] assms(5) tree_tables(6) [OF assms(1)] by (metis option.simps(3) option.inject)+
qed

text \<open>The last-level table of an address.\<close>

definition walk :: "mem \<Rightarrow> u64 \<Rightarrow> u64 \<Rightarrow> u64 option" where
  "walk m root a = Option.bind (child m root (pml4_index a))
     (\<lambda>t. Option.bind (child m t (pdpt_index a)) (\<lambda>t. child m t (pd_index a)))"

definition page_indices :: "u64 \<Rightarrow> u32 \<times> u32 \<times> u32 \<times> u32" where
  "page_indices a = (pml4_index a, pdpt_index a, pd_index a, pt_index a)"

lemma walk_path:
  assumes "tree_ok m T lvl" and "walk m (hd T) a = Some p"
  obtains t u where "child m (hd T) (pml4_index a) = Some t" "child m t (pdpt_index a) = Some u"
    "child m u (pd_index a) = Some p" "t \<in> set T" "u \<in> set T" "p \<in> set T" "lvl t = 3" "lvl u = 2" "lvl p = 1"
proof -
  obtain t u where c: "child m (hd T) (pml4_index a) = Some t" "child m t (pdpt_index a) = Some u"
    "child m u (pd_index a) = Some p"
    using assms(2) by (auto simp: walk_def bind_eq_Some_conv)
  have h: "hd T \<in> set T" "lvl (hd T) = 4" by (rule tree_tables [OF assms(1)])+
  note 1 = tree_child [OF assms(1) h(1) _ index_less(1) c(1)]
  note 2 = tree_child [OF assms(1) 1(2) _ index_less(2) c(2)]
  note 3 = tree_child [OF assms(1) 2(2) _ index_less(3) c(3)]
  show thesis using that [OF c] 1 2 3 h by simp
qed

lemma walk_inj:
  assumes ok: "tree_ok m T lvl" and a: "walk m (hd T) a = Some p" and b: "walk m (hd T) b = Some p"
  shows "pml4_index a = pml4_index b \<and> pdpt_index a = pdpt_index b \<and> pd_index a = pd_index b"
proof -
  have inj: "t = t' \<and> i = i'" if "child m t i = Some u" "child m t' i' = Some u" "t \<in> set T" "t' \<in> set T"
    "2 \<le> lvl t" "2 \<le> lvl t'" "unat i < 512" "unat i' < 512" for t t' i i' u
  proof -
    note 1 = tree_child [OF ok that(3,5,7,1)] and 2 = tree_child [OF ok that(4,6,8,2)]
    show ?thesis by (rule tree_inj [OF ok 1(1) 2(1) 1(5) 2(5) 1(2)])
  qed
  have h: "hd T \<in> set T" "lvl (hd T) = 4" by (rule tree_tables [OF ok])+
  obtain t u where 1: "child m (hd T) (pml4_index a) = Some t" "child m t (pdpt_index a) = Some u"
    "child m u (pd_index a) = Some p" "t \<in> set T" "u \<in> set T" "lvl t = 3" "lvl u = 2"
    by (rule walk_path [OF ok a])
  obtain t' u' where 2: "child m (hd T) (pml4_index b) = Some t'" "child m t' (pdpt_index b) = Some u'"
    "child m u' (pd_index b) = Some p" "t' \<in> set T" "u' \<in> set T" "lvl t' = 3" "lvl u' = 2"
    by (rule walk_path [OF ok b])
  have e: "u = u' \<and> pd_index a = pd_index b" using inj [OF 1(3) 2(3)] 1 2 by simp
  then have "t = t' \<and> pdpt_index a = pdpt_index b" using inj [OF 1(2), of t' "pdpt_index b"] 1 2 by simp
  then show ?thesis using e inj [OF 1(1), of "hd T" "pml4_index b"] 1 2 h by simp
qed

definition lookup :: "mem \<Rightarrow> u64 \<Rightarrow> u64 \<Rightarrow> u64 option" where
  "lookup m root a = Option.bind (walk m root a) (\<lambda>p. leaf m p (pt_index a))"

lemma paging_user_translate_lookup:
  assumes ok: "tree_ok m T lvl" and root: "us_root_table us = hd T"
  shows "paging_user_translate (Some us) a m =
    map_option (\<lambda>e. (target e OR (a AND 0xFFF), e AND NOT PAGE_ADDRESS_MASK)) (lookup m (hd T) a)"
proof -
  let ?e = "entry m (hd T) (pml4_index a)"
  have nz: "hd T \<noteq> 0" using tree_tables [OF ok] by blast
  have "\<not> large ?e" if "present ?e" "user ?e"
  proof -
    have "pml4_index a = 1" using tree_root_kernel [OF ok index_less(1)] that(2) by blast
    then have "slot T lvl (hd T) (pml4_index a)" using tree_tables [OF ok] by (simp add: slot_def)
    from tree_slot_cases [OF ok this] show ?thesis
      using that(1) tree_tables [OF ok] link_entry(3) by (metis (no_types, lifting))
  qed
  then show ?thesis
    using nz root
    by (auto simp: paging_user_translate_def lookup_def walk_def child_def leaf_def Let_def target_def)
qed

text \<open>Memories that agree on the upper levels have the same tree.\<close>

lemma tree_cong:
  assumes ok: "tree_ok m T lvl"
    and eq: "\<And>t i. t \<in> set T \<Longrightarrow> 2 \<le> lvl t \<Longrightarrow> unat i < 512 \<Longrightarrow> entry m' t i = entry m t i"
    and leaves: "leaves_ok m' T lvl"
  shows "tree_ok m' T lvl" "walk m' (hd T) a = walk m (hd T) a"
proof -
  have h: "hd T \<in> set T" "2 \<le> lvl (hd T)" using tree_tables [OF ok] by simp_all
  have s: "entry m' t i = entry m t i" if "slot T lvl t i" for t i
    using that eq by (simp add: slot_def)
  have "root_ok m' (hd T)" using ok eq [OF h] by (simp add: tree_ok_def root_ok_def)
  moreover have "links_ok m' T lvl" using tree_link [OF ok] s unfolding links_ok_def by metis
  moreover have "links_inj m' T lvl" using tree_inj [OF ok] s unfolding links_inj_def by metis
  ultimately show "tree_ok m' T lvl" using ok leaves unfolding tree_ok_def by blast
  have c: "child m' t i = child m t i" if "t \<in> set T" "2 \<le> lvl t" "unat i < 512" for t i
    using eq [OF that] by (simp add: child_def)
  show "walk m' (hd T) a = walk m (hd T) a"
  proof (cases "child m (hd T) (pml4_index a)")
    case None
    then show ?thesis using c [OF h] by (simp add: walk_def)
  next
    case (Some t)
    note 1 = tree_child [OF ok h index_less(1) Some]
    have l: "2 \<le> lvl t" using 1(4) tree_tables(2) [OF ok] by simp
    show ?thesis
    proof (cases "child m t (pdpt_index a)")
      case None
      then show ?thesis using Some c [OF h] c [OF 1(2) l] by (simp add: walk_def)
    next
      case (Some u)
      note 2 = tree_child [OF ok 1(2) l index_less(2) Some]
      have "2 \<le> lvl u" using 1(4) 2(4) tree_tables(2) [OF ok] by simp
      then show ?thesis
        using Some \<open>child m (hd T) (pml4_index a) = Some t\<close> c [OF h] c [OF 1(2) l] c [OF 2(2)]
        by (simp add: walk_def)
    qed
  qed
qed

text \<open>Linking a fresh empty table keeps the tree and changes no translation.\<close>

lemma tree_extend_ok:
  assumes ok: "tree_ok m T lvl" and sl: "slot T lvl t i"
    and u: "u \<notin> set T" "frame_address u" "u \<noteq> 0"
    and eq: "\<And>x j. x \<in> set T \<Longrightarrow> unat j < 512 \<Longrightarrow>
      entry m' x j = (if x = t \<and> j = i then u OR 7 else entry m x j)"
    and zero: "\<And>j. unat j < 512 \<Longrightarrow> entry m' u j = 0"
  shows "tree_ok m' (T @ [u]) (lvl(u := lvl t - 1))"
proof -
  define k where "k = lvl t - 1"
  let ?T = "T @ [u]" and ?l = "lvl(u := k)"
  note tt = tree_tables [OF ok]
  have T: "hd ?T = hd T" "tl ?T = tl T @ [u]" "T \<noteq> []" using tt(1) by (cases T; simp)+
  have lt: "2 \<le> lvl t" "lvl t \<le> 4" "t \<in> set T" "t \<noteq> u"
    using sl u(1) tt(7) by (auto simp: slot_def)
  have slots: "slot ?T ?l x j \<longleftrightarrow> slot T lvl x j \<or> x = u \<and> unat j < 512 \<and> 2 \<le> k" for x j
    using u(1) tt(1) by (auto simp: slot_def T)
  have lu: "lvl x = ?l x" if "x \<in> set T" for x using that u(1) by auto
  have root: "root_ok m' (hd ?T)"
  proof -
    have "entry m' (hd T) j = entry m (hd T) j" if "unat j < 512" "j \<noteq> 1" for j
      using eq [OF tt(1) that(1)] sl that(2) by (auto simp: slot_def)
    then show ?thesis using tree_root_kernel [OF ok] by (simp add: root_ok_def T)
  qed
  have ent: "entry m' x j = (if x = u then 0 else if x = t \<and> j = i then u OR 7 else entry m x j)"
    if "slot ?T ?l x j" for x j
    using that eq zero u(1) by (auto simp: slots slot_def)
  have links: "links_ok m' ?T ?l" unfolding links_ok_def
  proof (intro allI impI)
    fix x j assume s: "slot ?T ?l x j"
    show "\<not> present (entry m' x j) \<or> (\<exists>v\<in>set (tl ?T). entry m' x j = v OR 7 \<and> ?l v = ?l x - 1)"
    proof (cases "x = u \<or> x = t \<and> j = i")
      case True
      then show ?thesis using ent [OF s] lt(4) by (auto simp: T k_def)
    next
      case False
      then have s': "slot T lvl x j" using s by (auto simp: slots)
      have "?l v = lvl v" if "v \<in> set (tl T)" for v using lu tt(6) [OF that] by simp
      then show ?thesis
        using tree_link [OF ok s'] False ent [OF s] by (fastforce simp: T)
    qed
  qed
  have inj: "links_inj m' ?T ?l" unfolding links_inj_def
  proof (intro allI impI)
    fix x j x' j' v
    assume a: "slot ?T ?l x j \<and> slot ?T ?l x' j' \<and> entry m' x j = v OR 7 \<and> entry m' x' j' = v OR 7 \<and> v \<in> set ?T"
    have fv: "frame_address v" using a tt(3) u(2) by auto
    have nu: "x \<noteq> u" "x' \<noteq> u" using a ent link_entry(1) [OF fv] zero_entry(1) by metis+
    then have s: "slot T lvl x j" "slot T lvl x' j'" using a by (auto simp: slots)
    have vu: "v = u \<longleftrightarrow> x = t \<and> j = i" if "slot T lvl x j" "entry m' x j = v OR 7" for x j
    proof
      assume "x = t \<and> j = i"
      then have "u OR 7 = v OR 7" using that ent [of x j] lt(4) by (auto simp: slots)
      then show "v = u" using link_entry(4) [OF fv] link_entry(4) [OF u(2)] by metis
    next
      assume v: "v = u"
      show "x = t \<and> j = i"
      proof (rule ccontr)
        assume n: "\<not> (x = t \<and> j = i)"
        have "x \<noteq> u" using that(1) u(1) by (auto simp: slot_def)
        then have "entry m x j = u OR 7" using that n ent [of x j] v by (auto simp: slots)
        then show False
          using tree_slot_cases [OF ok that(1)] link_entry(1,4) [OF u(2)] tt(6) u(1) tt(3) link_entry(4)
          by (metis (no_types, lifting))
      qed
    qed
    show "x = x' \<and> j = j'"
    proof (cases "v = u")
      case True
      then show ?thesis using vu [OF s(1)] vu [OF s(2)] a by blast
    next
      case False
      then have "entry m x j = v OR 7" "entry m x' j' = v OR 7"
        using vu [OF s(1)] vu [OF s(2)] ent [of x j] ent [of x' j'] a nu by auto
      then show ?thesis using tree_inj [OF ok s] a False by simp
    qed
  qed
  have leaves: "leaves_ok m' ?T ?l"
  proof -
    have "leaves_ok m T lvl" using ok by (simp add: tree_ok_def)
    then show ?thesis using eq zero lt(1) u(1) by (auto simp: leaves_ok_def)
  qed
  have "\<forall>x\<in>set (tl ?T). ?l x \<in> {1, 2, 3}"
    using tt(6) lt by (auto simp: T k_def)
  moreover have "?l (hd ?T) = 4" using tt(1,2) u(1) by (auto simp: T)
  ultimately show ?thesis
    using root links inj leaves u tt T(3) unfolding tree_ok_def k_def [symmetric] by auto
qed

lemma tree_extend_lookup:
  assumes ok: "tree_ok m T lvl" and sl: "slot T lvl t i" and np: "\<not> present (entry m t i)"
    and u: "u \<notin> set T" "frame_address u"
    and eq: "\<And>x j. x \<in> set T \<Longrightarrow> unat j < 512 \<Longrightarrow>
      entry m' x j = (if x = t \<and> j = i then u OR 7 else entry m x j)"
    and zero: "\<And>j. unat j < 512 \<Longrightarrow> entry m' u j = 0"
  shows "lookup m' (hd T) a = lookup m (hd T) a"
proof -
  note tt = tree_tables [OF ok]
  have c: "child m' x j = (if x = t \<and> j = i then Some u else child m x j)" if "x \<in> set T" "unat j < 512" for x j
    using eq [OF that] link_entry [OF u(2)] by (simp add: child_def)
  have cu: "child m' u j = None" "leaf m' u j = None" if "unat j < 512" for j
    using zero [OF that] by (simp_all add: child_def leaf_def)
  have ct: "child m t i = None" using np by (simp add: child_def)
  have l: "leaf m' x j = leaf m x j" if "x \<in> set T" "unat j < 512" "lvl x = 1" for x j
    using eq [OF that(1,2)] that(3) sl by (auto simp: leaf_def slot_def)
  show ?thesis
  proof (cases "child m (hd T) (pml4_index a)")
    case None
    then show ?thesis using c [OF tt(1) index_less(1)] cu by (simp add: lookup_def walk_def)
  next
    case t3: (Some t3)
    note 1 = tree_child [OF ok tt(1) _ index_less(1) t3]
    have 1: "t3 \<in> set T" "lvl t3 = 3" using 1 tt(2) by simp_all
    have s3: "child m' (hd T) (pml4_index a) = Some t3" using c [OF tt(1) index_less(1)] t3 ct by auto
    show ?thesis
    proof (cases "child m t3 (pdpt_index a)")
      case None
      then show ?thesis using s3 t3 c [OF 1(1) index_less(2)] cu by (simp add: lookup_def walk_def)
    next
      case t2: (Some t2)
      have 2: "t2 \<in> set T" "lvl t2 = 2" using tree_child [OF ok 1(1) _ index_less(2) t2] 1(2) by simp_all
      have s2: "child m' t3 (pdpt_index a) = Some t2" using c [OF 1(1) index_less(2)] t2 ct by auto
      show ?thesis
      proof (cases "child m t2 (pd_index a)")
        case None
        then show ?thesis using s3 t3 s2 t2 c [OF 2(1) index_less(3)] cu by (simp add: lookup_def walk_def)
      next
        case t1: (Some t1)
        have 3: "t1 \<in> set T" "lvl t1 = 1" using tree_child [OF ok 2(1) _ index_less(3) t1] 2(2) by simp_all
        have "child m' t2 (pd_index a) = Some t1" using c [OF 2(1) index_less(3)] t1 ct by auto
        then show ?thesis using s3 t3 s2 t2 t1 l [OF 3(1) index_less(4) 3(2)] by (simp add: lookup_def walk_def)
      qed
    qed
  qed
qed

section \<open>Well-formed user spaces\<close>

definition us_tables :: "paging_user_space \<Rightarrow> u64 list" where
  "us_tables us = take (unat (us_table_page_count us)) (us_table_pages us)"

text \<open>A user space with its level assignment, in a machine whose allocator owns its table pages.\<close>

definition us_inv :: "(u64 \<Rightarrow> nat) \<Rightarrow> paging_user_space \<Rightarrow> vm \<Rightarrow> bool" where
  "us_inv lvl us s \<longleftrightarrow> length (us_table_pages us) = 16 \<and> us_table_page_count us \<le> 16 \<and>
     us_user_base us = ARGUS_USER_BASE \<and> us_root_table us = hd (us_tables us) \<and>
     tree_ok (vm_memory s) (us_tables us) lvl \<and> frames_ok (vm_pmm s) \<and>
     (\<forall>t\<in>set (us_tables us). page_of t \<in> managed_set (vm_pmm s) - free_set (vm_pmm s))"

text \<open>
  What every operation on a user space keeps: its tables only grow, by pages that were free; other
  pages of memory and the top-level entries outside the user slot are untouched.
\<close>

definition us_grows :: "paging_user_space \<Rightarrow> pmm \<Rightarrow> paging_user_space \<Rightarrow> pmm \<Rightarrow> bool" where
  "us_grows us q us' q' \<longleftrightarrow> set (us_tables us) \<subseteq> set (us_tables us') \<and> managed_set q' = managed_set q \<and>
     page_of ` (set (us_tables us') - set (us_tables us)) \<subseteq> free_set q \<and>
     free_set q' = free_set q - page_of ` set (us_tables us')"

definition us_keeps :: "u64 set \<Rightarrow> u64 \<Rightarrow> mem \<Rightarrow> mem \<Rightarrow> bool" where
  "us_keeps T root m m' \<longleftrightarrow> (\<forall>x. page_of x \<notin> page_of ` T \<longrightarrow> m' x = m x) \<and>
     (\<forall>i. unat i < 512 \<and> i \<noteq> 1 \<longrightarrow> entry m' root i = entry m root i)"

definition us_extends :: "paging_user_space \<Rightarrow> vm \<Rightarrow> paging_user_space \<Rightarrow> vm \<Rightarrow> bool" where
  "us_extends us s us' s' \<longleftrightarrow>
     us_root_table us' = us_root_table us \<and> us_user_base us' = us_user_base us \<and>
     us_nx_enabled us' = us_nx_enabled us \<and> vm_cr3 s' = vm_cr3 s \<and>
     us_grows us (vm_pmm s) us' (vm_pmm s') \<and>
     us_keeps (set (us_tables us')) (us_root_table us) (vm_memory s) (vm_memory s')"

lemma us_extends_refl:
  assumes "us_inv lvl us s"
  shows "us_extends us s us s"
proof -
  have "free_set (vm_pmm s) \<inter> page_of ` set (us_tables us) = {}" using assms by (auto simp: us_inv_def)
  then show ?thesis by (auto simp: us_extends_def us_grows_def us_keeps_def)
qed

lemma grow_sets:
  assumes "A \<subseteq> A1" "A1 \<subseteq> A2" "f ` (A1 - A) \<subseteq> F" "f ` (A2 - A1) \<subseteq> F1" "F1 = F - f ` A1" "F2 = F1 - f ` A2"
  shows "A \<subseteq> A2" "f ` (A2 - A) \<subseteq> F" "F2 = F - f ` A2" "f ` A1 \<subseteq> f ` A2"
  using assms by blast+

lemma us_grows_trans:
  assumes "us_grows us q us1 q1" and "us_grows us1 q1 us2 q2"
  shows "us_grows us q us2 q2"
  using assms unfolding us_grows_def
  using grow_sets [of "set (us_tables us)" "set (us_tables us1)" "set (us_tables us2)" page_of
    "free_set q" "free_set q1" "free_set q2"] by simp

lemma us_keeps_trans:
  assumes "us_keeps T root m m1" "us_keeps T' root m1 m2" "T \<subseteq> T'"
  shows "us_keeps T' root m m2"
proof -
  have "page_of x \<notin> page_of ` T" if "page_of x \<notin> page_of ` T'" for x using that assms(3) by blast
  then show ?thesis using assms(1,2) by (simp add: us_keeps_def)
qed

lemma us_extends_trans:
  assumes "us_extends us s us1 s1" and "us_extends us1 s1 us2 s2"
  shows "us_extends us s us2 s2"
  using assms us_grows_trans us_keeps_trans [of "set (us_tables us1)" "us_root_table us"
    "vm_memory s" "vm_memory s1" "set (us_tables us2)" "vm_memory s2"]
  by (simp add: us_extends_def) (metis us_grows_def)

text \<open>A fresh table of a user space.\<close>

lemma allocate_user_table_cases:
  assumes fr: "frames_ok (vm_pmm s)" and len: "length (us_table_pages us) = 16"
  obtains (none) "allocate_user_table us s = (0, us, s)" "16 \<le> unat (us_table_page_count us) \<or> free_set (vm_pmm s) = {}"
  | (page) a us' q' where "allocate_user_table us s = (a, us', s\<lparr>vm_pmm := q', vm_memory := zero_page a (vm_memory s)\<rparr>)"
      "a \<noteq> 0" "frame_address a" "page_of a \<in> free_set (vm_pmm s)" "frames_ok q'"
      "managed_set q' = managed_set (vm_pmm s)" "free_set q' = free_set (vm_pmm s) - {page_of a}"
      "us_tables us' = us_tables us @ [a]" "length (us_table_pages us') = 16" "us_table_page_count us' \<le> 16"
      "us_root_table us' = us_root_table us" "us_user_base us' = us_user_base us" "us_nx_enabled us' = us_nx_enabled us"
      "unat (us_table_page_count us') = unat (us_table_page_count us) + 1"
proof (cases "16 \<le> us_table_page_count us")
  case True
  then show ?thesis using none by (simp add: allocate_user_table_def word_le_nat_alt)
next
  case False
  show ?thesis
  proof (cases rule: pmm_alloc_page_cases [OF fr])
    case 1
    then show ?thesis using none False by (simp add: allocate_user_table_def)
  next
    case (2 a q')
    let ?n = "us_table_page_count us"
    have n: "unat ?n < 16" using False by (simp add: not_le word_less_nat_alt)
    then have n1: "unat (?n + 1) = unat ?n + 1" by (simp add: unat_word_ariths)
    have "take (unat (?n + 1)) ((us_table_pages us)[unat ?n := a]) = us_tables us @ [a]"
      using n len by (simp add: n1 us_tables_def take_Suc_conv_app_nth)
    moreover have "?n + 1 \<le> 16" using n n1 by (simp add: word_le_nat_alt)
    ultimately show ?thesis
      using page [OF _ 2(2-7)] False 2(1,2) len n1 by (simp add: allocate_user_table_def us_tables_def)
  qed
qed

text \<open>One level of the walk of \<^verbatim>\<open>paging_user_map_page\<close>.\<close>

lemma or_flags_7: "a OR PAGE_PRESENT OR PAGE_WRITABLE OR PAGE_USER = a OR (7 :: u64)"
  by (simp add: or.assoc)

lemma ensure_user_table_fresh:
  assumes inv: "us_inv lvl us s" and sl: "slot (us_tables us) lvl t i"
    and a: "a \<noteq> 0" "frame_address a" "page_of a \<in> free_set (vm_pmm s)"
  defines "m' \<equiv> set_entry t i (a OR 7) (zero_page a (vm_memory s))"
  shows "a \<notin> set (us_tables us)"
    and "x \<in> set (us_tables us) \<Longrightarrow> unat j < 512 \<Longrightarrow>
      entry m' x j = (if x = t \<and> j = i then a OR 7 else entry (vm_memory s) x j)"
    and "unat j < 512 \<Longrightarrow> entry m' a j = 0"
    and "page_of y \<notin> page_of ` set (us_tables us @ [a]) \<Longrightarrow> m' y = vm_memory s y"
proof -
  have ok: "tree_ok (vm_memory s) (us_tables us) lvl" using inv by (simp add: us_inv_def)
  have pg: "table_page t" if "t \<in> set (us_tables us)" for t
    using tree_tables(3) [OF ok that] by (rule frame_address_table)
  have ap: "table_page a" using a(2) by (rule frame_address_table)
  have t: "t \<in> set (us_tables us)" "unat i < 512" using sl by (simp_all add: slot_def)
  show na: "a \<notin> set (us_tables us)" using inv a(3) by (auto simp: us_inv_def)
  show "entry m' x j = (if x = t \<and> j = i then a OR 7 else entry (vm_memory s) x j)"
    if "x \<in> set (us_tables us)" "unat j < 512"
    using entry_set [OF pg [OF t(1)] pg [OF that(1)] t(2) that(2)]
      zero_page_entry [OF ap pg [OF that(1)] that(2)] na that(1) by (auto simp: m'_def)
  show "entry m' a j = 0" if "unat j < 512"
    using entry_set [OF pg [OF t(1)] ap t(2) that] zero_page_entry [OF ap ap that] na t(1)
    by (auto simp: m'_def)
  show "m' y = vm_memory s y" if "page_of y \<notin> page_of ` set (us_tables us @ [a])"
  proof -
    have "page_of y \<noteq> page_of t" "page_of y \<noteq> page_of a" using that t(1) by auto
    then show ?thesis
      unfolding m'_def using set_entry_frame [OF pg [OF t(1)] t(2)] zero_page_frame [OF ap] by simp
  qed
qed

lemma ensure_user_table_step:
  assumes inv: "us_inv lvl us s" and sl: "slot (us_tables us) lvl t i"
    and run: "ensure_user_table t i us s = (ok, us', s')"
  obtains lvl' where "us_inv lvl' us' s'" "us_extends us s us' s'"
    "\<And>a. lookup (vm_memory s') (us_root_table us) a = lookup (vm_memory s) (us_root_table us) a"
    "\<And>x. x \<in> set (us_tables us) \<Longrightarrow> lvl' x = lvl x"
    "\<And>x j u. x \<in> set (us_tables us) \<Longrightarrow> unat j < 512 \<Longrightarrow>
       child (vm_memory s) x j = Some u \<Longrightarrow> child (vm_memory s') x j = Some u"
    "ok \<Longrightarrow> \<exists>u\<in>set (tl (us_tables us')). entry (vm_memory s') t i = u OR 7 \<and> lvl' u = lvl t - 1"
proof (cases "present (entry (vm_memory s) t i)")
  case True
  have r: "ok" "us' = us" "s' = s" using run True by (simp_all add: ensure_user_table_def)
  have "tree_ok (vm_memory s) (us_tables us) lvl" using inv by (simp add: us_inv_def)
  from tree_link [OF this sl] True show ?thesis
    using that [of lvl] inv us_extends_refl [OF inv] r by blast
next
  case np: False
  have fl: "frames_ok (vm_pmm s)" "length (us_table_pages us) = 16" using inv by (simp_all add: us_inv_def)
  show ?thesis
  proof (cases rule: allocate_user_table_cases [OF fl])
    case 1
    then have "\<not> ok" "us' = us" "s' = s" using run np by (simp_all add: ensure_user_table_def)
    then show ?thesis using that [of lvl] inv us_extends_refl [OF inv] by blast
  next
    case (2 a us1 q')
    define m' where "m' = set_entry t i (a OR 7) (zero_page a (vm_memory s))"
    have r: "ok" "us' = us1" "s' = s\<lparr>vm_pmm := q', vm_memory := m'\<rparr>"
      using run np 2(1,2) by (simp_all add: ensure_user_table_def or_flags_7 m'_def)
    have tok: "tree_ok (vm_memory s) (us_tables us) lvl" and root: "us_root_table us = hd (us_tables us)"
      using inv by (simp_all add: us_inv_def)
    note f = ensure_user_table_fresh [OF inv sl 2(2-4), folded m'_def]
    let ?l = "lvl(a := lvl t - 1)"
    have T: "hd (us_tables us @ [a]) = hd (us_tables us)" "a \<in> set (tl (us_tables us @ [a]))"
      using tree_tables(1) [OF tok] by (cases "us_tables us"; simp)+
    have "tree_ok m' (us_tables us @ [a]) ?l"
      by (rule tree_extend_ok [OF tok sl f(1) 2(3,2) f(2,3)])
    moreover have "\<forall>x\<in>set (us_tables us @ [a]). page_of x \<in> managed_set q' - free_set q'"
      using inv 2(4,6,7) free_subset_managed by (auto simp: us_inv_def)
    ultimately have i': "us_inv ?l us' s'"
      using inv 2(5,8-12) T(1) unfolding r us_inv_def by simp
    have "us_grows us (vm_pmm s) us1 q'"
      using 2(4,6,7,8) inv by (auto simp: us_grows_def us_inv_def)
    moreover have "us_keeps (set (us_tables us1)) (us_root_table us) (vm_memory s) m'"
      using f(2) [OF tree_tables(1) [OF tok]] f(4) sl root unfolding us_keeps_def 2(8)
      by (auto simp: slot_def)
    ultimately have e: "us_extends us s us' s'" using 2(11-13) by (simp add: us_extends_def r)
    have l: "lookup m' (us_root_table us) b = lookup (vm_memory s) (us_root_table us) b" for b
      unfolding root by (rule tree_extend_lookup [OF tok sl np f(1) 2(3) f(2,3)])
    have t: "entry m' t i = a OR 7" using f(2) [of t i] sl by (simp add: slot_def)
    have c: "child m' x j = Some u" if "x \<in> set (us_tables us)" "unat j < 512" "child (vm_memory s) x j = Some u" for x j u
      using f(2) [OF that(1,2)] that(3) np by (auto simp: child_def Let_def split: if_splits)
    show ?thesis
      by (rule that [OF i' e]) (use l t c T(2) f(1) in \<open>auto simp: r 2(8)\<close>)
  qed
qed

section \<open>Mapping a page\<close>

lemma user_range_index:
  assumes "ARGUS_USER_BASE \<le> a" and "a < ARGUS_USER_BASE + 0x8000000000"
  shows "pml4_index a = 1"
proof -
  have "unat a div 2 ^ 39 = 1"
    using assms by (simp add: word_le_nat_alt word_less_nat_alt div_nat_eqI)
  then have "drop_bit 39 a = 1" by (simp only: word_unat_eq_iff unat_drop_bit_eq) (simp add: drop_bit_eq_div)
  then show ?thesis by (simp add: pml4_index_def)
qed

definition page_flags :: "bool \<Rightarrow> bool \<Rightarrow> bool \<Rightarrow> u64" where
  "page_flags writable executable nx = PAGE_PRESENT OR PAGE_USER OR (if writable then PAGE_WRITABLE else 0) OR
     (if \<not> executable \<and> nx then PAGE_NX else 0)"

text \<open>The last step: writing the leaf of an address.\<close>

lemma write_leaf:
  assumes inv: "us_inv lvl us s" and w: "walk (vm_memory s) (us_root_table us) a = Some p"
    and e: "present e" "user e"
  defines "s' \<equiv> s\<lparr>vm_memory := set_entry p (pt_index a) e (vm_memory s)\<rparr>"
  shows "us_inv lvl us s'" "us_extends us s us s'"
    "lookup (vm_memory s') (us_root_table us) b =
      (if page_indices b = page_indices a then Some e else lookup (vm_memory s) (us_root_table us) b)"
proof -
  have ok: "tree_ok (vm_memory s) (us_tables us) lvl" and root: "us_root_table us = hd (us_tables us)"
    using inv by (simp_all add: us_inv_def)
  obtain p: "p \<in> set (us_tables us)" "lvl p = 1" using walk_path [OF ok w [unfolded root]] by blast
  have pg: "table_page t" if "t \<in> set (us_tables us)" for t
    using tree_tables(3) [OF ok that] by (rule frame_address_table)
  have m': "vm_memory s' = set_entry p (pt_index a) e (vm_memory s)" by (simp add: s'_def)
  have ent: "entry (vm_memory s') x j = (if x = p \<and> j = pt_index a then e else entry (vm_memory s) x j)"
    if "x \<in> set (us_tables us)" "unat j < 512" for x j
    using entry_set [OF pg [OF p(1)] pg [OF that(1)] index_less(4) that(2)] by (auto simp: m')
  note tc = tree_cong [OF ok, of "vm_memory s'"]
  have leaves: "leaves_ok (vm_memory s') (us_tables us) lvl"
    using ok ent e by (auto simp: tree_ok_def leaves_ok_def)
  have up: "entry (vm_memory s') t i = entry (vm_memory s) t i"
    if "t \<in> set (us_tables us)" "2 \<le> lvl t" "unat i < 512" for t i using ent [OF that(1,3)] that(2) p(2) by auto
  have tok: "tree_ok (vm_memory s') (us_tables us) lvl" by (rule tc(1) [OF _ leaves]) (rule up)
  then show i': "us_inv lvl us s'" using inv by (simp add: us_inv_def s'_def)
  have wk: "walk (vm_memory s') (us_root_table us) b = walk (vm_memory s) (us_root_table us) b" for b
    unfolding root by (rule tc(2) [OF _ leaves]) (rule up)
  have "page_of x \<noteq> page_of p" if "page_of x \<notin> page_of ` set (us_tables us)" for x using that p(1) by auto
  then have "us_keeps (set (us_tables us)) (us_root_table us) (vm_memory s) (vm_memory s')"
    using up [OF tree_tables(1) [OF ok]] tree_tables(2) [OF ok] p(1) root
      set_entry_frame [OF pg [OF p(1)] index_less(4)]
    unfolding us_keeps_def m' by auto
  then show "us_extends us s us s'" using us_extends_refl [OF inv] by (simp add: us_extends_def s'_def)
  show "lookup (vm_memory s') (us_root_table us) b =
      (if page_indices b = page_indices a then Some e else lookup (vm_memory s) (us_root_table us) b)"
  proof (cases "page_indices b = page_indices a")
    case True
    then have "walk (vm_memory s) (us_root_table us) b = Some p" "pt_index b = pt_index a"
      using w by (simp_all add: page_indices_def walk_def)
    then show ?thesis using True wk e ent [OF p(1) index_less(4)] by (simp add: lookup_def leaf_def)
  next
    case False
    have "leaf (vm_memory s') r (pt_index b) = leaf (vm_memory s) r (pt_index b)"
      if r: "walk (vm_memory s) (us_root_table us) b = Some r" for r
    proof -
      have "r \<in> set (us_tables us)" using walk_path [OF ok r [unfolded root]] by blast
      moreover have "\<not> (r = p \<and> pt_index b = pt_index a)"
        using False walk_inj [OF ok w [unfolded root], of b] r root by (auto simp: page_indices_def)
      ultimately show ?thesis using ent [of r "pt_index b"] by (auto simp: leaf_def)
    qed
    then show ?thesis using False wk
      by (cases "walk (vm_memory s) (us_root_table us) b") (simp_all add: lookup_def)
  qed
qed

lemma map_flags:
  "(let flags = PAGE_PRESENT OR PAGE_USER;
        flags = (if w then flags OR PAGE_WRITABLE else flags)
    in if \<not> x \<and> nx then flags OR PAGE_NX else flags) = page_flags w x nx"
  by (simp add: page_flags_def)

lemma page_flags_bits:
  "page_flags w x nx AND PAGE_ADDRESS_MASK = 0" "present (pa OR page_flags w x nx)" "user (pa OR page_flags w x nx)"
  by (simp_all add: page_flags_def present_def user_def bit.conj_disj_distrib2 or_eq_0_iff)

text \<open>
  A level of the walk that was reached keeps its link while the deeper ones are created.
\<close>

definition links_kept :: "u64 set \<Rightarrow> mem \<Rightarrow> mem \<Rightarrow> bool" where
  "links_kept T m m' \<longleftrightarrow> (\<forall>x\<in>T. \<forall>j u. unat j < 512 \<longrightarrow> child m x j = Some u \<longrightarrow> child m' x j = Some u)"

lemma links_keptI:
  "(\<And>x j u. x \<in> T \<Longrightarrow> unat j < 512 \<Longrightarrow> child m x j = Some u \<Longrightarrow> child m' x j = Some u) \<Longrightarrow> links_kept T m m'"
  by (simp add: links_kept_def)

lemma links_keptD:
  "links_kept T m m' \<Longrightarrow> x \<in> T \<Longrightarrow> unat j < 512 \<Longrightarrow> child m x j = Some u \<Longrightarrow> child m' x j = Some u"
  by (simp add: links_kept_def)

lemma map_page_descent:
  assumes inv: "us_inv lvl us s" and sl: "slot (us_tables us) lvl t i"
    and run: "ensure_user_table t i us s = (True, us', s')"
  obtains lvl' u where "us_inv lvl' us' s'" "us_extends us s us' s'"
    "\<And>a. lookup (vm_memory s') (us_root_table us) a = lookup (vm_memory s) (us_root_table us) a"
    "links_kept (set (us_tables us)) (vm_memory s) (vm_memory s')"
    "user (entry (vm_memory s') t i)" "\<not> large (entry (vm_memory s') t i)"
    "entry (vm_memory s') t i AND PAGE_ADDRESS_MASK = u" "child (vm_memory s') t i = Some u"
    "lvl' u = lvl t - 1" "u \<noteq> hd (us_tables us')" "u \<in> set (us_tables us')"
proof (rule ensure_user_table_step [OF inv sl run])
  fix lvl' assume h: "us_inv lvl' us' s'" "us_extends us s us' s'"
    "\<And>a. lookup (vm_memory s') (us_root_table us) a = lookup (vm_memory s) (us_root_table us) a"
    "\<And>x. x \<in> set (us_tables us) \<Longrightarrow> lvl' x = lvl x"
    "\<And>x j u. x \<in> set (us_tables us) \<Longrightarrow> unat j < 512 \<Longrightarrow>
       child (vm_memory s) x j = Some u \<Longrightarrow> child (vm_memory s') x j = Some u"
    "True \<Longrightarrow> \<exists>u\<in>set (tl (us_tables us')). entry (vm_memory s') t i = u OR 7 \<and> lvl' u = lvl t - 1"
  then obtain u where u: "u \<in> set (tl (us_tables us'))" "entry (vm_memory s') t i = u OR 7" "lvl' u = lvl t - 1"
    by blast
  have "tree_ok (vm_memory s') (us_tables us') lvl'" using h(1) by (simp add: us_inv_def)
  note tt = tree_tables [OF this]
  have "frame_address u" using tt(3,6) u(1) by blast
  from link_entry [OF this] show thesis
    using that [OF h(1,2,3) links_keptI [OF h(5)], of u] u tt(6) [OF u(1)] by (simp add: target_def child_def)
qed

text \<open>Creating tables without mapping anything.\<close>

definition us_quiet :: "paging_user_space \<Rightarrow> vm \<Rightarrow> paging_user_space \<Rightarrow> vm \<Rightarrow> bool" where
  "us_quiet us s us' s' \<longleftrightarrow> (\<exists>lvl. us_inv lvl us' s') \<and> us_extends us s us' s' \<and>
     (\<forall>a. lookup (vm_memory s') (us_root_table us) a = lookup (vm_memory s) (us_root_table us) a)"

lemma us_quietI: "us_inv lvl us' s' \<Longrightarrow> us_extends us s us' s' \<Longrightarrow>
    (\<And>a. lookup (vm_memory s') (us_root_table us) a = lookup (vm_memory s) (us_root_table us) a) \<Longrightarrow>
    us_quiet us s us' s'"
  unfolding us_quiet_def by blast

lemma us_quiet_trans:
  assumes "us_quiet us s us1 s1" and "us_quiet us1 s1 us2 s2"
  shows "us_quiet us s us2 s2"
proof -
  have e: "us_extends us s us1 s1" "us_extends us1 s1 us2 s2" using assms by (simp_all add: us_quiet_def)
  have "us_root_table us1 = us_root_table us" using e(1) by (simp add: us_extends_def)
  then show ?thesis using assms us_extends_trans [OF e] by (simp add: us_quiet_def)
qed

lemma ensure_user_table_quiet:
  assumes "us_inv lvl us s" and "slot (us_tables us) lvl t i" and "ensure_user_table t i us s = (ok, us', s')"
  shows "us_quiet us s us' s'"
  by (rule ensure_user_table_step [OF assms]) (rule us_quietI)

definition map_guard :: "paging_user_space \<Rightarrow> u64 \<Rightarrow> u64 \<Rightarrow> bool" where
  "map_guard us va pa \<longleftrightarrow> us_root_table us \<noteq> 0 \<and> va AND 0xFFF = 0 \<and> pa AND 0xFFF = 0 \<and>
     \<not> va < us_user_base us \<and> \<not> us_user_base us + 0x8000000000 \<le> va"

text \<open>The branches of \<^verbatim>\<open>paging_user_map_page\<close>, one equation each.\<close>

lemma map_page_refused: "\<not> map_guard us va pa \<Longrightarrow> paging_user_map_page (Some us) va pa w x s = (False, Some us, s)"
  by (auto simp: paging_user_map_page_def map_guard_def)

lemma map_page_level4:
  "map_guard us va pa \<Longrightarrow> ensure_user_table (us_root_table us) (pml4_index va) us s = (False, us1, s1) \<Longrightarrow>
    paging_user_map_page (Some us) va pa w x s = (False, Some us1, s1)"
  by (simp add: paging_user_map_page_def map_guard_def)

lemma map_page_level3:
  "map_guard us va pa \<Longrightarrow> ensure_user_table (us_root_table us) (pml4_index va) us s = (True, us1, s1) \<Longrightarrow>
    user (entry (vm_memory s1) (us_root_table us) (pml4_index va)) \<Longrightarrow>
    entry (vm_memory s1) (us_root_table us) (pml4_index va) AND PAGE_ADDRESS_MASK = u3 \<Longrightarrow>
    ensure_user_table u3 (pdpt_index va) us1 s1 = (False, us2, s2) \<Longrightarrow>
    paging_user_map_page (Some us) va pa w x s = (False, Some us2, s2)"
  by (simp add: paging_user_map_page_def map_guard_def)

lemma map_page_level2:
  assumes "map_guard us va pa" "ensure_user_table (us_root_table us) (pml4_index va) us s = (True, us1, s1)"
    "user (entry (vm_memory s1) (us_root_table us) (pml4_index va))"
    "entry (vm_memory s1) (us_root_table us) (pml4_index va) AND PAGE_ADDRESS_MASK = u3"
    "ensure_user_table u3 (pdpt_index va) us1 s1 = (True, us2, s2)"
    "user (entry (vm_memory s2) u3 (pdpt_index va))" "\<not> large (entry (vm_memory s2) u3 (pdpt_index va))"
    "entry (vm_memory s2) u3 (pdpt_index va) AND PAGE_ADDRESS_MASK = u2"
  shows "ensure_user_table u2 (pd_index va) us2 s2 = (False, us3, s3) \<Longrightarrow>
      paging_user_map_page (Some us) va pa w x s = (False, Some us3, s3)"
    and "ensure_user_table u2 (pd_index va) us2 s2 = (True, us3, s3) \<Longrightarrow>
      user (entry (vm_memory s3) u2 (pd_index va)) \<Longrightarrow> \<not> large (entry (vm_memory s3) u2 (pd_index va)) \<Longrightarrow>
      entry (vm_memory s3) u2 (pd_index va) AND PAGE_ADDRESS_MASK = u1 \<Longrightarrow>
      paging_user_map_page (Some us) va pa w x s =
        (if present (entry (vm_memory s3) u1 (pt_index va)) then (False, Some us3, s3)
         else (True, Some us3, s3\<lparr>vm_memory := set_entry u1 (pt_index va)
           (pa OR page_flags w x (us_nx_enabled us3)) (vm_memory s3)\<rparr>))"
  using assms
  by (simp_all add: paging_user_map_page_def map_guard_def split del: if_split)
    (cases w; cases x; cases "us_nx_enabled us3"; simp add: page_flags_def)

text \<open>How many tables a space can still create.\<close>

definition us_budget :: "paging_user_space \<Rightarrow> vm \<Rightarrow> nat" where
  "us_budget us s = min (16 - unat (us_table_page_count us)) (card (free_set (vm_pmm s)))"

lemma ensure_user_table_budget:
  assumes inv: "us_inv lvl us s" and run: "ensure_user_table t i us s = (ok, us', s')"
  shows "ok \<or> us_budget us s = 0" and "us_budget us s \<le> us_budget us' s' + 1"
proof -
  have fl: "frames_ok (vm_pmm s)" "length (us_table_pages us) = 16" using inv by (simp_all add: us_inv_def)
  have "(ok \<or> us_budget us s = 0) \<and> us_budget us s \<le> us_budget us' s' + 1"
  proof (cases rule: allocate_user_table_cases [OF fl])
    case 1
    then show ?thesis using run by (auto simp: ensure_user_table_def us_budget_def split: if_splits)
  next
    case (2 a us1 q')
    have "card (free_set q') + 1 = card (free_set (vm_pmm s))"
      using 2(4,7) card_Suc_Diff1 [of "free_set (vm_pmm s)" "page_of a"] by simp
    then have "us_budget us s \<le> us_budget us1 (s\<lparr>vm_pmm := q', vm_memory := m\<rparr>) + 1" for m
      using 2(14) by (auto simp: us_budget_def)
    then show ?thesis using run 2(1,2) by (auto simp: ensure_user_table_def split: if_splits)
  qed
  then show "ok \<or> us_budget us s = 0" and "us_budget us s \<le> us_budget us' s' + 1" by simp_all
qed

lemma map_page_cases:
  assumes inv: "us_inv lvl us s" and run: "paging_user_map_page (Some us) va pa w x s = (ok, r, s')"
  obtains (refused) us' where "\<not> ok" "r = Some us'" "us_quiet us s us' s'"
      "map_guard us va pa \<Longrightarrow> us_budget us s < 3 \<or> lookup (vm_memory s) (us_root_table us) va \<noteq> None"
  | (mapped) us1 s1 p lvl1 where "ok" "r = Some us1" "us_quiet us s us1 s1" "us_inv lvl1 us1 s1"
      "walk (vm_memory s1) (us_root_table us1) va = Some p" "\<not> present (entry (vm_memory s1) p (pt_index va))"
      "s' = s1\<lparr>vm_memory := set_entry p (pt_index va) (pa OR page_flags w x (us_nx_enabled us1)) (vm_memory s1)\<rparr>"
      "map_guard us va pa"
proof (cases "map_guard us va pa")
  case False
  have "us_quiet us s us s" by (rule us_quietI [OF inv us_extends_refl [OF inv]]) simp
  then show ?thesis using run map_page_refused [OF False] refused False by auto
next
  case g: True
  have tok: "tree_ok (vm_memory s) (us_tables us) lvl" and root: "us_root_table us = hd (us_tables us)"
    and base: "us_user_base us = ARGUS_USER_BASE" using inv by (simp_all add: us_inv_def)
  have i4: "pml4_index va = 1"
    using g base by (intro user_range_index) (simp_all add: map_guard_def not_le not_less)
  have sl4: "slot (us_tables us) lvl (us_root_table us) (pml4_index va)"
    using tree_tables(1,2) [OF tok] root i4 by (simp add: slot_def)
  obtain ok1 us1 s1 where r1: "ensure_user_table (us_root_table us) (pml4_index va) us s = (ok1, us1, s1)"
    by (metis prod_cases3)
  note q1 = ensure_user_table_quiet [OF inv sl4 r1] and b1 = ensure_user_table_budget [OF inv r1]
  show ?thesis
  proof (cases ok1)
    case False
    then show ?thesis using run map_page_level4 [OF g, of s us1 s1] r1 refused q1 b1 by auto
  next
    case True
    have t1: "ensure_user_table (us_root_table us) (pml4_index va) us s = (True, us1, s1)" using r1 True by simp
    obtain l1 u3 where d1: "us_inv l1 us1 s1" "us_extends us s us1 s1"
      "user (entry (vm_memory s1) (us_root_table us) (pml4_index va))"
      "entry (vm_memory s1) (us_root_table us) (pml4_index va) AND PAGE_ADDRESS_MASK = u3"
      "child (vm_memory s1) (us_root_table us) (pml4_index va) = Some u3"
      "l1 u3 = lvl (us_root_table us) - 1" "u3 \<noteq> hd (us_tables us1)" "u3 \<in> set (us_tables us1)"
      by (rule map_page_descent [OF inv sl4 t1])
    have lv3: "l1 u3 = 3" using d1(6) root tree_tables(2) [OF tok] by simp
    have sl3: "slot (us_tables us1) l1 u3 (pdpt_index va)" using d1(7,8) lv3 by (simp add: slot_def)
    obtain ok2 us2 s2 where r2: "ensure_user_table u3 (pdpt_index va) us1 s1 = (ok2, us2, s2)"
      by (metis prod_cases3)
    have q2: "us_quiet us s us2 s2"
      by (rule us_quiet_trans [OF q1 ensure_user_table_quiet [OF d1(1) sl3 r2]])
    note b2 = ensure_user_table_budget [OF d1(1) r2]
    note e3 = map_page_level3 [OF g t1 d1(3,4)]
    show ?thesis
    proof (cases ok2)
      case False
      then show ?thesis using run e3 [of us2 s2] r2 refused q2 b1 b2 by auto
    next
      case True
      then have t2: "ensure_user_table u3 (pdpt_index va) us1 s1 = (True, us2, s2)" using r2 by simp
      obtain l2 u2 where d2: "us_inv l2 us2 s2" "us_extends us1 s1 us2 s2"
        "links_kept (set (us_tables us1)) (vm_memory s1) (vm_memory s2)"
        "user (entry (vm_memory s2) u3 (pdpt_index va))" "\<not> large (entry (vm_memory s2) u3 (pdpt_index va))"
        "entry (vm_memory s2) u3 (pdpt_index va) AND PAGE_ADDRESS_MASK = u2"
        "child (vm_memory s2) u3 (pdpt_index va) = Some u2" "l2 u2 = l1 u3 - 1"
        "u2 \<noteq> hd (us_tables us2)" "u2 \<in> set (us_tables us2)"
        by (rule map_page_descent [OF d1(1) sl3 t2])
      have sl2: "slot (us_tables us2) l2 u2 (pd_index va)" using d2(8-10) lv3 by (simp add: slot_def)
      obtain ok3 us3 s3 where r3: "ensure_user_table u2 (pd_index va) us2 s2 = (ok3, us3, s3)"
        by (metis prod_cases3)
      have q3: "us_quiet us s us3 s3"
        by (rule us_quiet_trans [OF q2 ensure_user_table_quiet [OF d2(1) sl2 r3]])
      note b3 = ensure_user_table_budget [OF d2(1) r3]
      note e2 = map_page_level2 [OF g t1 d1(3,4) t2 d2(4-6)]
      show ?thesis
      proof (cases ok3)
        case False
        then show ?thesis using run e2(1) [of us3 s3] r3 refused q3 b1 b2 b3 by auto
      next
        case True
        then have t3: "ensure_user_table u2 (pd_index va) us2 s2 = (True, us3, s3)" using r3 by simp
        obtain l3 u1 where d3: "us_inv l3 us3 s3" "us_extends us2 s2 us3 s3"
          "links_kept (set (us_tables us2)) (vm_memory s2) (vm_memory s3)"
          "user (entry (vm_memory s3) u2 (pd_index va))" "\<not> large (entry (vm_memory s3) u2 (pd_index va))"
          "entry (vm_memory s3) u2 (pd_index va) AND PAGE_ADDRESS_MASK = u1"
          "child (vm_memory s3) u2 (pd_index va) = Some u1"
          by (rule map_page_descent [OF d2(1) sl2 t3])
        have sub: "us_root_table us \<in> set (us_tables us1)" "us_root_table us \<in> set (us_tables us2)"
          "u3 \<in> set (us_tables us2)" "us_root_table us3 = us_root_table us"
          using d1(2) d2(2) d3(2) d1(8) tree_tables(1) [OF tok] root
          by (auto simp: us_extends_def us_grows_def)
        have wk: "walk (vm_memory s3) (us_root_table us3) va = Some u1"
          using links_keptD [OF d3(3) sub(2) index_less(1) links_keptD [OF d2(3) sub(1) index_less(1) d1(5)]]
            links_keptD [OF d3(3) sub(3) index_less(2) d2(7)] d3(7) sub(4) by (simp add: walk_def)
        have ok3: "tree_ok (vm_memory s3) (us_tables us3) l3" and root3: "us_root_table us3 = hd (us_tables us3)"
          using d3(1) by (simp_all add: us_inv_def)
        have "u1 \<in> set (us_tables us3)" "l3 u1 = 1" using walk_path [OF ok3 wk [unfolded root3]] by blast+
        then have "lookup (vm_memory s3) (us_root_table us) va \<noteq> None"
          if "present (entry (vm_memory s3) u1 (pt_index va))"
          using that wk sub(4) ok3 by (simp add: lookup_def leaf_def tree_ok_def leaves_ok_def)
        then have "lookup (vm_memory s) (us_root_table us) va \<noteq> None"
          if "present (entry (vm_memory s3) u1 (pt_index va))" using that q3 by (simp add: us_quiet_def)
        then show ?thesis
          using run e2(2) [OF t3 d3(4-6)] refused [of us3] q3 mapped [OF _ _ q3 d3(1) wk _ _ g]
          by (auto split: if_splits)
      qed
    qed
  qed
qed

text \<open>
  Claim C15. Mapping a page of a user space and translating it agree. Whatever \<^verbatim>\<open>paging_user_map_page\<close>
  returns, the space stays well formed, its tables grow only by pages that were free, and no other
  page of memory and no top-level entry of the kernel changes. A refused call changes no translation.
  An accepted call happens only for page-aligned addresses inside the user window that were not mapped,
  and afterwards exactly that page translates anew: to the given frame, with the user and present
  flags, writable as asked, and non-executable unless asked for (where the processor has the bit).
  Such a request is accepted whenever the space can still create three tables.
\<close>

theorem user_map_translate:
  assumes "us_inv lvl us s" and "paging_user_map_page (Some us) va pa w x s = (ok, r, s')"
    and "unat pa < 2 ^ 52"
  shows "\<exists>us' lvl'. r = Some us' \<and> us_inv lvl' us' s' \<and> us_extends us s us' s' \<and>
    (\<forall>a. paging_user_translate r a (vm_memory s') =
      (if ok \<and> page_indices a = page_indices va
       then Some (pa OR (a AND 0xFFF), page_flags w x (us_nx_enabled us))
       else paging_user_translate (Some us) a (vm_memory s))) \<and>
    (ok \<longrightarrow> ARGUS_USER_BASE \<le> va \<and> va < ARGUS_USER_BASE + 0x8000000000 \<and> va AND 0xFFF = 0 \<and>
       paging_user_translate (Some us) va (vm_memory s) = None) \<and>
    (map_guard us va pa \<and> 3 \<le> us_budget us s \<and> paging_user_translate (Some us) va (vm_memory s) = None \<longrightarrow> ok)"
proof -
  have tr: "paging_user_translate (Some us) a (vm_memory s) = map_option (\<lambda>e. (target e OR (a AND 0xFFF),
      e AND NOT PAGE_ADDRESS_MASK)) (lookup (vm_memory s) (us_root_table us) a)"
    if "us_inv lvl us s" for lvl us s a
    using that paging_user_translate_lookup [of "vm_memory s" "us_tables us" lvl us a] by (simp add: us_inv_def)
  show ?thesis
  proof (cases rule: map_page_cases [OF assms(1,2)])
    case (1 us')
    then obtain l' where "us_inv l' us' s'" by (auto simp: us_quiet_def)
    then show ?thesis using 1 tr [OF assms(1)] tr [of l' us' s']
      by (intro exI [of _ us'] exI [of _ l']) (auto simp: us_quiet_def us_extends_def)
  next
    case (2 us1 s1 p l1)
    let ?e = "pa OR page_flags w x (us_nx_enabled us1)"
    note wl = write_leaf [OF 2(4,5) page_flags_bits(2,3) [of pa w x "us_nx_enabled us1"], folded 2(7)]
    have q: "us_extends us s us1 s1" "us_nx_enabled us1 = us_nx_enabled us" "us_root_table us1 = us_root_table us"
      using 2(3) by (simp_all add: us_quiet_def us_extends_def)
    have "frame_address pa"
      using 2(8) assms(3) word_and_mask_mod [of pa 12]
      by (intro frame_addressI) (auto simp: table_page_def map_guard_def mask_eq_exp_minus_1 dvd_eq_mod_eq_0)
    note fe = frame_or_flags(1) [OF this page_flags_bits(1)] frame_or_flags_not [OF this page_flags_bits(1)]
    have l1: "lookup (vm_memory s1) (us_root_table us) a = lookup (vm_memory s) (us_root_table us) a" for a
      using 2(3) by (simp add: us_quiet_def)
    have none: "lookup (vm_memory s) (us_root_table us) va = None"
      using l1 [of va] 2(5,6) q(3) by (simp add: lookup_def leaf_def)
    have t: "paging_user_translate r a (vm_memory s') =
      (if page_indices a = page_indices va then Some (pa OR (a AND 0xFFF), page_flags w x (us_nx_enabled us))
       else paging_user_translate (Some us) a (vm_memory s))" for a
      unfolding 2(2) tr [OF wl(1)] tr [OF assms(1)]
      using wl(3) [of a] l1 [of a] q by (simp add: target_def fe fe(2) [simplified])
    have "us_user_base us = ARGUS_USER_BASE" using assms(1) by (simp add: us_inv_def)
    then show ?thesis
      using 2(1,2,8) wl(1) us_extends_trans [OF q(1) wl(2)] t none tr [OF assms(1)]
      by (intro exI [of _ us1] exI [of _ l1]) (simp add: map_guard_def not_le not_less)
  qed
qed

section \<open>Creating and destroying a space\<close>

lemma entry_cong_page:
  assumes "table_page t" "unat i < 512" "\<And>x. page_of x = page_of t \<Longrightarrow> m' x = m x"
  shows "entry m' t i = entry m t i"
proof -
  have "m' (t + 8 * ucast i + of_nat j) = m (t + 8 * ucast i + of_nat j)" if "j < 8" for j
  proof (rule assms(3))
    have "unat t + 8 * unat i + j < 2 ^ 64" using entry_address(2) [OF assms(1,2)] that by linarith
    then have "unat (t + 8 * ucast i + of_nat j) = unat t + 8 * unat i + j"
      using unat_of_nat_u64 [of "unat t + 8 * unat i + j"] by simp
    moreover obtain k where "unat t = 4096 * k" using assms(1) unfolding table_page_def by (elim dvdE)
    ultimately show "page_of (t + 8 * ucast i + of_nat j) = page_of t" using that assms(2) by simp
  qed
  then show ?thesis by (auto simp: entry_def load64_def intro: load_cong)
qed

text \<open>The tables that the walk of the processor reads for an address.\<close>

definition walk_tables :: "mem \<Rightarrow> u64 \<Rightarrow> u64 \<Rightarrow> u64 list" where
  "walk_tables m root a =
    (let e4 = entry m root (pml4_index a); e3 = entry m (target e4) (pdpt_index a);
         e2 = entry m (target e3) (pd_index a) in
     root # (if present e4 then target e4 # (if present e3 \<and> \<not> large e3 then target e3 #
       (if present e2 \<and> \<not> large e2 then [target e2] else []) else []) else []))"

lemma mmu_walk_cong:
  assumes "\<And>t i. t \<in> set (walk_tables m root a) \<Longrightarrow> unat i < 512 \<Longrightarrow> entry m' t i = entry m t i"
  shows "mmu_walk m' root a = mmu_walk m root a"
proof -
  let ?e4 = "entry m root (pml4_index a)" let ?e3 = "entry m (target ?e4) (pdpt_index a)"
  let ?e2 = "entry m (target ?e3) (pd_index a)"
  have 4: "entry m' root (pml4_index a) = ?e4" using assms [of root] by (simp add: walk_tables_def Let_def)
  have 3: "entry m' (target ?e4) (pdpt_index a) = ?e3" if "present ?e4"
    using assms [of "target ?e4"] that by (simp add: walk_tables_def Let_def)
  have 2: "entry m' (target ?e3) (pd_index a) = ?e2" if "present ?e4" "present ?e3" "\<not> large ?e3"
    using assms [of "target ?e3"] that by (simp add: walk_tables_def Let_def)
  have 1: "entry m' (target ?e2) (pt_index a) = entry m (target ?e2) (pt_index a)"
    if "present ?e4" "present ?e3" "\<not> large ?e3" "present ?e2" "\<not> large ?e2"
    using assms [of "target ?e2"] that by (simp add: walk_tables_def Let_def)
  show ?thesis using 4 3 2 1 by (simp add: mmu_walk_def Let_def)
qed

text \<open>A kernel address space: no user bit at the top level, and no free page among its tables.\<close>

definition kernel_ok :: "paging_info \<Rightarrow> vm \<Rightarrow> bool" where
  "kernel_ok k s \<longleftrightarrow> frames_ok (vm_pmm s) \<and> pi_root_table k \<noteq> 0 \<and> table_page (pi_root_table k) \<and>
     (\<forall>i. unat i < 512 \<longrightarrow> \<not> user (entry (vm_memory s) (pi_root_table k) i)) \<and>
     (\<forall>a. \<forall>t\<in>set (walk_tables (vm_memory s) (pi_root_table k) a). page_of t \<notin> free_set (vm_pmm s))"

lemma target_table: "table_page (target e)"
  unfolding aligned_low_bits target_def by (metis bit_and_iff bit_page_address_mask not_le)

lemma walk_tables_pages: "table_page root \<Longrightarrow> t \<in> set (walk_tables m root a) \<Longrightarrow> table_page t"
  by (auto simp: walk_tables_def Let_def target_table split: if_splits)

text \<open>A space as seen from the machine it was created in.\<close>

definition us_born :: "paging_info \<Rightarrow> vm \<Rightarrow> paging_user_space \<Rightarrow> vm \<Rightarrow> bool" where
  "us_born k s0 us s \<longleftrightarrow> managed_set (vm_pmm s) = managed_set (vm_pmm s0) \<and>
     page_of ` set (us_tables us) \<subseteq> free_set (vm_pmm s0) \<and>
     free_set (vm_pmm s) = free_set (vm_pmm s0) - page_of ` set (us_tables us) \<and>
     (\<forall>x. page_of x \<notin> page_of ` set (us_tables us) \<longrightarrow> vm_memory s x = vm_memory s0 x) \<and>
     (\<forall>i. unat i < 512 \<and> i \<noteq> 1 \<longrightarrow>
        entry (vm_memory s) (us_root_table us) i = entry (vm_memory s0) (pi_root_table k) i)"

lemma us_born_extends:
  assumes "us_born k s0 us s" and "us_extends us s us' s'"
  shows "us_born k s0 us' s'"
proof -
  have e: "us_root_table us' = us_root_table us" "us_grows us (vm_pmm s) us' (vm_pmm s')"
    "us_keeps (set (us_tables us')) (us_root_table us) (vm_memory s) (vm_memory s')"
    using assms(2) by (simp_all add: us_extends_def)
  have f: "page_of ` set (us_tables us) \<subseteq> free_set (vm_pmm s0)"
    "free_set (vm_pmm s) = free_set (vm_pmm s0) - page_of ` set (us_tables us)"
    using assms(1) by (simp_all add: us_born_def)
  have sub: "set (us_tables us) \<subseteq> set (us_tables us')"
    "page_of ` (set (us_tables us') - set (us_tables us)) \<subseteq> free_set (vm_pmm s)"
    "free_set (vm_pmm s') = free_set (vm_pmm s) - page_of ` set (us_tables us')"
    using e(2) by (simp_all add: us_grows_def)
  have "page_of ` set (us_tables us') \<subseteq> free_set (vm_pmm s0)"
    "free_set (vm_pmm s') = free_set (vm_pmm s0) - page_of ` set (us_tables us')"
    using grow_sets [of "{}" "set (us_tables us)" "set (us_tables us')" page_of "free_set (vm_pmm s0)"
      "free_set (vm_pmm s)" "free_set (vm_pmm s')"] f sub by simp_all
  moreover have "page_of x \<notin> page_of ` set (us_tables us)" if "page_of x \<notin> page_of ` set (us_tables us')" for x
    using that sub(1) by blast
  ultimately show ?thesis
    using assms(1) e by (simp add: us_born_def us_keeps_def us_grows_def)
qed

lemma us_born_kernel:
  assumes born: "us_born k s0 us s" and inv: "us_inv lvl us s" and k: "kernel_ok k s0"
  shows "pml4_index a \<noteq> 1 \<Longrightarrow>
      mmu_walk (vm_memory s) (us_root_table us) a = mmu_walk (vm_memory s0) (pi_root_table k) a"
    and "mmu_walk (vm_memory s) (pi_root_table k) a = mmu_walk (vm_memory s0) (pi_root_table k) a"
proof -
  have same: "entry (vm_memory s) t i = entry (vm_memory s0) t i"
    if "t \<in> set (walk_tables (vm_memory s0) (pi_root_table k) a)" "unat i < 512" for t i
  proof (rule entry_cong_page [OF _ that(2)])
    show "table_page t" using walk_tables_pages that(1) k by (auto simp: kernel_ok_def)
    fix x :: u64 assume x: "page_of x = page_of t"
    have "page_of t \<notin> free_set (vm_pmm s0)" using k that(1) by (auto simp: kernel_ok_def)
    then have "page_of x \<notin> page_of ` set (us_tables us)" using x born by (auto simp: us_born_def)
    then show "vm_memory s x = vm_memory s0 x" using born by (simp add: us_born_def)
  qed
  then show kern: "mmu_walk (vm_memory s) (pi_root_table k) a = mmu_walk (vm_memory s0) (pi_root_table k) a"
    by (rule mmu_walk_cong)
  assume "pml4_index a \<noteq> 1"
  then have "entry (vm_memory s) (us_root_table us) (pml4_index a) = entry (vm_memory s) (pi_root_table k) (pml4_index a)"
    using born same [of "pi_root_table k" "pml4_index a"] by (simp add: us_born_def walk_tables_def Let_def)
  then show "mmu_walk (vm_memory s) (us_root_table us) a = mmu_walk (vm_memory s0) (pi_root_table k) a"
    unfolding kern [symmetric] by (simp add: mmu_walk_def)
qed

lemma copy_table:
  assumes "table_page root" "table_page source" "source \<noteq> root" "n \<le> 512"
  shows "fold (\<lambda>i m. set_entry root (of_nat i) (entry m source (of_nat i)) m) [0..<n] m =
    fold (\<lambda>i m'. set_entry root (of_nat i) (entry m source (of_nat i)) m') [0..<n] m"
  using assms(4)
proof (induction n)
  case (Suc n)
  let ?g = "fold (\<lambda>i m'. set_entry root (of_nat i) (entry m source (of_nat i)) m') [0..<n] m"
  have "entry ?g source (of_nat n) = entry m source (of_nat n)"
    using fill_table(1) [OF assms(1) _ assms(2), of n "of_nat n" "\<lambda>i. entry m source (of_nat i)" m] Suc.prems assms(3)
    by (simp add: unat_of_nat)
  then show ?case using Suc by simp
qed simp

lemma destroy_tables:
  assumes "frames_ok q" "distinct ts" "\<forall>t\<in>set ts. table_page t \<and> page_of t \<in> managed_set q - free_set q"
  shows "frames_ok (fold (\<lambda>t q. snd (pmm_free_page t q)) ts q) \<and>
    managed_set (fold (\<lambda>t q. snd (pmm_free_page t q)) ts q) = managed_set q \<and>
    free_set (fold (\<lambda>t q. snd (pmm_free_page t q)) ts q) = free_set q \<union> page_of ` set ts"
  using assms
proof (induction ts arbitrary: q)
  case (Cons t ts)
  have t: "table_page t" "page_of t \<in> managed_set q - free_set q" using Cons.prems(3) by simp_all
  obtain q' where q': "pmm_free_page t q = (True, q')" "frames_ok q'" "managed_set q' = managed_set q"
    "free_set q' = insert (page_of t) (free_set q)" by (rule pmm_free_page_used [OF Cons.prems(1) t])
  have "page_of u \<noteq> page_of t" if "u \<in> set ts" for u
    using that Cons.prems(2,3) page_of_inj [of u t] by auto
  then have "\<forall>u\<in>set ts. table_page u \<and> page_of u \<in> managed_set q' - free_set q'"
    using Cons.prems(3) q'(3,4) by auto
  from Cons.IH [OF q'(2) _ this] Cons.prems(2) show ?case using q' by auto
qed simp

lemma destroy_spec:
  assumes "frames_ok (vm_pmm s)" "unat (us_table_page_count us) \<le> length (us_table_pages us)" "distinct (us_tables us)"
    "\<forall>t\<in>set (us_tables us). table_page t \<and> page_of t \<in> managed_set (vm_pmm s) - free_set (vm_pmm s)"
  shows "\<exists>q. paging_user_space_destroy (Some us) s = (Some zero_user_space, s\<lparr>vm_pmm := q\<rparr>) \<and> frames_ok q \<and>
    managed_set q = managed_set (vm_pmm s) \<and> free_set q = free_set (vm_pmm s) \<union> page_of ` set (us_tables us)"
proof -
  let ?n = "unat (us_table_page_count us)"
  have l: "map (\<lambda>i. us_table_pages us ! (i - 1)) [1..<?n + 1] = us_tables us"
    by (rule nth_equalityI) (use assms(2) in \<open>simp_all add: us_tables_def del: upt_Suc\<close>)
  have "fold (\<lambda>i q. snd (pmm_free_page (us_table_pages us ! (i - 1)) q)) (rev [1..<?n + 1]) (vm_pmm s) =
      fold (\<lambda>t q. snd (pmm_free_page t q)) (map (\<lambda>i. us_table_pages us ! (i - 1)) (rev [1..<?n + 1])) (vm_pmm s)"
    by (simp only: fold_map comp_def)
  also have "\<dots> = fold (\<lambda>t q. snd (pmm_free_page t q)) (rev (us_tables us)) (vm_pmm s)"
    by (simp only: rev_map [symmetric] l)
  finally show ?thesis
    using destroy_tables [OF assms(1), of "rev (us_tables us)"] assms(3,4)
    by (intro exI [of _ "fold (\<lambda>t q. snd (pmm_free_page t q)) (rev (us_tables us)) (vm_pmm s)"])
      (simp add: paging_user_space_destroy_def del: upt_Suc)
qed

lemma create_cases:
  assumes k: "kernel_ok k s"
  obtains (none) us where "paging_user_space_create (Some k) (Some us0) s = (False, Some us, s)" "free_set (vm_pmm s) = {}"
  | (taken) us' s' where "paging_user_space_create (Some k) (Some us0) s = (False, Some us', s')"
      "free_set (vm_pmm s') = free_set (vm_pmm s)" "present (entry (vm_memory s) (pi_root_table k) 1)"
  | (made) us s' where "paging_user_space_create (Some k) (Some us0) s = (True, Some us, s')"
      "us_inv (\<lambda>_. 4) us s'" "us_born k s us s'" "us_nx_enabled us = pi_nx_enabled k" "us_table_page_count us = 1"
      "\<And>a. lookup (vm_memory s') (us_root_table us) a = None"
proof -
  let ?z = "zero_user_space\<lparr>us_nx_enabled := pi_nx_enabled k\<rparr>" and ?kr = "pi_root_table k"
  have fr: "frames_ok (vm_pmm s)" "?kr \<noteq> 0" and kp: "table_page ?kr" using k by (simp_all add: kernel_ok_def)
  have len: "length (us_table_pages ?z) = 16" by (simp add: zero_user_space_def)
  note def = paging_user_space_create_def
  show thesis
  proof (cases rule: allocate_user_table_cases [OF fr(1) len])
    case 1
    then show ?thesis using none fr by (simp add: def zero_user_space_def)
  next
    case (2 root us q')
    have rp: "table_page root" using 2(3) by (rule frame_address_table)
    have "page_of ?kr \<notin> free_set (vm_pmm s)"
      using k by (force simp: kernel_ok_def walk_tables_def Let_def)
    then have ne: "?kr \<noteq> root" using 2(4) by auto
    define m where "m = fold (\<lambda>i m. set_entry root (of_nat i) (entry m ?kr (of_nat i)) m) [0..<512]
      (zero_page root (vm_memory s))"
    have ent: "entry m u j = (if u = root then entry (vm_memory s) ?kr j else entry (vm_memory s) u j)"
      if "table_page u" "unat j < 512" for u j
    proof -
      have "m = fold (\<lambda>i m'. set_entry root (of_nat i) (entry (zero_page root (vm_memory s)) ?kr (of_nat i)) m')
          [0..<512] (zero_page root (vm_memory s))"
        unfolding m_def by (rule copy_table [OF rp kp ne order_refl])
      from fill_table(1) [OF rp order_refl that, of "\<lambda>i. entry (zero_page root (vm_memory s)) ?kr (of_nat i)"
          "zero_page root (vm_memory s)", folded this]
      show ?thesis using that ne zero_page_entry [OF rp that] zero_page_entry [OF rp kp that(2)]
        by (simp add: of_nat_unat_id)
    qed
    have mem: "m x = vm_memory s x" if "page_of x \<noteq> page_of root" for x
    proof -
      have "m x = zero_page root (vm_memory s) x"
        unfolding m_def copy_table [OF rp kp ne order_refl] by (rule fill_table(2) [OF rp order_refl that])
      then show ?thesis using zero_page_frame [OF rp that] by simp
    qed
    let ?s1 = "s\<lparr>vm_pmm := q', vm_memory := m\<rparr>"
    have T: "us_tables us = [root]" using 2(8) by (simp add: us_tables_def zero_user_space_def)
    have used: "page_of root \<in> managed_set q' - free_set q'" using 2(4,6,7) free_subset_managed by auto
    show ?thesis
    proof (cases "present (entry m root 1)")
      case True
      have "unat (us_table_page_count us) \<le> 16" using 2(10) by (simp add: word_le_nat_alt)
      then obtain q where q: "paging_user_space_destroy (Some us) ?s1 = (Some zero_user_space, ?s1\<lparr>vm_pmm := q\<rparr>)"
        "free_set q = free_set q' \<union> page_of ` set (us_tables us)"
        using destroy_spec [of ?s1 us] 2(5,9) T rp used by auto
      then have "paging_user_space_create (Some k) (Some us0) s = (False, Some zero_user_space, ?s1\<lparr>vm_pmm := q\<rparr>)"
        using fr 2(1,2) True by (simp add: def m_def)
      moreover have "free_set q = free_set (vm_pmm s)" using q(2) 2(4,7) T by auto
      ultimately show ?thesis using taken True ent [OF rp, of 1] by simp
    next
      case False
      let ?us = "us\<lparr>us_root_table := root, us_user_base := ARGUS_USER_BASE\<rparr>"
      have Tu: "us_tables ?us = [root]" using T by (simp add: us_tables_def)
      have run: "paging_user_space_create (Some k) (Some us0) s = (True, Some ?us, ?s1)"
        using fr 2(1,2) False by (simp add: def m_def)
      have nu: "\<not> user (entry m root i)" if "unat i < 512" for i
        using ent [OF rp that] k that by (simp add: kernel_ok_def)
      have "\<not> present (entry m t i)" if "slot [root] (\<lambda>_. 4) t i" for t i
        using that False by (simp add: slot_def)
      then have "tree_ok m [root] (\<lambda>_. 4)"
        using nu 2(2,3) by (auto simp: tree_ok_def root_ok_def links_ok_def links_inj_def leaves_ok_def slot_def)
      then have inv: "us_inv (\<lambda>_. 4) ?us ?s1" using 2(5,9,10) Tu used by (simp add: us_inv_def)
      have born: "us_born k s ?us ?s1"
        using ent [OF rp] mem 2(4,6,7) Tu by (auto simp: us_born_def)
      have "lookup m root a = None" for a using nu by (simp add: lookup_def walk_def child_def Let_def)
      moreover have "us_table_page_count us = 1" using 2(14) by (simp add: word_unat_eq_iff zero_user_space_def)
      ultimately show ?thesis using made [OF run inv born] 2(13) by simp
    qed
  qed
qed

section \<open>The life of a user space\<close>

text \<open>The spaces reachable from a kernel and a machine: created, then any sequence of map requests.\<close>

inductive us_run :: "paging_info \<Rightarrow> vm \<Rightarrow> paging_user_space \<Rightarrow> vm \<Rightarrow> bool" for k s0 where
  create: "paging_user_space_create (Some k) (Some us0) s0 = (True, Some us, s) \<Longrightarrow> us_run k s0 us s"
| request: "us_run k s0 us s \<Longrightarrow> paging_user_map_page (Some us) va pa w x s = (ok, Some us', s') \<Longrightarrow>
    us_run k s0 us' s'"

lemma us_run_inv:
  assumes "us_run k s0 us s" and "kernel_ok k s0"
  shows "\<exists>lvl. us_inv lvl us s \<and> us_born k s0 us s"
  using assms(1)
proof induction
  case (create us0 us s)
  show ?case by (rule create_cases [OF assms(2), of us0]) (use create in auto)
next
  case (request us s va pa w x ok us' s')
  then obtain lvl where i: "us_inv lvl us s" "us_born k s0 us s" by blast
  show ?case
  proof (cases rule: map_page_cases [OF i(1) request.hyps(2)])
    case (1 us1)
    then show ?thesis using us_born_extends [OF i(2)] by (auto simp: us_quiet_def)
  next
    case (2 us1 s1 p l1)
    note wl = write_leaf [OF 2(4,5) page_flags_bits(2,3) [of pa w x "us_nx_enabled us1"], folded 2(7)]
    have "us_extends us s us1 s'" using 2(3) wl(2) us_extends_trans by (simp add: us_quiet_def) blast
    then show ?thesis using us_born_extends [OF i(2)] wl(1) 2(2) by auto
  qed
qed

text \<open>
  Claim C16. A user space never disturbs the kernel and never leaks memory: in every space that
  \<^verbatim>\<open>paging_user_space_create\<close> and any sequence of \<^verbatim>\<open>paging_user_map_page\<close> calls produce from a machine
  with a well-formed kernel map, the processor sees the kernel's own translation at every address
  outside the user window, the kernel's map itself is unchanged, \<^verbatim>\<open>paging_user_translate\<close> grants nothing
  there, at most 16 table pages are in use, and \<^verbatim>\<open>paging_user_space_destroy\<close> gives back exactly the pages
  that were taken.
\<close>

theorem user_space_isolated:
  assumes "kernel_ok k s0" and "us_run k s0 us s"
  shows "(\<forall>a. mmu_walk (vm_memory s) (pi_root_table k) a = mmu_walk (vm_memory s0) (pi_root_table k) a) \<and>
    (\<forall>a. pml4_index a \<noteq> 1 \<longrightarrow>
       mmu_walk (vm_memory s) (us_root_table us) a = mmu_walk (vm_memory s0) (pi_root_table k) a \<and>
       paging_user_translate (Some us) a (vm_memory s) = None) \<and>
    us_table_page_count us \<le> 16 \<and>
    free_set (vm_pmm (snd (paging_user_space_destroy (Some us) s))) = free_set (vm_pmm s0)"
proof -
  obtain lvl where i: "us_inv lvl us s" "us_born k s0 us s" using us_run_inv [OF assms(2,1)] by blast
  have ok: "tree_ok (vm_memory s) (us_tables us) lvl" and root: "us_root_table us = hd (us_tables us)"
    using i(1) by (simp_all add: us_inv_def)
  have "paging_user_translate (Some us) a (vm_memory s) = None" if "pml4_index a \<noteq> 1" for a
    using paging_user_translate_lookup [OF ok root] tree_root_kernel [OF ok index_less(1) that]
    by (simp add: lookup_def walk_def child_def Let_def)
  moreover have "\<exists>q. paging_user_space_destroy (Some us) s = (Some zero_user_space, s\<lparr>vm_pmm := q\<rparr>) \<and> frames_ok q \<and>
      managed_set q = managed_set (vm_pmm s) \<and> free_set q = free_set (vm_pmm s) \<union> page_of ` set (us_tables us)"
    by (rule destroy_spec)
      (use i(1) tree_tables(3,5) [OF ok] frame_address_table in \<open>auto simp: us_inv_def word_le_nat_alt\<close>)
  then have "free_set (vm_pmm (snd (paging_user_space_destroy (Some us) s))) = free_set (vm_pmm s0)"
    using i(2) Diff_partition [of "page_of ` set (us_tables us)" "free_set (vm_pmm s0)"]
    by (auto simp: us_born_def simp del: image_subset_iff)
  ultimately show ?thesis using us_born_kernel [OF i(2,1) assms(1)] i(1) by (simp add: us_inv_def)
qed

section \<open>Witnesses\<close>

text \<open>A machine with six free pages whose kernel map is still empty.\<close>

abbreviation frames_example :: pmm where
  "frames_example \<equiv> \<lparr>usable_bitmap = [0xFC], used_bitmap = [0], page_count = 8, managed_count = 6,
     free_count = 6\<rparr>"

abbreviation vm_example :: vm where
  "vm_example \<equiv> \<lparr>vm_memory = \<lambda>_. 0, vm_pmm = frames_example, vm_table_pages = 0, vm_cr0 = 0, vm_cr3 = 0, vm_msr = \<lambda>_. 0\<rparr>"

abbreviation kernel_example :: paging_info where
  "kernel_example \<equiv> \<lparr>pi_root_table = 0x1000, pi_mapped_bytes = 0, pi_table_pages = 1,
     pi_stack_guard_page = 0, pi_nx_enabled = True\<rparr>"

lemma frames_example_ok: "frames_ok frames_example" "free_set frames_example = {2, 3, 4, 5, 6, 7}"
proof -
  have sets: "managed_set frames_example = set (filter (\<lambda>p. bit_get [0xFC] (of_nat p)) [0..<8])"
    "free_set frames_example =
      set (filter (\<lambda>p. bit_get [0xFC] (of_nat p) \<and> \<not> bit_get [0] (of_nat p)) [0..<8])"
    by (auto simp: managed_set_def free_set_def)
  have f: "filter (\<lambda>p. bit_get [0xFC] (of_nat p)) [0..<8] = [2, 3, 4, 5, 6, 7]"
    "filter (\<lambda>p. bit_get [0xFC] (of_nat p) \<and> \<not> bit_get [0] (of_nat p)) [0..<8] = [2, 3, 4, 5, 6, 7]"
    by code_simp+
  show "frames_ok frames_example" by (simp add: frames_ok_def pmm_inv_def sets f)
  show "free_set frames_example = {2, 3, 4, 5, 6, 7}" unfolding sets(2) f(2) by auto
qed

lemma entry_zero [simp]: "entry (\<lambda>_. 0) t i = 0"
  by (rule bit_word_eqI) (simp add: entry_def load64_def bit_load)

lemma kernel_example_ok: "kernel_ok kernel_example vm_example"
  using frames_example_ok by (simp add: kernel_ok_def table_page_def walk_tables_def)

lemma user_space_example:
  "\<exists>us s. paging_user_space_create (Some kernel_example) (Some zero_user_space) vm_example = (True, Some us, s) \<and>
    us_inv (\<lambda>_. 4) us s \<and> us_nx_enabled us \<and> us_budget us s = 5 \<and>
    (\<forall>a. lookup (vm_memory s) (us_root_table us) a = None)"
proof (cases rule: create_cases [OF kernel_example_ok, of zero_user_space])
  case (3 us s)
  have T: "us_tables us \<noteq> []" "length (us_tables us) \<le> 1"
    using 3(2,5) by (auto simp: us_inv_def tree_ok_def us_tables_def)
  then obtain t where t: "us_tables us = [t]" by (cases "us_tables us") auto
  have "page_of t \<in> {2, 3, 4, 5, 6, 7}" "free_set (vm_pmm s) = {2, 3, 4, 5, 6, 7} - {page_of t}"
    using 3(3) t by (simp_all add: us_born_def frames_example_ok(2))
  then have "card (free_set (vm_pmm s)) = 5" by (simp add: card_Diff_singleton_if)
  then show ?thesis using 3 by (simp add: us_budget_def)
qed (simp_all add: frames_example_ok(2))

theorem user_map_translate_witness:
  "\<exists>us s us' s'. paging_user_map_page (Some us) ARGUS_USER_BASE 0x5000 True False s = (True, Some us', s') \<and>
    paging_user_translate (Some us') (ARGUS_USER_BASE + 0x123) (vm_memory s') = Some (0x5123, 0x8000000000000007)"
proof -
  obtain us s where i: "us_inv (\<lambda>_. 4) us s" "us_nx_enabled us" "us_budget us s = 5"
    "\<forall>a. lookup (vm_memory s) (us_root_table us) a = None" using user_space_example by blast
  have root: "us_root_table us = hd (us_tables us)" "tree_ok (vm_memory s) (us_tables us) (\<lambda>_. 4)"
    using i(1) by (simp_all add: us_inv_def)
  have none: "paging_user_translate (Some us) a (vm_memory s) = None" for a
    using paging_user_translate_lookup [OF root(2,1)] i(4) root(1) by simp
  have g: "map_guard us ARGUS_USER_BASE 0x5000"
    using i(1) tree_tables(1,4) [OF root(2)] root(1) by (simp add: map_guard_def us_inv_def)
  obtain ok r s' where run: "paging_user_map_page (Some us) ARGUS_USER_BASE 0x5000 True False s = (ok, r, s')"
    by (metis prod_cases3)
  have b: "unat (0x5000 :: u64) < 2 ^ 52" by simp
  from user_map_translate [OF i(1) run b] obtain us' where u: "r = Some us'" "ok"
    "\<forall>a. paging_user_translate r a (vm_memory s') =
      (if ok \<and> page_indices a = page_indices ARGUS_USER_BASE
       then Some (0x5000 OR (a AND 0xFFF), page_flags True False (us_nx_enabled us))
       else paging_user_translate (Some us) a (vm_memory s))"
    using g i(3) none by auto
  have "page_indices (ARGUS_USER_BASE + 0x123) = page_indices ARGUS_USER_BASE"
    by (simp add: page_indices_def pml4_index_def pdpt_index_def pd_index_def pt_index_def)
  then have "paging_user_translate (Some us') (ARGUS_USER_BASE + 0x123) (vm_memory s') = Some (0x5123, 0x8000000000000007)"
    using u i(2) by (simp add: page_flags_def)
  moreover have "paging_user_map_page (Some us) ARGUS_USER_BASE 0x5000 True False s = (True, Some us', s')"
    using run u(1,2) by simp
  ultimately show ?thesis by blast
qed

theorem user_space_isolated_witness:
  "\<exists>us s. us_run kernel_example vm_example us s \<and>
    free_set (vm_pmm (snd (paging_user_space_destroy (Some us) s))) = {2, 3, 4, 5, 6, 7}"
proof -
  obtain us s where c: "paging_user_space_create (Some kernel_example) (Some zero_user_space) vm_example = (True, Some us, s)"
    using user_space_example by blast
  then have r: "us_run kernel_example vm_example us s" by (rule us_run.create)
  from user_space_isolated [OF kernel_example_ok r] show ?thesis
    using r frames_example_ok(2) by (intro exI [of _ us] exI [of _ s]) simp
qed

end
