(* ===== verification/Elf_Loader.thy ===== *)
theory Elf_Loader
  imports Argus_Prelude
begin

text \<open>
  The validation of user ELF images, \<^verbatim>\<open>src/elf_loader.c\<close>: the file is a list of bytes, read with the
  field offsets of the packed header structs. The function either refuses the file or returns the
  loadable segments; the image that it fills in is the result, and null pointers are the only inputs
  left out (the one caller passes the address of a local).
\<close>

section \<open>Data\<close>

record argus_elf_segment =
  seg_file_offset :: u64
  seg_file_size :: u64
  seg_virtual_address :: u64
  seg_memory_size :: u64
  seg_flags :: u32
  seg_page_count :: u32

record argus_elf_image =
  elf_entry :: u64
  elf_segment_count :: u32
  elf_total_pages :: u32
  elf_segments :: "argus_elf_segment list"

abbreviation (input) ARGUS_ELF_MAX_SEGMENTS :: u32 where "ARGUS_ELF_MAX_SEGMENTS \<equiv> 8"
abbreviation (input) ARGUS_ELF_MAX_IMAGE_PAGES :: u32 where "ARGUS_ELF_MAX_IMAGE_PAGES \<equiv> 16"
abbreviation (input) ELF_PROGRAM_LOAD :: u32 where "ELF_PROGRAM_LOAD \<equiv> 1"
abbreviation (input) ELF_PROGRAM_GNU_STACK :: u32 where "ELF_PROGRAM_GNU_STACK \<equiv> 0x6474E551"
abbreviation (input) ELF_FLAG_EXECUTE :: u32 where "ELF_FLAG_EXECUTE \<equiv> 1"
abbreviation (input) ELF_FLAG_WRITE :: u32 where "ELF_FLAG_WRITE \<equiv> 2"
abbreviation (input) ELF_FLAG_READ :: u32 where "ELF_FLAG_READ \<equiv> 4"
abbreviation (input) ELF_PAGE_SIZE :: u64 where "ELF_PAGE_SIZE \<equiv> 4096"

record elf64_header =
  eh_identification :: "u8 list"
  eh_type :: u16
  eh_machine :: u16
  eh_version :: u32
  eh_entry :: u64
  eh_program_header_offset :: u64
  eh_flags :: u32
  eh_header_size :: u16
  eh_program_header_size :: u16
  eh_program_header_count :: u16

record elf64_program_header =
  ph_type :: u32
  ph_flags :: u32
  ph_offset :: u64
  ph_virtual_address :: u64
  ph_physical_address :: u64
  ph_file_size :: u64
  ph_memory_size :: u64
  ph_alignment :: u64

definition read_header :: "u8 list \<Rightarrow> elf64_header" where
  "read_header bytes = \<lparr>eh_identification = take 16 bytes, eh_type = le16 bytes 16,
     eh_machine = le16 bytes 18, eh_version = le32 bytes 20, eh_entry = le64 bytes 24,
     eh_program_header_offset = le64 bytes 32, eh_flags = le32 bytes 48, eh_header_size = le16 bytes 52,
     eh_program_header_size = le16 bytes 54, eh_program_header_count = le16 bytes 56\<rparr>"

definition read_program :: "u8 list \<Rightarrow> nat \<Rightarrow> elf64_program_header" where
  "read_program bytes p = \<lparr>ph_type = le32 bytes p, ph_flags = le32 bytes (p + 4),
     ph_offset = le64 bytes (p + 8), ph_virtual_address = le64 bytes (p + 16),
     ph_physical_address = le64 bytes (p + 24), ph_file_size = le64 bytes (p + 32),
     ph_memory_size = le64 bytes (p + 40), ph_alignment = le64 bytes (p + 48)\<rparr>"

section \<open>Operations\<close>

definition add_overflows :: "u64 \<Rightarrow> u64 \<Rightarrow> bool" where
  "add_overflows left right \<longleftrightarrow> UINT64_MAX - right < left"

definition ranges_overlap :: "u64 \<Rightarrow> u64 \<Rightarrow> u64 \<Rightarrow> u64 \<Rightarrow> bool" where
  "ranges_overlap first_start first_size second_start second_size \<longleftrightarrow>
    first_start < second_start + second_size \<and> second_start < first_start + first_size"

text \<open>The acceptance of the fixed header.\<close>

definition header_accepted :: "elf64_header \<Rightarrow> bool" where
  "header_accepted header \<longleftrightarrow>
    eh_identification header ! 0 = 0x7F \<and> eh_identification header ! 1 = 0x45 \<and>
    eh_identification header ! 2 = 0x4C \<and> eh_identification header ! 3 = 0x46 \<and>
    eh_identification header ! 4 = 2 \<and> eh_identification header ! 5 = 1 \<and>
    eh_identification header ! 6 = 1 \<and> eh_type header = 2 \<and> eh_machine header = 62 \<and>
    eh_version header = 1 \<and> eh_flags header = 0 \<and> eh_header_size header = 64 \<and>
    eh_program_header_size header = 56 \<and> eh_program_header_count header \<noteq> 0 \<and>
    (ucast (eh_program_header_count header) :: u32) \<le> ARGUS_ELF_MAX_SEGMENTS + 1"

text \<open>One iteration of the loop over the program headers: the image, whether the entry point lies in
  an executable segment, and whether the stack header was seen.\<close>

definition stack_accepted :: "elf64_program_header \<Rightarrow> bool" where
  "stack_accepted program \<longleftrightarrow> ph_flags program = (ELF_FLAG_READ OR ELF_FLAG_WRITE) \<and>
    ph_offset program = 0 \<and> ph_virtual_address program = 0 \<and> ph_physical_address program = 0 \<and>
    ph_file_size program = 0 \<and> ph_memory_size program = 0"

definition load_accepted :: "u64 \<Rightarrow> u64 \<Rightarrow> u64 \<Rightarrow> elf64_program_header \<Rightarrow> bool" where
  "load_accepted sz user_min user_max program \<longleftrightarrow>
    \<not> (ph_memory_size program = 0 \<or> ph_memory_size program < ph_file_size program \<or>
       ph_flags program AND ELF_FLAG_READ = 0 \<or>
       ph_flags program AND NOT (ELF_FLAG_READ OR ELF_FLAG_WRITE OR ELF_FLAG_EXECUTE) \<noteq> 0 \<or>
       (ph_flags program AND ELF_FLAG_WRITE \<noteq> 0 \<and> ph_flags program AND ELF_FLAG_EXECUTE \<noteq> 0) \<or>
       ph_offset program AND (ELF_PAGE_SIZE - 1) \<noteq> 0 \<or>
       ph_virtual_address program AND (ELF_PAGE_SIZE - 1) \<noteq> 0 \<or>
       ph_alignment program \<noteq> ELF_PAGE_SIZE \<or>
       add_overflows (ph_offset program) (ph_file_size program) \<or>
       sz < ph_offset program + ph_file_size program \<or>
       add_overflows (ph_virtual_address program) (ph_memory_size program) \<or>
       ph_virtual_address program < user_min \<or>
       user_max < ph_virtual_address program + ph_memory_size program)"

definition elf_load_program :: "u64 \<Rightarrow> u64 \<Rightarrow> u64 \<Rightarrow> u64 \<Rightarrow> elf64_program_header \<Rightarrow>
    argus_elf_image \<times> bool \<times> bool \<Rightarrow> (argus_elf_image \<times> bool \<times> bool) option" where
  "elf_load_program sz user_min user_max entry program = (\<lambda>(image, entry_is_executable, stack_seen).
    if ph_type program = ELF_PROGRAM_GNU_STACK then
      (if stack_seen \<or> \<not> stack_accepted program then None else Some (image, entry_is_executable, True))
    else if ph_type program \<noteq> ELF_PROGRAM_LOAD then None
    else if elf_segment_count image = ARGUS_ELF_MAX_SEGMENTS \<or> \<not> load_accepted sz user_min user_max program
    then None
    else if add_overflows (ph_memory_size program) (ELF_PAGE_SIZE - 1) then None
    else
      let rounded_size = (ph_memory_size program + ELF_PAGE_SIZE - 1) AND NOT (ELF_PAGE_SIZE - 1);
          page_count = (ucast (rounded_size div ELF_PAGE_SIZE) :: u32) in
      if page_count = 0 \<or> ARGUS_ELF_MAX_IMAGE_PAGES - page_count < elf_total_pages image then None
      else if list_ex (\<lambda>prior. let other = elf_segments image ! prior in
          ranges_overlap (ph_virtual_address program) rounded_size (seg_virtual_address other)
            (ucast (seg_page_count other) * ELF_PAGE_SIZE)) [0..<unat (elf_segment_count image)]
      then None
      else
        let segment = \<lparr>seg_file_offset = ph_offset program, seg_file_size = ph_file_size program,
              seg_virtual_address = ph_virtual_address program, seg_memory_size = ph_memory_size program,
              seg_flags = ph_flags program, seg_page_count = page_count\<rparr>;
            image = image\<lparr>elf_segments := (elf_segments image)[unat (elf_segment_count image) := segment],
              elf_segment_count := elf_segment_count image + 1,
              elf_total_pages := elf_total_pages image + page_count\<rparr>;
            executable = ph_flags program AND ELF_FLAG_EXECUTE \<noteq> 0 \<and> ph_virtual_address program \<le> entry \<and>
              entry < ph_virtual_address program + ph_file_size program
        in Some (image, entry_is_executable \<or> executable, stack_seen))"

fun elf_load_programs :: "u64 \<Rightarrow> u64 \<Rightarrow> u64 \<Rightarrow> u64 \<Rightarrow> elf64_program_header list \<Rightarrow>
    argus_elf_image \<times> bool \<times> bool \<Rightarrow> (argus_elf_image \<times> bool \<times> bool) option" where
  "elf_load_programs sz user_min user_max entry [] st = Some st"
| "elf_load_programs sz user_min user_max entry (program # rest) st =
    (case elf_load_program sz user_min user_max entry program st of None \<Rightarrow> None
     | Some st \<Rightarrow> elf_load_programs sz user_min user_max entry rest st)"

definition zero_elf_segment :: argus_elf_segment where
  "zero_elf_segment = \<lparr>seg_file_offset = 0, seg_file_size = 0, seg_virtual_address = 0,
     seg_memory_size = 0, seg_flags = 0, seg_page_count = 0\<rparr>"

definition zero_elf_image :: argus_elf_image where
  "zero_elf_image = \<lparr>elf_entry = 0, elf_segment_count = 0, elf_total_pages = 0,
     elf_segments = replicate 8 zero_elf_segment\<rparr>"

definition elf_validate_user_image :: "u8 list \<Rightarrow> u64 \<Rightarrow> u64 \<Rightarrow> u64 \<Rightarrow> argus_elf_image option" where
  "elf_validate_user_image bytes sz user_min user_max =
    (if sz < 64 \<or> user_max \<le> user_min then None
     else
       let header = read_header bytes in
       if \<not> header_accepted header then None
       else
         let table_size = ucast (eh_program_header_count header) * 56;
             offset = eh_program_header_offset header in
         if add_overflows offset table_size \<or> sz < offset + table_size then None
         else
           case elf_load_programs sz user_min user_max (eh_entry header)
               (map (\<lambda>index. read_program bytes (unat (offset + of_nat index * 56)))
                 [0..<unat (eh_program_header_count header)]) (zero_elf_image, False, False) of
             None \<Rightarrow> None
           | Some (img, entry_is_executable, stack_seen) \<Rightarrow>
               if elf_segment_count img = 0 \<or> \<not> entry_is_executable \<or> \<not> stack_seen then None
               else Some (img\<lparr>elf_entry := eh_entry header\<rparr>))"

section \<open>Accepted images\<close>

text \<open>What an accepted segment promises, on natural numbers; its pages are those of its memory size.\<close>

definition segment_ok :: "u64 \<Rightarrow> u64 \<Rightarrow> u64 \<Rightarrow> argus_elf_segment \<Rightarrow> bool" where
  "segment_ok sz user_min user_max g \<longleftrightarrow>
     4096 dvd unat (seg_virtual_address g) \<and> 4096 dvd unat (seg_file_offset g) \<and>
     unat user_min \<le> unat (seg_virtual_address g) \<and>
     unat (seg_virtual_address g) + unat (seg_memory_size g) \<le> unat user_max \<and>
     0 < unat (seg_memory_size g) \<and> unat (seg_file_size g) \<le> unat (seg_memory_size g) \<and>
     unat (seg_file_offset g) + unat (seg_file_size g) \<le> unat sz \<and>
     \<not> (seg_flags g AND ELF_FLAG_WRITE \<noteq> 0 \<and> seg_flags g AND ELF_FLAG_EXECUTE \<noteq> 0) \<and>
     unat (seg_page_count g) = (unat (seg_memory_size g) + 4095) div 4096"

definition segment_span :: "argus_elf_segment \<Rightarrow> nat set" where
  "segment_span g = {unat (seg_virtual_address g)..<unat (seg_virtual_address g) + 4096 * unat (seg_page_count g)}"

definition entry_in :: "u64 \<Rightarrow> argus_elf_segment \<Rightarrow> bool" where
  "entry_in e g \<longleftrightarrow> seg_flags g AND ELF_FLAG_EXECUTE \<noteq> 0 \<and> unat (seg_virtual_address g) \<le> unat e \<and>
     unat e < unat (seg_virtual_address g) + unat (seg_file_size g)"

definition loaded_segments :: "argus_elf_image \<Rightarrow> argus_elf_segment list" where
  "loaded_segments img = take (unat (elf_segment_count img)) (elf_segments img)"

definition image_inv :: "u64 \<Rightarrow> u64 \<Rightarrow> u64 \<Rightarrow> u64 \<Rightarrow> argus_elf_image \<times> bool \<times> bool \<Rightarrow> bool" where
  "image_inv sz user_min user_max entry = (\<lambda>(img, exec, stack).
     length (elf_segments img) = 8 \<and> unat (elf_segment_count img) \<le> 8 \<and>
     (\<forall>g\<in>set (loaded_segments img). segment_ok sz user_min user_max g) \<and>
     (\<forall>i j. i < j \<and> j < length (loaded_segments img) \<longrightarrow>
        segment_span (loaded_segments img ! i) \<inter> segment_span (loaded_segments img ! j) = {}) \<and>
     elf_total_pages img = sum_list (map seg_page_count (loaded_segments img)) \<and>
     (exec \<longrightarrow> (\<exists>g\<in>set (loaded_segments img). entry_in entry g)))"

lemma add_overflows_iff: "add_overflows a b \<longleftrightarrow> 2 ^ 64 \<le> unat a + unat b"
proof -
  have "unat (UINT64_MAX - b) = 2 ^ 64 - 1 - unat b" using unat_u64_less [of b]
    by (subst unat_sub) (simp_all add: word_le_nat_alt)
  then show ?thesis using unat_u64_less [of b] by (auto simp: add_overflows_def word_less_nat_alt)
qed

lemma aligned_iff: "w AND (ELF_PAGE_SIZE - 1) = 0 \<longleftrightarrow> 4096 dvd unat w"
  using word_and_mask_mod [of w 12]
  by (simp add: mask_eq_exp_minus_1 word_unat_eq_iff mod_eq_0_iff_dvd)

lemma unat_clear_page_bits: "unat (w AND NOT (ELF_PAGE_SIZE - 1)) = unat w div 4096 * 4096"
proof -
  have "w AND NOT (mask 12) = push_bit 12 (drop_bit 12 w)"
    by (rule bit_word_eqI) (auto simp: bit_simps)
  then have e: "w AND NOT (ELF_PAGE_SIZE - 1) = (w div 4096) * 4096"
    by (simp add: mask_eq_exp_minus_1 drop_bit_eq_div push_bit_eq_mult)
  have "unat w div 4096 * 4096 < 2 ^ 64"
    by (rule order_le_less_trans [OF _ unat_u64_less [of w]]) (rule div_times_less_eq_dividend)
  then show ?thesis unfolding e by (simp add: unat_word_ariths unat_div_distrib)
qed

lemma round_up_page:
  assumes "unat w + 4095 < 2 ^ 64"
  shows "unat ((w + ELF_PAGE_SIZE - 1) AND NOT (ELF_PAGE_SIZE - 1)) = (unat w + 4095) div 4096 * 4096"
proof -
  have "unat (w + ELF_PAGE_SIZE - 1) = unat w + 4095" using assms by (simp add: unat_word_ariths)
  then show ?thesis by (simp only: unat_clear_page_bits)
qed

lemma load_accepted_segment:
  assumes "load_accepted sz user_min user_max p"
  shows "4096 dvd unat (ph_virtual_address p)" "4096 dvd unat (ph_offset p)"
    "unat user_min \<le> unat (ph_virtual_address p)"
    "unat (ph_virtual_address p) + unat (ph_memory_size p) \<le> unat user_max"
    "0 < unat (ph_memory_size p)" "unat (ph_file_size p) \<le> unat (ph_memory_size p)"
    "unat (ph_offset p) + unat (ph_file_size p) \<le> unat sz"
    "\<not> (ph_flags p AND ELF_FLAG_WRITE \<noteq> 0 \<and> ph_flags p AND ELF_FLAG_EXECUTE \<noteq> 0)"
proof -
  note a = assms [unfolded load_accepted_def de_Morgan_disj not_not aligned_iff add_overflows_iff not_le not_less]
  have o: "unat (ph_offset p) + unat (ph_file_size p) < 2 ^ 64"
    "unat (ph_virtual_address p) + unat (ph_memory_size p) < 2 ^ 64" using a by simp_all
  have s: "unat (ph_offset p + ph_file_size p) = unat (ph_offset p) + unat (ph_file_size p)"
    "unat (ph_virtual_address p + ph_memory_size p) = unat (ph_virtual_address p) + unat (ph_memory_size p)"
    using o by (simp_all add: unat_word_ariths)
  show "4096 dvd unat (ph_virtual_address p)" "4096 dvd unat (ph_offset p)"
    "unat user_min \<le> unat (ph_virtual_address p)" "0 < unat (ph_memory_size p)"
    "unat (ph_file_size p) \<le> unat (ph_memory_size p)"
    "\<not> (ph_flags p AND ELF_FLAG_WRITE \<noteq> 0 \<and> ph_flags p AND ELF_FLAG_EXECUTE \<noteq> 0)"
    using a by (simp_all add: word_le_nat_alt unat_gt_0)
  show "unat (ph_virtual_address p) + unat (ph_memory_size p) \<le> unat user_max"
    "unat (ph_offset p) + unat (ph_file_size p) \<le> unat sz"
    using a s by (simp_all add: word_le_nat_alt)
qed

text \<open>The test for overlap is exact for spans below \<open>2 ^ 63\<close>.\<close>

lemma ranges_overlap_iff:
  assumes "unat a + n < 2 ^ 64" "unat b + k < 2 ^ 64" "unat x = n" "unat y = k"
  shows "ranges_overlap a x b y \<longleftrightarrow> unat a < unat b + k \<and> unat b < unat a + n"
  using assms by (auto simp: ranges_overlap_def word_less_nat_alt unat_word_ariths)

lemma segment_span_bound:
  assumes "segment_ok sz user_min user_max g" and "unat user_max < 2 ^ 43"
  shows "unat (seg_virtual_address g) + 4096 * unat (seg_page_count g) < 2 ^ 45"
proof -
  have "4096 * unat (seg_page_count g) \<le> unat (seg_memory_size g) + 4095"
    using assms(1) by (simp add: segment_ok_def)
  moreover have "unat (seg_virtual_address g) + unat (seg_memory_size g) \<le> unat user_max"
    using assms(1) by (simp add: segment_ok_def)
  ultimately have "unat (seg_virtual_address g) + 4096 * unat (seg_page_count g) \<le> unat user_max + 4095" by linarith
  then show ?thesis using assms(2) by simp
qed

definition program_segment :: "elf64_program_header \<Rightarrow> argus_elf_segment" where
  "program_segment p = \<lparr>seg_file_offset = ph_offset p, seg_file_size = ph_file_size p,
     seg_virtual_address = ph_virtual_address p, seg_memory_size = ph_memory_size p,
     seg_flags = ph_flags p, seg_page_count = of_nat ((unat (ph_memory_size p) + 4095) div 4096)\<rparr>"

lemma program_segment_ok:
  assumes "load_accepted sz user_min user_max p" and "unat user_max < 2 ^ 43"
  shows "segment_ok sz user_min user_max (program_segment p)"
    and "ucast (((ph_memory_size p + ELF_PAGE_SIZE - 1) AND NOT (ELF_PAGE_SIZE - 1)) div ELF_PAGE_SIZE) =
      seg_page_count (program_segment p)"
    and "unat ((ph_memory_size p + ELF_PAGE_SIZE - 1) AND NOT (ELF_PAGE_SIZE - 1)) =
      4096 * unat (seg_page_count (program_segment p))"
proof -
  note a = load_accepted_segment [OF assms(1)]
  define n where "n = (unat (ph_memory_size p) + 4095) div 4096"
  have m: "unat (ph_memory_size p) < 2 ^ 43" using a(4) assms(2) by simp
  then have n: "n < 2 ^ 32" by (simp add: n_def div_less_iff_less_mult)
  then have pc: "unat (seg_page_count (program_segment p)) = n"
    by (simp add: program_segment_def n_def unat_of_nat)
  then show "segment_ok sz user_min user_max (program_segment p)"
    using a by (simp add: segment_ok_def program_segment_def n_def)
  have r: "unat ((ph_memory_size p + ELF_PAGE_SIZE - 1) AND NOT (ELF_PAGE_SIZE - 1)) = n * 4096"
    unfolding n_def by (rule round_up_page) (use m in simp)
  then show "unat ((ph_memory_size p + ELF_PAGE_SIZE - 1) AND NOT (ELF_PAGE_SIZE - 1)) =
      4096 * unat (seg_page_count (program_segment p))" using pc by simp
  have "unat (((ph_memory_size p + ELF_PAGE_SIZE - 1) AND NOT (ELF_PAGE_SIZE - 1)) div ELF_PAGE_SIZE) = n"
    by (simp only: unat_div_distrib r) simp
  then show "ucast (((ph_memory_size p + ELF_PAGE_SIZE - 1) AND NOT (ELF_PAGE_SIZE - 1)) div ELF_PAGE_SIZE) =
      seg_page_count (program_segment p)"
    using n pc by (simp only: word_unat_eq_iff unat_ucast_narrow) simp
qed

text \<open>The accepting branch for a loadable segment.\<close>

lemma elf_load_program_load:
  assumes run: "elf_load_program sz user_min user_max entry p (img, ex, st) = Some (img', ex', st')"
    and type: "ph_type p \<noteq> ELF_PROGRAM_GNU_STACK" and max: "unat user_max < 2 ^ 43"
  defines "g \<equiv> program_segment p" and "n \<equiv> unat (elf_segment_count img)"
  shows "load_accepted sz user_min user_max p" "elf_segment_count img \<noteq> 8" "st' = st"
    "img' = img\<lparr>elf_segments := (elf_segments img)[n := g], elf_segment_count := elf_segment_count img + 1,
       elf_total_pages := elf_total_pages img + seg_page_count g\<rparr>"
    "seg_page_count g \<noteq> 0" "elf_total_pages img \<le> 16 - seg_page_count g"
    "i < n \<Longrightarrow> \<not> ranges_overlap (seg_virtual_address g)
       ((ph_memory_size p + ELF_PAGE_SIZE - 1) AND NOT (ELF_PAGE_SIZE - 1))
       (seg_virtual_address (elf_segments img ! i)) (ucast (seg_page_count (elf_segments img ! i)) * ELF_PAGE_SIZE)"
    "ex' \<longleftrightarrow> ex \<or> (ph_flags p AND ELF_FLAG_EXECUTE \<noteq> 0 \<and> ph_virtual_address p \<le> entry \<and>
       entry < ph_virtual_address p + ph_file_size p)"
proof -
  show la: "load_accepted sz user_min user_max p"
    using run type by (auto simp: elf_load_program_def split: if_splits)
  define r where "r = (ph_memory_size p + ELF_PAGE_SIZE - 1) AND NOT (ELF_PAGE_SIZE - 1)"
  have pc: "ucast (r div ELF_PAGE_SIZE) = seg_page_count g"
    using program_segment_ok(2) [OF la max] by (simp only: g_def r_def)
  have g: "\<lparr>seg_file_offset = ph_offset p, seg_file_size = ph_file_size p,
      seg_virtual_address = ph_virtual_address p, seg_memory_size = ph_memory_size p,
      seg_flags = ph_flags p, seg_page_count = seg_page_count g\<rparr> = g" by (simp add: g_def program_segment_def)
  note eq = run [unfolded elf_load_program_def prod.case Let_def, folded r_def, unfolded pc g, folded n_def]
  have va: "seg_virtual_address g = ph_virtual_address p" by (simp add: g_def program_segment_def)
  show "elf_segment_count img \<noteq> 8" "st' = st" "seg_page_count g \<noteq> 0" "elf_total_pages img \<le> 16 - seg_page_count g"
    "img' = img\<lparr>elf_segments := (elf_segments img)[n := g], elf_segment_count := elf_segment_count img + 1,
       elf_total_pages := elf_total_pages img + seg_page_count g\<rparr>"
    "ex' \<longleftrightarrow> ex \<or> (ph_flags p AND ELF_FLAG_EXECUTE \<noteq> 0 \<and> ph_virtual_address p \<le> entry \<and>
       entry < ph_virtual_address p + ph_file_size p)"
    using eq type by (auto split: if_splits simp: not_less)
  show "\<not> ranges_overlap (seg_virtual_address g) r
       (seg_virtual_address (elf_segments img ! i)) (ucast (seg_page_count (elf_segments img ! i)) * ELF_PAGE_SIZE)" if "i < n"
    using eq type that by (auto split: if_splits simp: list_ex_iff va)
qed

lemma image_inv_start: "image_inv sz user_min user_max entry (zero_elf_image, False, False)"
  by (simp add: image_inv_def zero_elf_image_def loaded_segments_def)

lemma elf_load_program_inv:
  assumes inv: "image_inv sz user_min user_max entry (img, ex, st)" and max: "unat user_max < 2 ^ 43"
    and run: "elf_load_program sz user_min user_max entry p (img, ex, st) = Some (img', ex', st')"
  shows "image_inv sz user_min user_max entry (img', ex', st')"
proof (cases "ph_type p = ELF_PROGRAM_GNU_STACK")
  case True
  then show ?thesis using run inv by (auto simp: elf_load_program_def image_inv_def split: if_splits)
next
  case type: False
  define g n where "g = program_segment p" and "n = unat (elf_segment_count img)"
  note l = elf_load_program_load [OF run type max, folded g_def n_def]
  have gok: "segment_ok sz user_min user_max g"
    and rs: "unat ((ph_memory_size p + ELF_PAGE_SIZE - 1) AND NOT (ELF_PAGE_SIZE - 1)) = 4096 * unat (seg_page_count g)"
    using program_segment_ok(1,3) [OF l(1) max] by (simp_all only: g_def)
  have len: "length (elf_segments img) = 8" "n \<le> 8" "n \<noteq> 8"
    using inv l(2) by (auto simp: image_inv_def n_def word_unat_eq_iff)
  have n1: "unat (elf_segment_count img + 1) = n + 1" using len by (simp add: n_def unat_word_ariths)
  have ls: "loaded_segments img' = loaded_segments img @ [g]"
    using len n1 by (simp add: loaded_segments_def l(4) n_def [symmetric] take_Suc_conv_app_nth)
  have ll: "length (loaded_segments img) = n" "\<And>i. i < n \<Longrightarrow> loaded_segments img ! i = elf_segments img ! i"
    using len by (simp_all add: loaded_segments_def n_def)
  have oks: "\<forall>x\<in>set (loaded_segments img). segment_ok sz user_min user_max x" using inv by (simp add: image_inv_def)
  have disj: "segment_span (loaded_segments img ! i) \<inter> segment_span g = {}" if i: "i < n" for i
  proof -
    let ?o = "loaded_segments img ! i"
    have o: "segment_ok sz user_min user_max ?o" using oks i ll(1) by simp
    note b = segment_span_bound [OF o max] segment_span_bound [OF gok max]
    have u: "unat (ucast (seg_page_count ?o) * ELF_PAGE_SIZE) = 4096 * unat (seg_page_count ?o)"
      using b(1) by (simp add: unat_word_ariths)
    have "\<not> (unat (seg_virtual_address g) < unat (seg_virtual_address ?o) + 4096 * unat (seg_page_count ?o) \<and>
        unat (seg_virtual_address ?o) < unat (seg_virtual_address g) + 4096 * unat (seg_page_count g))"
      using l(7) [OF i, folded ll(2) [OF i]] ranges_overlap_iff [OF _ _ rs u] b by simp
    then show ?thesis by (auto simp: segment_span_def)
  qed
  have en: "entry_in entry g" if "ph_flags p AND ELF_FLAG_EXECUTE \<noteq> 0" "ph_virtual_address p \<le> entry"
    "entry < ph_virtual_address p + ph_file_size p"
  proof -
    note a = load_accepted_segment [OF l(1)]
    have "unat (ph_virtual_address p + ph_file_size p) = unat (ph_virtual_address p) + unat (ph_file_size p)"
      using a(4,6) max by (simp add: unat_word_ariths)
    then show ?thesis
      using that by (simp add: entry_in_def g_def program_segment_def word_le_nat_alt word_less_nat_alt)
  qed
  have "\<forall>i j. i < j \<and> j < length (loaded_segments img') \<longrightarrow>
      segment_span (loaded_segments img' ! i) \<inter> segment_span (loaded_segments img' ! j) = {}"
    using inv disj ll(1) by (auto simp: image_inv_def ls nth_append less_Suc_eq)
  moreover have "ex' \<longrightarrow> (\<exists>x\<in>set (loaded_segments img'). entry_in entry x)"
    using inv l(8) en by (auto simp: image_inv_def ls)
  ultimately show ?thesis
    using inv len n1 gok oks by (simp add: image_inv_def ls l(3)) (simp add: l(4) image_inv_def)
qed

lemma elf_load_programs_inv:
  "image_inv sz user_min user_max entry s \<Longrightarrow> unat user_max < 2 ^ 43 \<Longrightarrow>
    elf_load_programs sz user_min user_max entry ps s = Some s' \<Longrightarrow> image_inv sz user_min user_max entry s'"
proof (induction ps arbitrary: s)
  case (Cons p ps)
  obtain t where t: "elf_load_program sz user_min user_max entry p s = Some t"
    "elf_load_programs sz user_min user_max entry ps t = Some s'" using Cons.prems(3) by (auto split: option.splits)
  obtain a b c a' b' c' where e: "s = (a, b, c)" "t = (a', b', c')" by (metis prod_cases3)
  have "image_inv sz user_min user_max entry t"
    using elf_load_program_inv [of sz user_min user_max entry a b c p a' b' c'] Cons.prems(1,2) t(1) by (simp only: e)
  then show ?case using Cons.IH [OF _ Cons.prems(2) t(2)] by blast
qed simp

section \<open>Properties\<close>

text \<open>
  Claim C17. An image that \<^verbatim>\<open>elf_validate_user_image\<close> accepts is safe to load into the user window: it has
  between one and eight segments; each is page aligned, lies inside the window with its file bytes inside
  the file, is never writable and executable at once, and has exactly the pages of its memory size; the
  pages of two segments never overlap; and the entry point lies in the file-backed part of an executable
  segment.
\<close>

theorem elf_image_sound:
  assumes "elf_validate_user_image bytes sz user_min user_max = Some img" and "unat user_max < 2 ^ 43"
  defines "gs \<equiv> loaded_segments img"
  shows "1 \<le> length gs \<and> length gs \<le> 8 \<and> (\<forall>g\<in>set gs. segment_ok sz user_min user_max g) \<and>
    (\<forall>i j. i < j \<and> j < length gs \<longrightarrow> segment_span (gs ! i) \<inter> segment_span (gs ! j) = {}) \<and>
    (\<exists>g\<in>set gs. entry_in (elf_entry img) g) \<and> elf_total_pages img = sum_list (map seg_page_count gs)"
proof -
  obtain im st where r: "elf_load_programs sz user_min user_max (eh_entry (read_header bytes))
      (map (\<lambda>index. read_program bytes (unat (eh_program_header_offset (read_header bytes) + of_nat index * 56)))
        [0..<unat (eh_program_header_count (read_header bytes))]) (zero_elf_image, False, False) = Some (im, True, st)"
    and im: "img = im\<lparr>elf_entry := eh_entry (read_header bytes)\<rparr>" "elf_segment_count im \<noteq> 0"
    using assms(1) by (auto simp: elf_validate_user_image_def Let_def split: if_splits option.splits)
  have inv: "image_inv sz user_min user_max (eh_entry (read_header bytes)) (im, True, st)"
    by (rule elf_load_programs_inv [OF image_inv_start assms(2) r])
  have ls: "gs = loaded_segments im" by (simp add: gs_def im(1) loaded_segments_def)
  have "length gs = unat (elf_segment_count im)" using inv by (simp add: ls loaded_segments_def image_inv_def)
  moreover have "0 < unat (elf_segment_count im)" using im(2) by (simp add: unat_gt_0)
  ultimately show ?thesis using inv unfolding image_inv_def prod.case ls [symmetric] by (simp add: im(1))
qed

text \<open>
  An executable with one segment of code at the start of the window: one page with \<open>b = 0\<close>, seventeen
  with \<open>b = 1\<close>.
\<close>

definition elf_example :: "u8 \<Rightarrow> u8 list" where
  "elf_example b =
    [127, 69, 76, 70, 2, 1, 1, 0, 0, 0, 0, 0, 0, 0, 0, 0, 2, 0, 62, 0, 1, 0, 0, 0, 0, 16, 0, 0,
     128, 0, 0, 0, 64, 0, 0, 0, 0, 0, 0, 0, 0, 0, 0, 0, 0, 0, 0, 0, 0, 0, 0, 0, 64, 0, 56, 0, 2,
     0, 0, 0, 0, 0, 0, 0] @
    [1, 0, 0, 0, 5, 0, 0, 0, 0, 0, 0, 0, 0, 0, 0, 0, 0, 16, 0, 0, 128, 0, 0, 0, 0, 0, 0, 0, 0,
     0, 0, 0, 176, 0, 0, 0, 0, 0, 0, 0] @
    [0, 16, b, 0, 0, 0, 0, 0] @ [0, 16, 0, 0, 0, 0, 0, 0] @
    [81, 229, 116, 100, 6, 0, 0, 0, 0, 0, 0, 0, 0, 0, 0, 0, 0, 0, 0, 0, 0, 0, 0, 0, 0, 0, 0, 0,
     0, 0, 0, 0, 0, 0, 0, 0, 0, 0, 0, 0, 0, 0, 0, 0, 0, 0, 0, 0, 0, 0, 0, 0, 0, 0, 0, 0]"

abbreviation (input) elf_example_image :: "u64 \<Rightarrow> u32 \<Rightarrow> argus_elf_image" where
  "elf_example_image bytes pages \<equiv> \<lparr>elf_entry = 0x8000001000, elf_segment_count = 1, elf_total_pages = pages,
     elf_segments = (replicate 8 zero_elf_segment)[0 := \<lparr>seg_file_offset = 0, seg_file_size = 176,
       seg_virtual_address = 0x8000001000, seg_memory_size = bytes, seg_flags = 5, seg_page_count = pages\<rparr>]\<rparr>"

lemma elf_example_header:
  "read_header (elf_example b) = \<lparr>eh_identification = take 16 (elf_example b), eh_type = 2, eh_machine = 62,
     eh_version = 1, eh_entry = 0x8000001000, eh_program_header_offset = 64, eh_flags = 0,
     eh_header_size = 64, eh_program_header_size = 56, eh_program_header_count = 2\<rparr>"
  by (simp add: read_header_def le16_def le32_def le64_def elf_example_def)

lemma elf_example_programs:
  "read_program (elf_example 0) 64 = \<lparr>ph_type = 1, ph_flags = 5, ph_offset = 0, ph_virtual_address = 0x8000001000,
     ph_physical_address = 0, ph_file_size = 176, ph_memory_size = 0x1000, ph_alignment = 4096\<rparr>"
  "read_program (elf_example 1) 64 = \<lparr>ph_type = 1, ph_flags = 5, ph_offset = 0, ph_virtual_address = 0x8000001000,
     ph_physical_address = 0, ph_file_size = 176, ph_memory_size = 0x11000, ph_alignment = 4096\<rparr>"
  "read_program (elf_example b) 120 = \<lparr>ph_type = 0x6474E551, ph_flags = 6, ph_offset = 0, ph_virtual_address = 0,
     ph_physical_address = 0, ph_file_size = 0, ph_memory_size = 0, ph_alignment = 0\<rparr>"
  by (simp_all add: read_program_def le16_def le32_def le64_def elf_example_def)

lemma elf_example_accepted:
  "elf_validate_user_image (elf_example 0) 176 0x8000001000 0x80001FF000 = Some (elf_example_image 0x1000 1)"
  "elf_validate_user_image (elf_example 1) 176 0x8000001000 0x80001FF000 = Some (elf_example_image 0x11000 17)"
proof -
  have h: "header_accepted (read_header (elf_example b))" for b
    by (simp add: elf_example_header) (simp add: header_accepted_def elf_example_def)
  have u: "[0..<2] = [0, 1 :: nat]" by (simp add: numeral_2_eq_2)
  note d = elf_load_program_def stack_accepted_def load_accepted_def add_overflows_def zero_elf_image_def Let_def
  show "elf_validate_user_image (elf_example 0) 176 0x8000001000 0x80001FF000 = Some (elf_example_image 0x1000 1)"
    using h [of 0] by (simp add: elf_validate_user_image_def elf_example_header u elf_example_programs
      add_overflows_def Let_def) (simp add: d)
  show "elf_validate_user_image (elf_example 1) 176 0x8000001000 0x80001FF000 = Some (elf_example_image 0x11000 17)"
    using h [of 1] by (simp add: elf_validate_user_image_def elf_example_header u elf_example_programs
      add_overflows_def Let_def) (simp add: d)
qed

theorem elf_image_sound_witness:
  "\<exists>img. elf_validate_user_image (elf_example 0) 176 0x8000001000 0x80001FF000 = Some img \<and>
    (\<exists>g\<in>set (loaded_segments img). entry_in (elf_entry img) g)"
  using elf_image_sound [OF elf_example_accepted(1)] elf_example_accepted(1) by simp

text \<open>
  Claim C18. The limit of 16 image pages is enforced only for segments of at most 16 pages. Adding a
  segment keeps the running total within the limit when the segment itself has at most 16 pages; the
  test subtracts in 32 bits, so for a larger segment the limit wraps around and an image of 17 pages in
  one segment is accepted.
\<close>

theorem elf_page_limit:
  "(\<forall>sz user_min user_max entry p img ex st img' ex' st'.
      elf_load_program sz user_min user_max entry p (img, ex, st) = Some (img', ex', st') \<and>
      unat user_max < 2 ^ 43 \<and> elf_total_pages img \<le> 16 \<and> unat (ph_memory_size p) \<le> 16 * 4096 \<longrightarrow>
      elf_total_pages img' \<le> 16) \<and>
   (\<exists>bytes img. elf_validate_user_image bytes 176 0x8000001000 0x80001FF000 = Some img \<and> elf_total_pages img = 17)"
proof (intro conjI allI impI)
  fix sz user_min user_max entry p img ex st img' ex' st'
  assume a: "elf_load_program sz user_min user_max entry p (img, ex, st) = Some (img', ex', st') \<and>
      unat user_max < 2 ^ 43 \<and> elf_total_pages img \<le> 16 \<and> unat (ph_memory_size p) \<le> 16 * 4096"
  show "elf_total_pages img' \<le> 16"
  proof (cases "ph_type p = ELF_PROGRAM_GNU_STACK")
    case True
    then show ?thesis using a by (auto simp: elf_load_program_def split: if_splits)
  next
    case False
    note l = elf_load_program_load [OF conjunct1 [OF a] False]
    let ?n = "seg_page_count (program_segment p)"
    have "(unat (ph_memory_size p) + 4095) div 4096 < 17" using a by (intro less_mult_imp_div_less) simp
    then have n: "unat ?n \<le> 16" by (simp add: program_segment_def unat_of_nat)
    have "unat (16 - ?n) = 16 - unat ?n" using n by (simp add: unat_sub word_le_nat_alt)
    then have "unat (elf_total_pages img) + unat ?n \<le> 16" using l(6) a n by (simp add: word_le_nat_alt)
    then have "elf_total_pages img + ?n \<le> 16" by (simp add: word_le_nat_alt unat_word_ariths)
    then show ?thesis using l(4) a by simp
  qed
next
  show "\<exists>bytes img. elf_validate_user_image bytes 176 0x8000001000 0x80001FF000 = Some img \<and> elf_total_pages img = 17"
    using elf_example_accepted(2) by (intro exI [of _ "elf_example 1"]) simp
qed

theorem elf_page_limit_witness:
  "\<exists>img ex st. elf_load_program 176 0x8000001000 0x80001FF000 0x8000001000 (read_program (elf_example 0) 64)
      (zero_elf_image, False, False) = Some (img, ex, st) \<and> elf_total_pages img \<le> 16"
proof -
  obtain img ex st where "elf_load_program 176 0x8000001000 0x80001FF000 0x8000001000 (read_program (elf_example 0) 64)
      (zero_elf_image, False, False) = Some (img, ex, st)"
    by (simp add: elf_example_programs elf_load_program_def load_accepted_def add_overflows_def zero_elf_image_def Let_def) blast
  moreover from conjunct1 [OF elf_page_limit, rule_format, OF conjI, OF this] have "elf_total_pages img \<le> 16"
    by (simp add: zero_elf_image_def elf_example_programs)
  ultimately show ?thesis by blast
qed

end
