(* ===== verification/Arch.thy ===== *)
theory Arch
  imports Page_Table
begin

text \<open>
  The processor tables of \<^verbatim>\<open>src/arch.c\<close>: the descriptor table with the task state segment, the
  interrupt gates, the system-call registers and the table of interrupt handlers. The addresses that
  the linker chooses (stubs, stacks, the tables themselves) are parameters; a handler is its address.
\<close>

section \<open>Data\<close>

record idt_gate =
  offset_low :: u16
  gate_selector :: u16
  gate_ist :: u8
  type_attributes :: u8
  offset_middle :: u16
  offset_high :: u32
  gate_reserved :: u32

record task_state_segment =
  tss_rsp :: "u64 list"
  tss_ist :: "u64 list"
  io_map_base :: u16

record interrupt_frame =
  frame_r15 :: u64
  frame_r14 :: u64
  frame_r13 :: u64
  frame_r12 :: u64
  frame_r11 :: u64
  frame_r10 :: u64
  frame_r9 :: u64
  frame_r8 :: u64
  frame_rdi :: u64
  frame_rsi :: u64
  frame_rbp :: u64
  frame_rdx :: u64
  frame_rcx :: u64
  frame_rbx :: u64
  frame_rax :: u64
  frame_vector :: u64
  frame_error_code :: u64
  frame_rip :: u64
  frame_cs :: u64
  frame_rflags :: u64
  frame_rsp :: u64
  frame_ss :: u64

record arch_user_context =
  ctx_r15 :: u64
  ctx_r14 :: u64
  ctx_r13 :: u64
  ctx_r12 :: u64
  ctx_r11 :: u64
  ctx_r10 :: u64
  ctx_r9 :: u64
  ctx_r8 :: u64
  ctx_rdi :: u64
  ctx_rsi :: u64
  ctx_rbp :: u64
  ctx_rdx :: u64
  ctx_rcx :: u64
  ctx_rbx :: u64
  ctx_rax :: u64
  ctx_rip :: u64
  ctx_rflags :: u64
  ctx_rsp :: u64

abbreviation (input) ARCH_USER_ACTION_RETURN :: u64 where "ARCH_USER_ACTION_RETURN \<equiv> 0"
abbreviation (input) ARCH_USER_ACTION_YIELD :: u64 where "ARCH_USER_ACTION_YIELD \<equiv> 1"
abbreviation (input) ARCH_USER_ACTION_EXIT :: u64 where "ARCH_USER_ACTION_EXIT \<equiv> 2"
abbreviation (input) ARCH_USER_ACTION_WAIT :: u64 where "ARCH_USER_ACTION_WAIT \<equiv> 3"
abbreviation (input) ARCH_USER_ACTION_PREEMPT :: u64 where "ARCH_USER_ACTION_PREEMPT \<equiv> 4"
abbreviation (input) ARCH_USER_ACTION_FAULT :: u64 where "ARCH_USER_ACTION_FAULT \<equiv> 5"

abbreviation (input) ARGUS_APIC_TIMER_VECTOR :: u64 where "ARGUS_APIC_TIMER_VECTOR \<equiv> 0x40"
abbreviation (input) ARGUS_PS2_KEYBOARD_VECTOR :: u64 where "ARGUS_PS2_KEYBOARD_VECTOR \<equiv> 0x41"
abbreviation (input) ARGUS_PS2_MOUSE_VECTOR :: u64 where "ARGUS_PS2_MOUSE_VECTOR \<equiv> 0x42"
abbreviation (input) ARGUS_APIC_SPURIOUS_VECTOR :: u64 where "ARGUS_APIC_SPURIOUS_VECTOR \<equiv> 0xFF"

text \<open>The static tables, with what the load instructions made current.\<close>

record arch =
  gdt :: "u64 list"
  idt :: "idt_gate list"
  interrupt_handlers :: "u64 list"
  tss :: task_state_segment
  loaded_gdt :: "u16 \<times> u64"
  loaded_idt :: "u16 \<times> u64"
  task_register :: u16
  pic_masks :: "u8 \<times> u8"
  syscall_kernel_rsp :: u64

text \<open>What the linker places.\<close>

record arch_layout =
  gdt_address :: u64
  idt_address :: u64
  tss_address :: u64
  double_fault_stack :: u64
  isr_stub_table :: "u64 list"
  syscall_entry :: u64

abbreviation (input) DOUBLE_FAULT_STACK_BYTES :: u64 where "DOUBLE_FAULT_STACK_BYTES \<equiv> 16384"
abbreviation (input) TSS_SELECTOR :: u16 where "TSS_SELECTOR \<equiv> 0x28"

section \<open>Operations\<close>

definition zero_gate :: idt_gate where
  "zero_gate = \<lparr>offset_low = 0, gate_selector = 0, gate_ist = 0, type_attributes = 0,
     offset_middle = 0, offset_high = 0, gate_reserved = 0\<rparr>"

definition set_idt_gate :: "u64 \<Rightarrow> u64 \<Rightarrow> u8 \<Rightarrow> arch \<Rightarrow> arch" where
  "set_idt_gate vector address ist a =
    a\<lparr>idt := (idt a)[unat vector := \<lparr>offset_low = ucast address, gate_selector = 0x08,
       gate_ist = ist AND 7, type_attributes = 0x8E, offset_middle = ucast (drop_bit 16 address),
       offset_high = ucast (drop_bit 32 address), gate_reserved = 0\<rparr>]\<rparr>"

definition initialize_tss :: "arch_layout \<Rightarrow> arch \<Rightarrow> arch" where
  "initialize_tss l a =
    (let a = a\<lparr>tss := \<lparr>tss_rsp = replicate 3 0,
           tss_ist = (replicate 7 0)[0 := double_fault_stack l + DOUBLE_FAULT_STACK_BYTES],
           io_map_base = 104\<rparr>\<rparr>;
         base = tss_address l; limit = (104 - 1 :: u64)
     in a\<lparr>gdt := (gdt a)[5 := (limit AND 0xFFFF) OR push_bit 16 (base AND 0xFFFFFF) OR push_bit 40 0x89 OR
            push_bit 48 (drop_bit 16 limit AND 0xF) OR push_bit 56 (drop_bit 24 base AND 0xFF),
          6 := drop_bit 32 base]\<rparr>)"

definition arch_init :: "arch_layout \<Rightarrow> arch \<Rightarrow> bool \<times> arch" where
  "arch_init l a =
    (let a = a\<lparr>gdt := (gdt a)[0 := 0, 1 := 0x00AF9A000000FFFF, 2 := 0x00CF92000000FFFF,
           3 := 0x00CFF2000000FFFF, 4 := 0x00AFFA000000FFFF]\<rparr>;
         a = initialize_tss l a;
         a = a\<lparr>loaded_gdt := (56 - 1, gdt_address l), task_register := 0x28\<rparr>;
         a = a\<lparr>interrupt_handlers := fold (\<lambda>i hs. hs[i := 0]) [0..<256] (interrupt_handlers a),
               idt := fold (\<lambda>i gs. gs[i := zero_gate]) [0..<256] (idt a)\<rparr>;
         a = fold (\<lambda>vector. set_idt_gate (of_nat vector) (isr_stub_table l ! vector) (if vector = 8 then 1 else 0))
               [0..<32] a;
         a = set_idt_gate ARGUS_APIC_TIMER_VECTOR (isr_stub_table l ! 32) 0 a;
         a = set_idt_gate ARGUS_PS2_KEYBOARD_VECTOR (isr_stub_table l ! 33) 0 a;
         a = set_idt_gate ARGUS_PS2_MOUSE_VECTOR (isr_stub_table l ! 34) 0 a;
         a = set_idt_gate ARGUS_APIC_SPURIOUS_VECTOR (isr_stub_table l ! 35) 0 a;
         a = a\<lparr>loaded_idt := (4096 - 1, idt_address l), pic_masks := (0xFF, 0xFF)\<rparr>
     in (task_register a = TSS_SELECTOR, a))"

definition arch_syscall_init :: "arch_layout \<Rightarrow> u64 \<Rightarrow> arch \<Rightarrow> vm \<Rightarrow> bool \<times> arch \<times> vm" where
  "arch_syscall_init l kernel_stack_top a s =
    (if kernel_stack_top = 0 \<or> kernel_stack_top AND 0xF \<noteq> 0 then (False, a, s)
     else
       let a = a\<lparr>tss := (tss a)\<lparr>tss_rsp := (tss_rsp (tss a))[0 := kernel_stack_top]\<rparr>,
                 syscall_kernel_rsp := kernel_stack_top\<rparr>;
           efer = cpu_rdmsr 0xC0000080 s;
           s = cpu_wrmsr 0xC0000080 (efer OR 1) s;
           s = cpu_wrmsr 0xC0000081 (push_bit 48 (0x18 - 8) OR push_bit 32 0x08) s;
           s = cpu_wrmsr 0xC0000082 (syscall_entry l) s;
           s = cpu_wrmsr 0xC0000084 (0x200 OR 0x400) s
       in (cpu_rdmsr 0xC0000080 s AND 1 \<noteq> 0, a, s))"

definition arch_trigger_double_fault :: "arch \<Rightarrow> arch" where
  "arch_trigger_double_fault a =
    a\<lparr>idt := (idt a)[14 := (idt a ! 14)\<lparr>type_attributes := type_attributes (idt a ! 14) AND 0x7F\<rparr>]\<rparr>"

definition interrupt_register :: "u8 \<Rightarrow> u64 \<Rightarrow> arch \<Rightarrow> bool \<times> arch" where
  "interrupt_register vector handler a =
    (if vector < 32 \<or> handler = 0 \<or> interrupt_handlers a ! unat vector \<noteq> 0 then (False, a)
     else (True, a\<lparr>interrupt_handlers := (interrupt_handlers a)[unat vector := handler]\<rparr>))"

definition interrupt_unregister :: "u8 \<Rightarrow> u64 \<Rightarrow> arch \<Rightarrow> bool \<times> arch" where
  "interrupt_unregister vector handler a =
    (if handler = 0 \<or> interrupt_handlers a ! unat vector \<noteq> handler then (False, a)
     else (True, a\<lparr>interrupt_handlers := (interrupt_handlers a)[unat vector := 0]\<rparr>))"

end
