(* ===== verification/Apic.thy ===== *)
theory Apic
  imports Acpi Arch
begin

text \<open>
  The interrupt controllers, \<^verbatim>\<open>src/apic.c\<close>. The registers of the local controller are a register file
  indexed by word, or model-specific registers in x2 mode. The I/O controller is reached through its
  select and data words; what one of its registers holds after a write is the parameter
  \<open>ioapic_latch\<close> (its read-only bits do not take the written value).
\<close>

record apic =
  lapic :: u64
  x2apic_mode :: bool
  timer_ticks :: u64
  lapic_registers :: "u32 \<Rightarrow> u32"
  ioapic_select :: u32
  ioapic_registers :: "u32 \<Rightarrow> u32"
  ioapic_latch :: "u32 \<Rightarrow> u32 \<Rightarrow> u32"

abbreviation (input) APIC_TPR :: u32 where "APIC_TPR \<equiv> 0x080"
abbreviation (input) APIC_ID :: u32 where "APIC_ID \<equiv> 0x020"
abbreviation (input) APIC_EOI :: u32 where "APIC_EOI \<equiv> 0x0B0"
abbreviation (input) APIC_SVR :: u32 where "APIC_SVR \<equiv> 0x0F0"
abbreviation (input) APIC_LVT_TIMER :: u32 where "APIC_LVT_TIMER \<equiv> 0x320"
abbreviation (input) APIC_INITIAL_COUNT :: u32 where "APIC_INITIAL_COUNT \<equiv> 0x380"
abbreviation (input) APIC_DIVIDE_CONFIG :: u32 where "APIC_DIVIDE_CONFIG \<equiv> 0x3E0"
abbreviation (input) IOAPIC_REDIRECT_WRITABLE_LOW :: u32 where "IOAPIC_REDIRECT_WRITABLE_LOW \<equiv> 0x1AFFF"

section \<open>Operations\<close>

definition apic_read :: "u32 \<Rightarrow> apic \<Rightarrow> vm \<Rightarrow> u32" where
  "apic_read offset a s =
    (if x2apic_mode a then ucast (cpu_rdmsr (0x800 + offset div 16) s) else lapic_registers a (offset div 4))"

definition apic_write :: "u32 \<Rightarrow> u32 \<Rightarrow> apic \<Rightarrow> vm \<Rightarrow> apic \<times> vm" where
  "apic_write offset v a s =
    (if x2apic_mode a then (a, cpu_wrmsr (0x800 + offset div 16) (ucast v) s)
     else (a\<lparr>lapic_registers := (lapic_registers a)(offset div 4 := v)\<rparr>, s))"

definition ioapic_read :: "u8 \<Rightarrow> apic \<Rightarrow> u32 \<times> apic" where
  "ioapic_read reg a =
    (let a = a\<lparr>ioapic_select := ucast reg\<rparr> in (ioapic_registers a (ioapic_select a), a))"

definition ioapic_write :: "u8 \<Rightarrow> u32 \<Rightarrow> apic \<Rightarrow> apic" where
  "ioapic_write reg v a =
    (let a = a\<lparr>ioapic_select := ucast reg\<rparr>
     in a\<lparr>ioapic_registers := (ioapic_registers a)(ioapic_select a := ioapic_latch a (ioapic_select a) v)\<rparr>)"

text \<open>\<^verbatim>\<open>timer_handler\<close> is the address of the timer's handler.\<close>

definition apic_init :: "u64 \<Rightarrow> acpi_info option \<Rightarrow> apic \<Rightarrow> arch \<Rightarrow> vm \<Rightarrow> bool \<times> apic \<times> arch \<times> vm" where
  "apic_init timer_handler acpi a h s =
    (case acpi of None \<Rightarrow> (False, a, h, s)
     | Some info \<Rightarrow>
       if local_apic_address info = 0 then (False, a, h, s)
       else
         let (ok, h) = interrupt_register (ucast ARGUS_APIC_TIMER_VECTOR) timer_handler h in
         if \<not> ok then (False, a, h, s)
         else
           let apic_base = cpu_rdmsr 0x1B s;
               a = a\<lparr>x2apic_mode := apic_base AND 0x400 \<noteq> 0\<rparr>;
               apic_base = apic_base OR 0x800;
               s = cpu_wrmsr 0x1B apic_base s;
               a = a\<lparr>lapic := local_apic_address info, timer_ticks := 0\<rparr>;
               (a, s) = apic_write APIC_TPR 0 a s;
               (a, s) = apic_write APIC_SVR (0x100 OR ucast ARGUS_APIC_SPURIOUS_VECTOR) a s;
               (a, s) = apic_write APIC_DIVIDE_CONFIG 0x3 a s;
               (a, s) = apic_write APIC_LVT_TIMER (0x20000 OR ucast ARGUS_APIC_TIMER_VECTOR) a s;
               (a, s) = apic_write APIC_INITIAL_COUNT 1000000 a s
           in (apic_read APIC_SVR a s AND 0x100 \<noteq> 0, a, h, s))"

text \<open>The low word of a redirection entry.\<close>

definition redirect_low :: "u8 \<Rightarrow> u32 \<Rightarrow> u32 \<Rightarrow> u32" where
  "redirect_low vector polarity trigger =
    (let low = ucast vector;
         low = (if polarity = 3 then low OR push_bit 13 1 else low)
     in if trigger = 3 then low OR push_bit 15 1 else low)"

definition apic_route_gsi :: "acpi_info option \<Rightarrow> u32 \<Rightarrow> u16 \<Rightarrow> u8 \<Rightarrow> apic \<Rightarrow> vm \<Rightarrow> bool \<times> apic" where
  "apic_route_gsi acpi gsi flags vector a s =
    (case acpi of None \<Rightarrow> (False, a)
     | Some info \<Rightarrow>
       if io_apic_address info = 0 \<or> lapic a = 0 \<or> vector < 32 \<or>
          ucast vector = ARGUS_APIC_SPURIOUS_VECTOR \<or> gsi < io_apic_gsi_base info
       then (False, a)
       else
         let polarity = ucast flags AND 3 :: u32;
             trigger = drop_bit 2 (ucast flags) AND 3 :: u32 in
         if polarity = 2 \<or> trigger = 2 then (False, a)
         else
           let redirection = gsi - io_apic_gsi_base info;
               (version, a) = ioapic_read 1 a;
               maximum = drop_bit 16 version AND 0xFF in
           if maximum < redirection \<or> 119 < redirection then (False, a)
           else
             let apic_id = apic_read APIC_ID a s;
                 apic_id = (if x2apic_mode a then apic_id else drop_bit 24 apic_id) in
             if 0xFF < apic_id then (False, a)
             else
               let low = redirect_low vector polarity trigger;
                   low_register = ucast (0x10 + redirection * 2) :: u8;
                   a = ioapic_write low_register (push_bit 16 1) a;
                   a = ioapic_write (ucast (ucast low_register + 1 :: u32)) (push_bit 24 apic_id) a;
                   a = ioapic_write low_register low a;
                   (readback, a) = ioapic_read low_register a in
               if readback AND IOAPIC_REDIRECT_WRITABLE_LOW \<noteq> low
               then (False, ioapic_write low_register (low OR push_bit 16 1) a)
               else (True, a))"

definition apic_eoi :: "apic \<Rightarrow> vm \<Rightarrow> apic \<times> vm" where
  "apic_eoi a s = apic_write APIC_EOI 0 a s"

definition apic_timer_interrupt :: "apic \<Rightarrow> vm \<Rightarrow> apic \<times> vm" where
  "apic_timer_interrupt a s = apic_eoi (a\<lparr>timer_ticks := timer_ticks a + 1\<rparr>) s"

definition apic_timer_ticks :: "apic \<Rightarrow> u64" where "apic_timer_ticks a = timer_ticks a"

section \<open>Routing\<close>

text \<open>Register pairs of the redirection table.\<close>

lemma redirection_registers:
  assumes "r \<le> (119 :: u32)"
  shows "unat (ucast (0x10 + r * 2) :: u8) = 16 + 2 * unat r"
    and "unat (ucast (ucast (ucast (0x10 + r * 2) :: u8) + 1 :: u32) :: u8) = 17 + 2 * unat r"
proof -
  have r: "unat r \<le> 119" using assms by (simp add: word_le_nat_alt)
  have m: "unat (r * 2) = unat r * 2" using r by (simp add: unat_mult_lem [THEN iffD1])
  have u: "unat (0x10 + r * 2) = 16 + 2 * unat r" using r m by (simp add: unat_add_lem [THEN iffD1])
  show 1: "unat (ucast (0x10 + r * 2) :: u8) = 16 + 2 * unat r"
    using r u by (simp add: unsigned_ucast_eq take_bit_eq_mod)
  have "unat (ucast (ucast (0x10 + r * 2) :: u8) + 1 :: u32) = 17 + 2 * unat r"
    using r 1 by (simp add: unat_word_ariths unsigned_ucast_eq take_bit_eq_mod)
  then show "unat (ucast (ucast (ucast (0x10 + r * 2) :: u8) + 1 :: u32) :: u8) = 17 + 2 * unat r"
    using r by (simp add: unsigned_ucast_eq take_bit_eq_mod)
qed

definition destination_id :: "apic \<Rightarrow> vm \<Rightarrow> u32" where
  "destination_id a s = (if x2apic_mode a then apic_read APIC_ID a s else drop_bit 24 (apic_read APIC_ID a s))"

lemma redirection_words:
  assumes "r \<le> (119 :: u32)"
  shows "ucast (ucast (0x10 + r * 2) :: u8) = (of_nat (16 + 2 * unat r) :: u32)"
    and "ucast (ucast (ucast (ucast (0x10 + r * 2) :: u8) + 1 :: u32) :: u8) = (of_nat (17 + 2 * unat r) :: u32)"
proof -
  have "ucast w = (of_nat (unat w) :: u32)" for w :: u8
    by (simp add: word_unat_eq_iff unsigned_ucast_eq unsigned_of_nat)
  then show "ucast (ucast (0x10 + r * 2) :: u8) = (of_nat (16 + 2 * unat r) :: u32)"
    and "ucast (ucast (ucast (ucast (0x10 + r * 2) :: u8) + 1 :: u32) :: u8) = (of_nat (17 + 2 * unat r) :: u32)"
    by (metis redirection_registers [OF assms])+
qed

lemma redirect_pair_distinct: "n \<le> 119 \<Longrightarrow> (of_nat (16 + 2 * n) :: u32) \<noteq> of_nat (17 + 2 * n)"
  by (simp add: word_unat_eq_iff unsigned_of_nat take_bit_nat_eq_self del: of_nat_add)

lemma two_bits:
  fixes w :: u32
  shows "w AND 3 = 3 \<longleftrightarrow> bit w 0 \<and> bit w 1" "w AND 3 = 2 \<longleftrightarrow> \<not> bit w 0 \<and> bit w 1"
proof -
  have m: "v AND 3 = take_bit 2 v" for v :: u32 by (simp add: take_bit_eq_mask mask_eq_exp_minus_1)
  have e: "take_bit 2 v = take_bit 2 u \<longleftrightarrow> (bit v 0 \<longleftrightarrow> bit u 0) \<and> (bit v 1 \<longleftrightarrow> bit u 1)" for u v :: u32
  proof -
    have "take_bit 2 v = take_bit 2 u \<longleftrightarrow> (\<forall>i<2. bit v i \<longleftrightarrow> bit u i)"
      by (auto intro!: bit_word_eqI simp: bit_take_bit_iff dest: arg_cong [where f = "\<lambda>w. bit w _"])
    also have "\<dots> \<longleftrightarrow> (bit v 0 \<longleftrightarrow> bit u 0) \<and> (bit v 1 \<longleftrightarrow> bit u 1)" by (auto simp: less_2_cases_iff)
    finally show ?thesis .
  qed
  have "take_bit 2 (3 :: u32) = 3" "take_bit 2 (2 :: u32) = 2" by simp_all
  with e [of w 3] e [of w 2] show "w AND 3 = 3 \<longleftrightarrow> bit w 0 \<and> bit w 1" "w AND 3 = 2 \<longleftrightarrow> \<not> bit w 0 \<and> bit w 1"
    unfolding m by simp_all
qed

text \<open>
  The fields of a redirection entry, by their positions in the controller's register: vector in bits 0 to
  7, delivery mode in bits 8 to 10, destination mode in bit 11, polarity in bit 13, trigger mode in bit 15,
  mask in bit 16. In the flags of an interrupt source override, bits 0 and 1 give the polarity and bits 2
  and 3 the trigger mode, both set for active low and for level triggered.
\<close>

definition routed_entry :: "u32 \<Rightarrow> u8 \<Rightarrow> u16 \<Rightarrow> bool" where
  "routed_entry e vector flags \<longleftrightarrow> (\<forall>i<8. bit e i \<longleftrightarrow> bit vector i) \<and>
     \<not> bit e 8 \<and> \<not> bit e 9 \<and> \<not> bit e 10 \<and> \<not> bit e 11 \<and>
     (bit e 13 \<longleftrightarrow> bit flags 0 \<and> bit flags 1) \<and> (bit e 15 \<longleftrightarrow> bit flags 2 \<and> bit flags 3) \<and> \<not> bit e 16"

lemma bit_redirect_low:
  "bit (redirect_low vector polarity trigger) i \<longleftrightarrow>
     bit vector i \<or> i = 13 \<and> polarity = 3 \<or> i = 15 \<and> trigger = 3"
proof -
  have "bit (push_bit k 1 :: u32) i \<longleftrightarrow> i = k \<and> k < 32" for k by (auto simp: bit_exp_iff)
  from this [of 13] this [of 15] have "bit (push_bit 13 1 :: u32) i \<longleftrightarrow> i = 13" "bit (push_bit 15 1 :: u32) i \<longleftrightarrow> i = 15" by simp_all
  moreover have "bit (ucast vector :: u32) i \<longleftrightarrow> bit vector i" by (auto simp: bit_ucast_iff dest: bit_imp_le_length)
  ultimately show ?thesis unfolding redirect_low_def Let_def by (simp add: bit_or_iff del: push_bit_of_1 push_bit_numeral)
qed

lemma writable_bits:
  "i < 12 \<Longrightarrow> bit IOAPIC_REDIRECT_WRITABLE_LOW i" "bit IOAPIC_REDIRECT_WRITABLE_LOW 13" "bit IOAPIC_REDIRECT_WRITABLE_LOW 15"
  "bit IOAPIC_REDIRECT_WRITABLE_LOW 16"
proof -
  have "\<forall>i<12. bit (0x1AFFF :: u32) i" by (simp add: All_less_Suc numeral_nat)
  then show "i < 12 \<Longrightarrow> bit IOAPIC_REDIRECT_WRITABLE_LOW i" by simp
qed simp_all

lemma routed_entryI:
  assumes "e AND IOAPIC_REDIRECT_WRITABLE_LOW = redirect_low vector (ucast flags AND 3) (drop_bit 2 (ucast flags) AND 3)"
  shows "routed_entry e vector flags"
proof -
  have f: "ucast flags AND 3 = (3 :: u32) \<longleftrightarrow> bit flags 0 \<and> bit flags 1"
    "drop_bit 2 (ucast flags) AND 3 = (3 :: u32) \<longleftrightarrow> bit flags 2 \<and> bit flags 3"
    unfolding two_bits by (simp_all add: bit_ucast_iff bit_drop_bit_eq numeral_3_eq_3 numeral_2_eq_2)
  have b: "bit e i \<and> bit IOAPIC_REDIRECT_WRITABLE_LOW i \<longleftrightarrow> bit vector i \<or> i = 13 \<and> bit flags 0 \<and> bit flags 1 \<or>
      i = 15 \<and> bit flags 2 \<and> bit flags 3" for i
    unfolding f [symmetric] bit_redirect_low [symmetric] assms [symmetric] bit_and_iff ..
  have v: "\<not> bit vector i" if "8 \<le> i" for i using that bit_imp_le_length [of vector i] by auto
  have "bit e i \<longleftrightarrow> bit vector i" if "i < 12" for i using b [of i] writable_bits(1) [OF that] that by auto
  moreover have "bit e 13 \<longleftrightarrow> bit flags 0 \<and> bit flags 1" "bit e 15 \<longleftrightarrow> bit flags 2 \<and> bit flags 3" "\<not> bit e 16"
    using b [of 13] b [of 15] b [of 16] writable_bits(2-4) v by auto
  ultimately show ?thesis unfolding routed_entry_def using v by simp
qed
lemma flags_reserved:
  fixes flags :: u16
  shows "ucast flags AND 3 \<noteq> (2 :: u32) \<longleftrightarrow> (bit flags 1 \<longrightarrow> bit flags 0)"
    "drop_bit 2 (ucast flags) AND 3 \<noteq> (2 :: u32) \<longleftrightarrow> (bit flags 3 \<longrightarrow> bit flags 2)"
  unfolding two_bits by (auto simp: bit_ucast_iff bit_drop_bit_eq numeral_3_eq_3 numeral_2_eq_2)

text \<open>The registers after a call, in terms of the words that it writes.\<close>

lemma apic_route_gsi_registers:
  assumes "apic_route_gsi (Some info) gsi flags vector a s = (ok, a')"
    and "n = unat (gsi - io_apic_gsi_base info)"
  shows "(\<forall>reg. reg \<noteq> of_nat (16 + 2 * n) \<longrightarrow> reg \<noteq> of_nat (17 + 2 * n) \<longrightarrow>
      ioapic_registers a' reg = ioapic_registers a reg) \<and>
    (ok \<longrightarrow> n \<le> 119 \<and> 32 \<le> vector \<and> ucast flags AND 3 \<noteq> (2 :: u32) \<and> drop_bit 2 (ucast flags) AND 3 \<noteq> (2 :: u32) \<and>
      ioapic_registers a' (of_nat (16 + 2 * n)) AND IOAPIC_REDIRECT_WRITABLE_LOW = redirect_low vector (ucast flags AND 3) (drop_bit 2 (ucast flags) AND 3) \<and>
      ioapic_registers a' (of_nat (17 + 2 * n)) =
        ioapic_latch a (of_nat (17 + 2 * n)) (push_bit 24 (destination_id a s))) \<and>
    (\<not> ok \<longrightarrow> ioapic_registers a' = ioapic_registers a \<or>
      ioapic_registers a' (of_nat (16 + 2 * n)) =
        ioapic_latch a (of_nat (16 + 2 * n)) (redirect_low vector (ucast flags AND 3) (drop_bit 2 (ucast flags) AND 3) OR 0x10000))"
proof (cases "gsi - io_apic_gsi_base info \<le> 119")
  case True
  define r where "r = gsi - io_apic_gsi_base info"
  have r: "r \<le> 119" "n = unat r" using True assms(2) by (simp_all add: r_def)
  then have n: "n \<le> 119" by (simp add: word_le_nat_alt)
  note w = redirection_words [OF r(1), folded r(2)]
  show ?thesis using assms(1) [unfolded apic_route_gsi_def option.case, folded r_def] n redirect_pair_distinct [OF n]
    by (auto simp: w(1) w(2) [unfolded w(1)] Let_def ioapic_read_def ioapic_write_def destination_id_def apic_read_def
        split: if_splits simp del: of_nat_add)
next
  case False
  then have "119 < gsi - io_apic_gsi_base info" by simp
  then show ?thesis using assms(1)
    by (auto simp: apic_route_gsi_def ioapic_read_def Let_def split: if_splits)
qed

text \<open>
  Claim C37. Routing an interrupt. When \<^verbatim>\<open>apic_route_gsi\<close> succeeds, the redirection entry carries the
  vector, fixed delivery to a physical destination and no mask; its polarity bit is set exactly when the
  flags ask for active low and its trigger bit exactly when they ask for level triggered; neither field of
  the flags was the reserved one; and the entry's destination was set to this processor. When it fails,
  either no register was touched or the entry was last written masked. No other register of the controller
  ever changes.
\<close>

theorem apic_route_gsi_entry:
  assumes "apic_route_gsi (Some info) gsi flags vector a s = (ok, a')"
    and "n = unat (gsi - io_apic_gsi_base info)"
  shows "(\<forall>reg. reg \<noteq> of_nat (16 + 2 * n) \<longrightarrow> reg \<noteq> of_nat (17 + 2 * n) \<longrightarrow>
      ioapic_registers a' reg = ioapic_registers a reg) \<and>
    (ok \<longrightarrow> n \<le> 119 \<and> 32 \<le> vector \<and> (bit flags 1 \<longrightarrow> bit flags 0) \<and> (bit flags 3 \<longrightarrow> bit flags 2) \<and>
      routed_entry (ioapic_registers a' (of_nat (16 + 2 * n))) vector flags \<and>
      ioapic_registers a' (of_nat (17 + 2 * n)) =
        ioapic_latch a (of_nat (17 + 2 * n)) (push_bit 24 (destination_id a s))) \<and>
    (\<not> ok \<longrightarrow> ioapic_registers a' = ioapic_registers a \<or>
      (\<exists>w. bit w 16 \<and> ioapic_registers a' (of_nat (16 + 2 * n)) = ioapic_latch a (of_nat (16 + 2 * n)) w))"
proof -
  have m: "bit (w OR 0x10000 :: u32) 16" for w by (simp add: bit_or_iff)
  show ?thesis using apic_route_gsi_registers [OF assms] routed_entryI m flags_reserved [of flags] by blast
qed

abbreviation apic_example :: apic where
  "apic_example \<equiv> \<lparr>lapic = 0xFEE00000, x2apic_mode = False, timer_ticks = 0,
     lapic_registers = (\<lambda>_. 0), ioapic_select = 0, ioapic_registers = (\<lambda>r. if r = 1 then 0x00170020 else 0x10000),
     ioapic_latch = (\<lambda>_ v. v AND 0xFF01AFFF)\<rparr>"

text \<open>Keyboard interrupt 1, active low and edge triggered, routed to its vector.\<close>

theorem apic_route_gsi_entry_witness:
  "\<forall>s. \<exists>a'. apic_route_gsi (Some (acpi_defaults\<lparr>io_apic_address := 0xFEC00000\<rparr>)) 1 0x7 0x41 apic_example s = (True, a') \<and>
     bit (ioapic_registers a' 18) 13 \<and> \<not> bit (ioapic_registers a' 18) 15"
proof
  fix s
  let ?r = "apic_route_gsi (Some (acpi_defaults\<lparr>io_apic_address := 0xFEC00000\<rparr>)) 1 0x7 0x41 apic_example s"
  have ok: "fst ?r" by (simp add: apic_route_gsi_def acpi_defaults_def redirect_low_def ioapic_read_def
      ioapic_write_def apic_read_def Let_def)
  obtain b a' where r: "?r = (b, a')" by (rule prod.exhaust)
  have b using ok unfolding r fst_conv .
  with apic_route_gsi_entry [OF r refl] have "routed_entry (ioapic_registers a' 18) 0x41 0x7"
    by (simp add: acpi_defaults_def)
  then have "bit (ioapic_registers a' 18) 13 \<and> \<not> bit (ioapic_registers a' 18) 15"
    by (simp add: routed_entry_def)
  moreover have "?r = (True, a')" using r \<open>b\<close> by simp
  ultimately show "\<exists>a'. ?r = (True, a') \<and> bit (ioapic_registers a' 18) 13 \<and> \<not> bit (ioapic_registers a' 18) 15" by blast
qed

end
