(* ===== verification/Ports.thy ===== *)
theory Ports
  imports Argus_Prelude
begin

text \<open>
  Port input and output, the \<^verbatim>\<open>cpu_in\<close> and \<^verbatim>\<open>cpu_out\<close> routines of \<^verbatim>\<open>src/cpu.S\<close>. The devices behind the
  ports are a parameter: \<open>port_device\<close> answers a read from the whole history of accesses, so that any
  device, also one that changes by itself between two polls, is an instance. The history is newest first.
\<close>

datatype port_access = Port_In u16 u32 | Port_Out8 u16 u8 | Port_Out16 u16 u16 | Port_Out32 u16 u32

record ports =
  port_device :: "port_access list \<Rightarrow> u16 \<Rightarrow> u32"
  port_history :: "port_access list"

definition cpu_out8 :: "u16 \<Rightarrow> u8 \<Rightarrow> ports \<Rightarrow> ports" where
  "cpu_out8 port v io = io\<lparr>port_history := Port_Out8 port v # port_history io\<rparr>"

definition cpu_in8 :: "u16 \<Rightarrow> ports \<Rightarrow> u8 \<times> ports" where
  "cpu_in8 port io =
    (let v = ucast (port_device io (port_history io) port) :: u8
     in (v, io\<lparr>port_history := Port_In port (ucast v) # port_history io\<rparr>))"

definition cpu_out16 :: "u16 \<Rightarrow> u16 \<Rightarrow> ports \<Rightarrow> ports" where
  "cpu_out16 port v io = io\<lparr>port_history := Port_Out16 port v # port_history io\<rparr>"

definition cpu_out32 :: "u16 \<Rightarrow> u32 \<Rightarrow> ports \<Rightarrow> ports" where
  "cpu_out32 port v io = io\<lparr>port_history := Port_Out32 port v # port_history io\<rparr>"

definition cpu_in32 :: "u16 \<Rightarrow> ports \<Rightarrow> u32 \<times> ports" where
  "cpu_in32 port io =
    (let v = port_device io (port_history io) port
     in (v, io\<lparr>port_history := Port_In port v # port_history io\<rparr>))"

text \<open>The bytes written to one port, oldest first.\<close>

fun bytes_out :: "u16 \<Rightarrow> port_access list \<Rightarrow> u8 list" where
  "bytes_out port [] = []"
| "bytes_out port (Port_Out8 p v # h) = (if p = port then bytes_out port h @ [v] else bytes_out port h)"
| "bytes_out port (a # h) = bytes_out port h"

definition port_sent :: "u16 \<Rightarrow> ports \<Rightarrow> u8 list" where
  "port_sent port io = bytes_out port (port_history io)"

lemma port_device_same [simp]:
  "port_device (cpu_out8 p v io) = port_device io" "port_device (snd (cpu_in8 p io)) = port_device io"
  "port_device (cpu_out16 p w io) = port_device io" "port_device (cpu_out32 p u io) = port_device io"
  "port_device (snd (cpu_in32 p io)) = port_device io"
  by (simp_all add: cpu_out8_def cpu_in8_def cpu_out16_def cpu_out32_def cpu_in32_def Let_def)

lemma port_sent_in [simp]: "port_sent q (snd (cpu_in8 p io)) = port_sent q io"
  by (simp add: port_sent_def cpu_in8_def Let_def)

lemma port_sent_out [simp]:
  "port_sent q (cpu_out8 p v io) = (if p = q then port_sent q io @ [v] else port_sent q io)"
  by (simp add: port_sent_def cpu_out8_def)

end
