(* ===== verification/Serial.thy ===== *)
theory Serial
  imports Ports "HOL-Library.Monad_Syntax"
begin

text \<open>
  The serial line, \<^verbatim>\<open>src/serial.c\<close>. The wait for an empty transmitter has no bound in the code: it is
  a partial function whose value is \<open>None\<close> when the device never reports one. Characters are bytes.
\<close>

abbreviation (input) COM1_PORT :: u16 where "COM1_PORT \<equiv> 0x3F8"

record serial =
  uart_available :: bool
  uart_ports :: ports

definition serial_init :: "serial \<Rightarrow> serial" where
  "serial_init s =
    (let io = uart_ports s;
         io = cpu_out8 (COM1_PORT + 1) 0x00 io;
         io = cpu_out8 (COM1_PORT + 3) 0x80 io;
         io = cpu_out8 (COM1_PORT + 0) 0x01 io;
         io = cpu_out8 (COM1_PORT + 1) 0x00 io;
         io = cpu_out8 (COM1_PORT + 3) 0x03 io;
         io = cpu_out8 (COM1_PORT + 2) 0xC7 io;
         io = cpu_out8 (COM1_PORT + 4) 0x03 io;
         io = cpu_out8 (COM1_PORT + 7) 0x5A io;
         (v, io) = cpu_in8 (COM1_PORT + 7) io
     in s\<lparr>uart_available := v = 0x5A, uart_ports := io\<rparr>)"

definition serial_available :: "serial \<Rightarrow> bool" where "serial_available s = uart_available s"

definition serial_getc_nonblocking :: "serial \<Rightarrow> int \<times> serial" where
  "serial_getc_nonblocking s =
    (if \<not> uart_available s then (-1, s)
     else
       let (status, io) = cpu_in8 (COM1_PORT + 5) (uart_ports s) in
       if status AND 0x01 = 0 then (-1, s\<lparr>uart_ports := io\<rparr>)
       else
         let (v, io) = cpu_in8 COM1_PORT io
         in (if v = 127 then 8 else uint v, s\<lparr>uart_ports := io\<rparr>))"

partial_function (option) serial_wait :: "ports \<Rightarrow> ports option" where
  "serial_wait io =
    (let (status, io) = cpu_in8 (COM1_PORT + 5) io
     in if status AND 0x20 = 0 then serial_wait io else Some io)"

text \<open>The last two statements of \<^verbatim>\<open>serial_putc\<close>, which is called on itself once, for the carriage return.\<close>

definition serial_put :: "u8 \<Rightarrow> serial \<Rightarrow> serial option" where
  "serial_put c s = do { io \<leftarrow> serial_wait (uart_ports s); Some (s\<lparr>uart_ports := cpu_out8 COM1_PORT c io\<rparr>) }"

definition serial_putc :: "u8 \<Rightarrow> serial \<Rightarrow> serial option" where
  "serial_putc c s =
    (if \<not> uart_available s then Some s
     else if c = 0x0A then do { s \<leftarrow> serial_put 0x0D s; serial_put c s }
     else serial_put c s)"

text \<open>A C string is the list of its bytes before the terminating zero.\<close>

fun serial_write :: "u8 list \<Rightarrow> serial \<Rightarrow> serial option" where
  "serial_write [] s = Some s"
| "serial_write (c # cs) s = do { s \<leftarrow> serial_putc c s; serial_write cs s }"

definition hex_digit :: "u64 \<Rightarrow> u8" where
  "hex_digit n = [0x30, 0x31, 0x32, 0x33, 0x34, 0x35, 0x36, 0x37, 0x38, 0x39,
     0x41, 0x42, 0x43, 0x44, 0x45, 0x46] ! unat n"

definition serial_write_hex64 :: "u64 \<Rightarrow> serial \<Rightarrow> serial option" where
  "serial_write_hex64 v s = do {
     s \<leftarrow> serial_write [0x30, 0x78] s;
     serial_write (map (\<lambda>shift. hex_digit (drop_bit shift v AND 0xF))
       [60, 56, 52, 48, 44, 40, 36, 32, 28, 24, 20, 16, 12, 8, 4, 0]) s
   }"

section \<open>What goes out on the line\<close>

text \<open>The device that a program may rely on: from any history, some number of polls finds it ready.\<close>

fun polled :: "nat \<Rightarrow> ports \<Rightarrow> ports" where
  "polled 0 io = io"
| "polled (Suc n) io = polled n (snd (cpu_in8 (COM1_PORT + 5) io))"

definition uart_ready :: "ports \<Rightarrow> bool" where
  "uart_ready io \<longleftrightarrow> fst (cpu_in8 (COM1_PORT + 5) io) AND 0x20 \<noteq> 0"

definition uart_live :: "ports \<Rightarrow> bool" where
  "uart_live io \<longleftrightarrow> (\<forall>h. \<exists>n. uart_ready (polled n (io\<lparr>port_history := h\<rparr>)))"

lemma uart_live_cong: "port_device io = port_device io' \<Longrightarrow> uart_live io = uart_live io'"
proof -
  assume "port_device io = port_device io'"
  then have "io\<lparr>port_history := h\<rparr> = io'\<lparr>port_history := h\<rparr>" for h by (cases io, cases io', simp)
  then show ?thesis by (simp add: uart_live_def)
qed

lemma serial_wait_polls: "uart_ready (polled n io) \<Longrightarrow>
  \<exists>io'. serial_wait io = Some io' \<and> port_device io' = port_device io \<and> port_sent COM1_PORT io' = port_sent COM1_PORT io"
proof (induction n arbitrary: io)
  case 0
  then show ?case
    by (subst serial_wait.simps) (auto simp: uart_ready_def split_beta Let_def)
next
  case (Suc n)
  show ?case
  proof (cases "uart_ready io")
    case True then show ?thesis
      by (subst serial_wait.simps) (auto simp: uart_ready_def split_beta Let_def)
  next
    case False
    then have "serial_wait io = serial_wait (snd (cpu_in8 (COM1_PORT + 5) io))"
      by (subst serial_wait.simps) (auto simp: uart_ready_def split_beta Let_def)
    moreover have "uart_ready (polled n (snd (cpu_in8 (COM1_PORT + 5) io)))" using Suc.prems by simp
    ultimately show ?thesis using Suc.IH [of "snd (cpu_in8 (COM1_PORT + 5) io)"] by simp
  qed
qed

lemma serial_put_live: assumes "uart_live (uart_ports s)"
  shows "\<exists>s'. serial_put c s = Some s' \<and> uart_available s' = uart_available s \<and> uart_live (uart_ports s') \<and>
    port_sent COM1_PORT (uart_ports s') = port_sent COM1_PORT (uart_ports s) @ [c]"
proof -
  have "\<exists>n. uart_ready (polled n ((uart_ports s)\<lparr>port_history := port_history (uart_ports s)\<rparr>))"
    using assms by (simp only: uart_live_def)
  then obtain n where "uart_ready (polled n (uart_ports s))" by auto
  from serial_wait_polls [OF this] obtain io where "serial_wait (uart_ports s) = Some io"
    "port_device io = port_device (uart_ports s)" "port_sent COM1_PORT io = port_sent COM1_PORT (uart_ports s)" by auto
  moreover have "uart_live (cpu_out8 COM1_PORT c io)"
    using assms uart_live_cong [of "cpu_out8 COM1_PORT c io" "uart_ports s"] calculation(2) by simp
  ultimately show ?thesis by (simp add: serial_put_def)
qed

text \<open>The bytes of a text on the line: a line feed goes out after a carriage return.\<close>

definition crlf :: "u8 \<Rightarrow> u8 list" where "crlf c = (if c = 0x0A then [0x0D, 0x0A] else [c])"

definition line_bytes :: "serial \<Rightarrow> u8 list \<Rightarrow> u8 list" where
  "line_bytes s text_bytes = (if uart_available s then concat (map crlf text_bytes) else [])"

lemma serial_putc_live: assumes "uart_live (uart_ports s)"
  shows "\<exists>s'. serial_putc c s = Some s' \<and> uart_available s' = uart_available s \<and> uart_live (uart_ports s') \<and>
    port_sent COM1_PORT (uart_ports s') = port_sent COM1_PORT (uart_ports s) @ line_bytes s [c]"
proof (cases "uart_available s \<and> c = 0x0A")
  case True
  from serial_put_live [OF assms, of "0x0D"] obtain s1 where 1: "serial_put 0x0D s = Some s1"
    "uart_live (uart_ports s1)" "uart_available s1 = uart_available s"
    "port_sent COM1_PORT (uart_ports s1) = port_sent COM1_PORT (uart_ports s) @ [0x0D]" by auto
  from serial_put_live [OF 1(2), of "0x0A"] 1 True show ?thesis
    by (auto simp: serial_putc_def line_bytes_def crlf_def)
next
  case False
  then show ?thesis using serial_put_live [OF assms, of c] assms
    by (auto simp: serial_putc_def line_bytes_def crlf_def)
qed

lemma serial_write_live: "uart_live (uart_ports s) \<Longrightarrow>
  \<exists>s'. serial_write text_bytes s = Some s' \<and> uart_available s' = uart_available s \<and> uart_live (uart_ports s') \<and>
    port_sent COM1_PORT (uart_ports s') = port_sent COM1_PORT (uart_ports s) @ line_bytes s text_bytes"
proof (induction text_bytes arbitrary: s)
  case Nil then show ?case by (simp add: line_bytes_def)
next
  case (Cons c cs)
  from serial_putc_live [OF Cons.prems, of c] obtain s1 where 1: "serial_putc c s = Some s1"
    "uart_available s1 = uart_available s" "uart_live (uart_ports s1)"
    "port_sent COM1_PORT (uart_ports s1) = port_sent COM1_PORT (uart_ports s) @ line_bytes s [c]" by auto
  from Cons.IH [OF 1(3)] 1 show ?case by (auto simp: line_bytes_def)
qed

end
