(* ===== verification/Process.thy ===== *)
theory Process
  imports User_Space Elf_Loader Capability Ipc Anonymity Apic Serial
begin

text \<open>
  Processes, first part of \<^verbatim>\<open>src/process.c\<close>: the process table, capabilities, the loaders and
  \<^verbatim>\<open>process_init\<close>. The state
  \<open>kernel\<close> gathers the static variables of the file with the components it calls: the machine of the
  paging code, the endpoints, the anonymity transport, the serial line, the interrupt controller and
  the number of steps that user programs have made.

  What is not code of the repository is the parameter \<open>environment\<close>: the images that the build embeds,
  the addresses that the linker chooses, the registered interrupt handlers by address, and the
  processor in user mode, \<open>env_cpu\<close>. From the step number, the registers and the memory that a user
  program can read it says what happens next: a store, a system call or an interrupt.

  An operation returns \<open>None\<close> where the code does not come back to its caller with a defined state: a
  store outside \<^verbatim>\<open>image_physical\<close>, a fault or panic in the kernel, an endless wait.
\<close>

section \<open>Data\<close>

datatype argus_process_state =
  PROCESS_UNUSED | PROCESS_READY | PROCESS_RUNNING | PROCESS_BLOCKED | PROCESS_EXITED | PROCESS_FAULTED

record process =
  p_pid :: u64
  p_state :: argus_process_state
  p_address_space :: paging_user_space
  p_image_physical :: "u64 list"
  p_image_page_count :: u32
  p_stack_physical :: u64
  p_surface_physical :: u64
  p_surface_page_count :: u32
  p_code_virtual :: u64
  p_stack_virtual :: u64
  p_app_id :: u32
  p_present_sequence :: u32
  p_present_valid :: bool
  p_active :: bool
  p_input :: "u8 list"
  p_input_head :: u8
  p_input_tail :: u8
  p_inputs_delivered :: u64
  p_wait_deadline :: u64
  p_context :: arch_user_context
  p_exit_status :: u64
  p_yields :: u64
  p_fault_vector :: u64
  p_fault_error :: u64
  p_fault_rip :: u64
  p_fault_address :: u64
  p_security_role :: u32
  p_capabilities :: argus_capability_table
  p_ipc_endpoint :: u64

record argus_process_app_status =
  status_state :: argus_process_state
  status_pid :: u64
  status_fault_vector :: u64
  status_fault_error :: u64
  status_fault_rip :: u64
  status_fault_address :: u64

text \<open>The embedded images: the three probes and the applications.\<close>

record images =
  user_probe :: "u8 list"
  user_fault_probe :: "u8 list"
  user_spin_probe :: "u8 list"
  user_snake :: "u8 list"
  user_calculator :: "u8 list"
  user_notes :: "u8 list"

record kernel =
  k_processes :: "process list"
  k_kernel_paging :: "paging_info option"
  k_current_process :: int
  k_configured_processes :: u32
  k_completed_processes :: u32
  k_scheduler_cursor :: u32
  k_focused_app_id :: u32
  k_next_pid :: u64
  k_syscall_count :: u64
  k_yield_count :: u64
  k_context_switch_count :: u64
  k_write_count :: u64
  k_fault_count :: u64
  k_preemption_count :: u64
  k_wait_count :: u64
  k_wakeup_count :: u64
  k_network_denial_count :: u64
  k_address_spaces_isolated :: bool
  k_scheduler_ready :: bool
  k_process_self_test_passed :: bool
  k_preemption_enabled :: bool
  k_security_boundaries_ready :: bool
  k_vm :: vm
  k_arch :: arch
  k_endpoints :: ipc_endpoints
  k_transport :: u32
  k_serial :: serial
  k_apic :: apic
  k_cr2 :: u64
  k_steps :: nat

text \<open>What a user program does next; each carries the registers after it, or the frame that was pushed.\<close>

datatype user_event =
  User_Step arch_user_context
| User_Store u64 u8 arch_user_context
| User_Syscall arch_user_context
| User_Interrupt interrupt_frame u64

record environment =
  env_images :: images
  env_layout :: arch_layout
  env_syscall_stack :: u64
  env_handlers :: "u64 \<Rightarrow> interrupt_frame \<Rightarrow> kernel \<Rightarrow> kernel"
  env_cpu :: "nat \<Rightarrow> arch_user_context \<Rightarrow> (u64 \<Rightarrow> u8 option) \<Rightarrow> user_event"

abbreviation (input) ARGUS_PROCESS_MAX :: u32 where "ARGUS_PROCESS_MAX \<equiv> 8"
abbreviation (input) PROCESS_PROBE_COUNT :: u32 where "PROCESS_PROBE_COUNT \<equiv> 2"
abbreviation (input) APP_PROCESS_COUNT :: u32 where "APP_PROCESS_COUNT \<equiv> 3"
abbreviation (input) APP_PROCESS_FIRST :: u32 where "APP_PROCESS_FIRST \<equiv> 2"
abbreviation (input) PROCESS_TEST_SLOT :: u32 where "PROCESS_TEST_SLOT \<equiv> 2"
abbreviation (input) USER_CODE_OFFSET :: u64 where "USER_CODE_OFFSET \<equiv> 0x1000"
abbreviation (input) USER_STACK_OFFSET :: u64 where "USER_STACK_OFFSET \<equiv> 0x200000"
abbreviation (input) USER_SURFACE_OFFSET :: u64 where "USER_SURFACE_OFFSET \<equiv> 0x400000"
abbreviation (input) USER_WRITE_LIMIT :: u64 where "USER_WRITE_LIMIT \<equiv> 128"
abbreviation (input) APP_INPUT_CAPACITY :: u32 where "APP_INPUT_CAPACITY \<equiv> 32"
abbreviation (input) X86_PAGE_WRITABLE :: u64 where "X86_PAGE_WRITABLE \<equiv> 0x2"
abbreviation (input) X86_PAGE_NO_EXECUTE :: u64 where "X86_PAGE_NO_EXECUTE \<equiv> 0x8000000000000000"
abbreviation (input) ARGUS_APP_SURFACE_ADDRESS :: u64 where "ARGUS_APP_SURFACE_ADDRESS \<equiv> 0x0000008000400000"
abbreviation (input) ARGUS_APP_SURFACE_BYTES :: u64 where "ARGUS_APP_SURFACE_BYTES \<equiv> 71680"
abbreviation (input) ARGUS_APP_PALETTE_COUNT :: u8 where "ARGUS_APP_PALETTE_COUNT \<equiv> 8"
abbreviation (input) ARGUS_APP_PRESENT_MAGIC :: u32 where "ARGUS_APP_PRESENT_MAGIC \<equiv> 0x41505031"
abbreviation (input) ARGUS_APP_ABI_VERSION :: u32 where "ARGUS_APP_ABI_VERSION \<equiv> 1"

definition zero_context :: arch_user_context where
  "zero_context = \<lparr>ctx_r15 = 0, ctx_r14 = 0, ctx_r13 = 0, ctx_r12 = 0, ctx_r11 = 0, ctx_r10 = 0, ctx_r9 = 0,
     ctx_r8 = 0, ctx_rdi = 0, ctx_rsi = 0, ctx_rbp = 0, ctx_rdx = 0, ctx_rcx = 0, ctx_rbx = 0, ctx_rax = 0,
     ctx_rip = 0, ctx_rflags = 0, ctx_rsp = 0\<rparr>"

definition zero_process :: process where
  "zero_process = \<lparr>p_pid = 0, p_state = PROCESS_UNUSED, p_address_space = zero_user_space,
     p_image_physical = replicate 16 0, p_image_page_count = 0, p_stack_physical = 0,
     p_surface_physical = 0, p_surface_page_count = 0, p_code_virtual = 0, p_stack_virtual = 0,
     p_app_id = 0, p_present_sequence = 0, p_present_valid = False, p_active = False,
     p_input = replicate 32 0, p_input_head = 0, p_input_tail = 0, p_inputs_delivered = 0,
     p_wait_deadline = 0, p_context = zero_context, p_exit_status = 0, p_yields = 0,
     p_fault_vector = 0, p_fault_error = 0, p_fault_rip = 0, p_fault_address = 0,
     p_security_role = 0, p_capabilities = empty_capability_table, p_ipc_endpoint = 0\<rparr>"

abbreviation (input) proc :: "kernel \<Rightarrow> nat \<Rightarrow> process" where "proc k i \<equiv> k_processes k ! i"

definition set_proc :: "nat \<Rightarrow> process \<Rightarrow> kernel \<Rightarrow> kernel" where
  "set_proc i p k = k\<lparr>k_processes := (k_processes k)[i := p]\<rparr>"

lemma set_proc_simps [simp]: "k_processes (set_proc i p k) = (k_processes k)[i := p]"
  "k_kernel_paging (set_proc i p k) = k_kernel_paging k"
  "k_current_process (set_proc i p k) = k_current_process k"
  "k_configured_processes (set_proc i p k) = k_configured_processes k"
  "k_completed_processes (set_proc i p k) = k_completed_processes k"
  "k_scheduler_cursor (set_proc i p k) = k_scheduler_cursor k"
  "k_focused_app_id (set_proc i p k) = k_focused_app_id k"
  "k_next_pid (set_proc i p k) = k_next_pid k"
  "k_syscall_count (set_proc i p k) = k_syscall_count k"
  "k_yield_count (set_proc i p k) = k_yield_count k"
  "k_context_switch_count (set_proc i p k) = k_context_switch_count k"
  "k_write_count (set_proc i p k) = k_write_count k"
  "k_fault_count (set_proc i p k) = k_fault_count k"
  "k_preemption_count (set_proc i p k) = k_preemption_count k"
  "k_wait_count (set_proc i p k) = k_wait_count k"
  "k_wakeup_count (set_proc i p k) = k_wakeup_count k"
  "k_network_denial_count (set_proc i p k) = k_network_denial_count k"
  "k_address_spaces_isolated (set_proc i p k) = k_address_spaces_isolated k"
  "k_scheduler_ready (set_proc i p k) = k_scheduler_ready k"
  "k_process_self_test_passed (set_proc i p k) = k_process_self_test_passed k"
  "k_preemption_enabled (set_proc i p k) = k_preemption_enabled k"
  "k_security_boundaries_ready (set_proc i p k) = k_security_boundaries_ready k"
  "k_vm (set_proc i p k) = k_vm k"
  "k_arch (set_proc i p k) = k_arch k"
  "k_endpoints (set_proc i p k) = k_endpoints k"
  "k_transport (set_proc i p k) = k_transport k"
  "k_serial (set_proc i p k) = k_serial k"
  "k_apic (set_proc i p k) = k_apic k"
  "k_cr2 (set_proc i p k) = k_cr2 k"
  "k_steps (set_proc i p k) = k_steps k"
  by (simp_all add: set_proc_def)

section \<open>Capabilities of a process\<close>

definition grant_process_capability :: "process \<Rightarrow> u32 \<Rightarrow> u16 \<Rightarrow> u64 \<Rightarrow> u64 \<times> process" where
  "grant_process_capability p type rights object =
    (if (type = ARGUS_CAPABILITY_ANONYMOUS_STREAM \<or> type = ARGUS_CAPABILITY_RAW_NETWORK) \<and>
        \<not> anonymity_capability_allowed (p_security_role p) type rights
     then (0, p)
     else
       let (handle, table) = capability_grant (Some (p_capabilities p)) type rights object
       in (handle, p\<lparr>p_capabilities := (case table of None \<Rightarrow> p_capabilities p | Some t \<Rightarrow> t)\<rparr>))"

definition revoke_process_capability :: "process \<Rightarrow> u64 \<Rightarrow> bool \<times> process" where
  "revoke_process_capability p handle =
    (let (ok, table) = capability_revoke (Some (p_capabilities p)) handle
     in (ok, p\<lparr>p_capabilities := (case table of None \<Rightarrow> p_capabilities p | Some t \<Rightarrow> t)\<rparr>))"

definition init_process_capabilities :: "u64 \<Rightarrow> process \<Rightarrow> process" where
  "init_process_capabilities principal_id p =
    p\<lparr>p_capabilities := (case capability_table_init (Some (p_capabilities p)) principal_id of
        None \<Rightarrow> p_capabilities p | Some t \<Rightarrow> t)\<rparr>"

definition process_capability_policy_self_test :: bool where
  "process_capability_policy_self_test =
    (let candidate = init_process_capabilities 0x53454355 zero_process;
         candidate = candidate\<lparr>p_security_role := ARGUS_SECURITY_ROLE_UTILITY\<rparr>;
         (a, candidate) = grant_process_capability candidate ARGUS_CAPABILITY_RAW_NETWORK ARGUS_CAP_RIGHT_CONNECT 1 in
     if a \<noteq> 0 then False
     else
       let (b, candidate) =
             grant_process_capability candidate ARGUS_CAPABILITY_ANONYMOUS_STREAM ARGUS_CAP_RIGHT_CONNECT 2 in
       if b \<noteq> 0 then False
       else
         let candidate = candidate\<lparr>p_security_role := ARGUS_SECURITY_ROLE_TOR_TRANSPORT\<rparr>;
             (raw, candidate) =
               grant_process_capability candidate ARGUS_CAPABILITY_RAW_NETWORK ARGUS_CAP_RIGHT_CONNECT 3;
             (revoked, candidate) = (if raw \<noteq> 0 then revoke_process_capability candidate raw else (False, candidate)) in
         if raw = 0 \<or> \<not> revoked then False
         else
           let candidate = candidate\<lparr>p_security_role := ARGUS_SECURITY_ROLE_BROWSER_NETWORK\<rparr>;
               (anonymous, candidate) =
                 grant_process_capability candidate ARGUS_CAPABILITY_ANONYMOUS_STREAM ARGUS_CAP_RIGHT_CONNECT 4
           in anonymous \<noteq> 0 \<and> fst (revoke_process_capability candidate anonymous))"

section \<open>Memory of a process\<close>

text \<open>The \<^verbatim>\<open>zero_page\<close> of this file clears byte by byte.\<close>

definition process_zero_page :: "u64 \<Rightarrow> mem \<Rightarrow> mem" where
  "process_zero_page physical m = fold (\<lambda>index m. m(physical + of_nat index := 0)) [0..<4096] m"

definition copy_bytes :: "u64 \<Rightarrow> u8 list \<Rightarrow> mem \<Rightarrow> mem" where
  "copy_bytes destination bytes m =
    fold (\<lambda>index m. m(destination + of_nat index := bytes ! index)) [0..<length bytes] m"

definition release_process :: "nat \<Rightarrow> kernel \<Rightarrow> kernel" where
  "release_process i k =
    (let p = proc k i;
         k = (if p_ipc_endpoint p \<noteq> 0
              then k\<lparr>k_endpoints := snd (ipc_endpoint_destroy (k_endpoints k) (p_ipc_endpoint p))\<rparr> else k);
         s = snd (paging_user_space_destroy (Some (p_address_space p)) (k_vm k));
         q = fold (\<lambda>index q. if p_image_physical p ! index \<noteq> 0
               then snd (pmm_free_page (p_image_physical p ! index) q) else q)
             [0..<unat (p_image_page_count p)] (vm_pmm s);
         q = (if p_stack_physical p \<noteq> 0 then snd (pmm_free_page (p_stack_physical p) q) else q);
         q = (if p_surface_physical p \<noteq> 0 \<and> p_surface_page_count p \<noteq> 0
              then snd (pmm_release_pages (p_surface_physical p) (ucast (p_surface_page_count p)) q) else q)
     in set_proc i zero_process (k\<lparr>k_vm := s\<lparr>vm_pmm := q\<rparr>\<rparr>))"

text \<open>Mapping into the address space of a process, as the loaders do.\<close>

definition map_into :: "nat \<Rightarrow> u64 \<Rightarrow> u64 \<Rightarrow> bool \<Rightarrow> bool \<Rightarrow> kernel \<Rightarrow> bool \<times> kernel" where
  "map_into i virtual_address physical_address writable executable k =
    (let (ok, us, s) = paging_user_map_page (Some (p_address_space (proc k i))) virtual_address
           physical_address writable executable (k_vm k)
     in (ok, set_proc i ((proc k i)\<lparr>p_address_space :=
               (case us of None \<Rightarrow> p_address_space (proc k i) | Some us \<Rightarrow> us)\<rparr>) (k\<lparr>k_vm := s\<rparr>)))"

text \<open>The loop that clears and maps the pages of the surface.\<close>

fun map_surface_pages :: "nat \<Rightarrow> nat list \<Rightarrow> kernel \<Rightarrow> bool \<times> kernel" where
  "map_surface_pages i [] k = (True, k)"
| "map_surface_pages i (page # rest) k =
    (let physical = p_surface_physical (proc k i) + of_nat page * ARGUS_PAGE_SIZE;
         k = k\<lparr>k_vm := (k_vm k)\<lparr>vm_memory := process_zero_page physical (vm_memory (k_vm k))\<rparr>\<rparr>;
         (ok, k) = map_into i (us_user_base (p_address_space (proc k i)) + USER_SURFACE_OFFSET +
             of_nat page * ARGUS_PAGE_SIZE) physical True False k
     in if ok then map_surface_pages i rest k else (False, k))"

text \<open>The grants of an application, each only after the one before succeeded.\<close>

fun grant_all :: "(u32 \<times> u16 \<times> u64) list \<Rightarrow> process \<Rightarrow> bool \<times> process" where
  "grant_all [] p = (True, p)"
| "grant_all ((type, rights, object) # rest) p =
    (let (handle, p) = grant_process_capability p type rights object
     in if handle = 0 then (False, p) else grant_all rest p)"

definition app_grants :: "process \<Rightarrow> (u32 \<times> u16 \<times> u64) list" where
  "app_grants p =
    [(ARGUS_CAPABILITY_CLOCK, ARGUS_CAP_RIGHT_READ, 0),
     (ARGUS_CAPABILITY_INPUT, ARGUS_CAP_RIGHT_READ OR ARGUS_CAP_RIGHT_WAIT, ucast (p_app_id p)),
     (ARGUS_CAPABILITY_SURFACE, ARGUS_CAP_RIGHT_PRESENT, p_surface_physical p),
     (ARGUS_CAPABILITY_IPC, ARGUS_CAP_RIGHT_RECEIVE, p_ipc_endpoint p)]"

definition prepare_process :: "nat \<Rightarrow> u64 \<Rightarrow> u32 \<Rightarrow> kernel \<Rightarrow> bool \<times> kernel" where
  "prepare_process i pid app_id k =
    (if k_kernel_paging k = None \<or> pid = 0 then (False, k)
     else
       let p = zero_process\<lparr>p_pid := pid, p_app_id := app_id, p_security_role := ARGUS_SECURITY_ROLE_UTILITY\<rparr>;
           p = init_process_capabilities pid p;
           (ok, us, s) = paging_user_space_create (k_kernel_paging k) (Some (p_address_space p)) (k_vm k);
           p = p\<lparr>p_address_space := (case us of None \<Rightarrow> p_address_space p | Some us \<Rightarrow> us)\<rparr>;
           k = set_proc i p (k\<lparr>k_vm := s\<rparr>) in
       if \<not> ok then (False, k)
       else
         let (stack, q) = pmm_alloc_page (vm_pmm (k_vm k));
             p = p\<lparr>p_stack_virtual := us_user_base (p_address_space p) + USER_STACK_OFFSET,
                   p_stack_physical := stack\<rparr>;
             k = set_proc i p (k\<lparr>k_vm := (k_vm k)\<lparr>vm_pmm := q\<rparr>\<rparr>) in
         if stack = 0 then (False, release_process i k)
         else
           let k = k\<lparr>k_vm := (k_vm k)\<lparr>vm_memory := process_zero_page stack (vm_memory (k_vm k))\<rparr>\<rparr>;
               (ok, k) = map_into i (p_stack_virtual p) stack True False k in
           if \<not> ok then (False, release_process i k)
           else if app_id = 0 then (True, k)
           else
             let pages = ucast ((ARGUS_APP_SURFACE_BYTES + ARGUS_PAGE_SIZE - 1) div ARGUS_PAGE_SIZE) :: u32;
                 (surface, q) = pmm_alloc_pages (ucast pages) (vm_pmm (k_vm k));
                 k = set_proc i ((proc k i)\<lparr>p_surface_page_count := pages, p_surface_physical := surface\<rparr>)
                       (k\<lparr>k_vm := (k_vm k)\<lparr>vm_pmm := q\<rparr>\<rparr>) in
             if surface = 0 then (False, release_process i k)
             else
               let (ok, k) = map_surface_pages i [0..<unat pages] k in
               if \<not> ok then (False, release_process i k)
               else
                 let (endpoint, eps) = ipc_endpoint_create (k_endpoints k) pid;
                     p = (proc k i)\<lparr>p_ipc_endpoint := endpoint\<rparr>;
                     k = set_proc i p (k\<lparr>k_endpoints := eps\<rparr>) in
                 if endpoint = 0 then (False, release_process i k)
                 else
                   let (ok, p) = grant_all (app_grants p) p;
                       k = set_proc i p k in
                   if \<not> ok then (False, release_process i k) else (True, k))"

definition initialize_context :: "nat \<Rightarrow> u64 \<Rightarrow> kernel \<Rightarrow> kernel" where
  "initialize_context i instruction_pointer k =
    (let p = proc k i in
     set_proc i (p\<lparr>p_context := (p_context p)\<lparr>ctx_rip := instruction_pointer,
         ctx_rsp := p_stack_virtual p + ARGUS_PAGE_SIZE - 8, ctx_rflags := 0x202, ctx_rdi := p_pid p\<rparr>,
       p_state := PROCESS_READY\<rparr>) k)"

text \<open>
  Storing the address of a fresh image page. The array has 16 places; a store beyond them is undefined.
\<close>

definition push_image_page :: "nat \<Rightarrow> u64 \<Rightarrow> kernel \<Rightarrow> kernel option" where
  "push_image_page i physical k =
    (let p = proc k i; n = p_image_page_count p in
     if 16 \<le> n then None
     else Some (set_proc i (p\<lparr>p_image_physical := (p_image_physical p)[unat n := physical],
                              p_image_page_count := n + 1\<rparr>) k))"

text \<open>One page of an image: allocated, recorded, cleared, filled with its bytes and mapped.\<close>

definition load_page :: "nat \<Rightarrow> u64 \<Rightarrow> u8 list \<Rightarrow> bool \<Rightarrow> bool \<Rightarrow> kernel \<Rightarrow> (bool \<times> kernel) option" where
  "load_page i virtual_address bytes writable executable k =
    (let (physical, q) = pmm_alloc_page (vm_pmm (k_vm k));
         k = k\<lparr>k_vm := (k_vm k)\<lparr>vm_pmm := q\<rparr>\<rparr> in
     if physical = 0 then Some (False, release_process i k)
     else do {
       k \<leftarrow> push_image_page i physical k;
       let m = copy_bytes physical bytes (process_zero_page physical (vm_memory (k_vm k)));
           (ok, k) = map_into i virtual_address physical writable executable
             (k\<lparr>k_vm := (k_vm k)\<lparr>vm_memory := m\<rparr>\<rparr>)
       in if ok then Some (True, k) else Some (False, release_process i k)
     })"

text \<open>The bytes that a page takes from the file: those left, at most a page.\<close>

fun load_pages :: "nat \<Rightarrow> u64 \<Rightarrow> u8 list \<Rightarrow> nat \<Rightarrow> bool \<Rightarrow> bool \<Rightarrow> kernel \<Rightarrow> (bool \<times> kernel) option" where
  "load_pages i virtual_address bytes 0 writable executable k = Some (True, k)"
| "load_pages i virtual_address bytes (Suc n) writable executable k =
    (case load_page i virtual_address (take 4096 bytes) writable executable k of None \<Rightarrow> None
     | Some (False, k) \<Rightarrow> Some (False, k)
     | Some (True, k) \<Rightarrow>
         load_pages i (virtual_address + ARGUS_PAGE_SIZE) (drop 4096 bytes) n writable executable k)"

definition load_flat_probe :: "nat \<Rightarrow> u64 \<Rightarrow> u8 list \<Rightarrow> kernel \<Rightarrow> (bool \<times> kernel) option" where
  "load_flat_probe i pid bytes k =
    (if bytes = [] then Some (False, k)
     else
       let pages = ucast ((of_nat (length bytes) + ARGUS_PAGE_SIZE - 1) div ARGUS_PAGE_SIZE) :: u32 in
       if pages = 0 \<or> ARGUS_ELF_MAX_IMAGE_PAGES < pages then Some (False, k)
       else
         let (ok, k) = prepare_process i pid 0 k in
         if \<not> ok then Some (False, k)
         else
           let code = us_user_base (p_address_space (proc k i)) + USER_CODE_OFFSET;
               k = set_proc i ((proc k i)\<lparr>p_code_virtual := code\<rparr>) k in
           case load_pages i code bytes (unat pages) False True k of None \<Rightarrow> None
           | Some (False, k) \<Rightarrow> Some (False, k)
           | Some (True, k) \<Rightarrow> Some (True, initialize_context i code k))"

fun load_segments :: "nat \<Rightarrow> u8 list \<Rightarrow> argus_elf_segment list \<Rightarrow> kernel \<Rightarrow> (bool \<times> kernel) option" where
  "load_segments i file [] k = Some (True, k)"
| "load_segments i file (segment # rest) k =
    (case load_pages i (seg_virtual_address segment)
        (take (unat (seg_file_size segment)) (drop (unat (seg_file_offset segment)) file))
        (unat (seg_page_count segment)) (seg_flags segment AND ELF_FLAG_WRITE \<noteq> 0)
        (seg_flags segment AND ELF_FLAG_EXECUTE \<noteq> 0) k of None \<Rightarrow> None
     | Some (False, k) \<Rightarrow> Some (False, k)
     | Some (True, k) \<Rightarrow> load_segments i file rest k)"

definition load_elf_app :: "nat \<Rightarrow> u64 \<Rightarrow> u32 \<times> u8 list \<Rightarrow> kernel \<Rightarrow> (bool \<times> kernel) option" where
  "load_elf_app i pid app k =
    (let (app_id, file) = app in
     if file = [] then Some (False, k)
     else
       case elf_validate_user_image file (of_nat (length file)) (ARGUS_USER_BASE + USER_CODE_OFFSET)
           (ARGUS_USER_BASE + USER_STACK_OFFSET - ARGUS_PAGE_SIZE) of
         None \<Rightarrow> Some (False, k)
       | Some img \<Rightarrow>
           let (ok, k) = prepare_process i pid app_id k in
           if \<not> ok then Some (False, k)
           else
             let k = set_proc i ((proc k i)\<lparr>p_code_virtual := seg_virtual_address (elf_segments img ! 0)\<rparr>) k in
             case load_segments i file (take (unat (elf_segment_count img)) (elf_segments img)) k of None \<Rightarrow> None
             | Some (False, k) \<Rightarrow> Some (False, k)
             | Some (True, k) \<Rightarrow> Some (True, initialize_context i (elf_entry img) k))"

definition validate_address_space_isolation :: "kernel \<Rightarrow> bool" where
  "validate_address_space_isolation k =
    (if k_configured_processes k \<noteq> PROCESS_PROBE_COUNT then False
     else
       let first = proc k 0; second = proc k 1;
           translate = (\<lambda>p a. paging_user_translate (Some (p_address_space p)) a (vm_memory (k_vm k)))
       in us_root_table (p_address_space first) \<noteq> us_root_table (p_address_space second) \<and>
          p_code_virtual first = p_code_virtual second \<and>
          p_stack_virtual first = p_stack_virtual second \<and>
          (case (translate first (p_code_virtual first), translate second (p_code_virtual second),
                 translate first (p_stack_virtual first), translate second (p_stack_virtual second)) of
             (Some (first_code, code_flags), Some (second_code, _), Some (first_stack, stack_flags),
              Some (second_stack, _)) \<Rightarrow>
               code_flags AND X86_PAGE_WRITABLE = 0 \<and>
               (us_nx_enabled (p_address_space first) \<longrightarrow> code_flags AND X86_PAGE_NO_EXECUTE = 0) \<and>
               stack_flags AND X86_PAGE_WRITABLE \<noteq> 0 \<and>
               (us_nx_enabled (p_address_space first) \<longrightarrow> stack_flags AND X86_PAGE_NO_EXECUTE \<noteq> 0) \<and>
               first_code \<noteq> second_code \<and> first_stack \<noteq> second_stack
           | _ \<Rightarrow> False) \<and>
          translate first (p_stack_virtual first - ARGUS_PAGE_SIZE) = None \<and>
          translate first (p_image_physical first ! 0) = None)"

text \<open>The loop of \<^verbatim>\<open>process_init\<close> over the probes.\<close>

fun load_probes :: "environment \<Rightarrow> nat list \<Rightarrow> kernel \<Rightarrow> (bool \<times> kernel) option" where
  "load_probes env [] k = Some (True, k)"
| "load_probes env (index # rest) k = do {
     (ok, k) \<leftarrow> load_flat_probe index (k_next_pid k) (user_probe (env_images env))
       (k\<lparr>k_next_pid := k_next_pid k + 1\<rparr>);
     if ok then load_probes env rest (k\<lparr>k_configured_processes := k_configured_processes k + 1\<rparr>)
     else Some (False, fold release_process [0..<index + 1] k)
   }"

definition process_init :: "environment \<Rightarrow> paging_info option \<Rightarrow> kernel \<Rightarrow> (bool \<times> kernel) option" where
  "process_init env kernel_space k =
    (case kernel_space of None \<Rightarrow> Some (False, k)
     | Some kern \<Rightarrow>
       if pi_root_table kern = 0 then Some (False, k)
       else
         let k = k\<lparr>k_kernel_paging := kernel_space, k_current_process := -1, k_configured_processes := 0,
               k_completed_processes := 0, k_scheduler_cursor := 0, k_focused_app_id := 0, k_next_pid := 1,
               k_syscall_count := 0, k_yield_count := 0, k_context_switch_count := 0, k_write_count := 0,
               k_fault_count := 0, k_preemption_count := 0, k_wait_count := 0, k_wakeup_count := 0,
               k_network_denial_count := 0, k_address_spaces_isolated := False, k_scheduler_ready := False,
               k_process_self_test_passed := False, k_preemption_enabled := False\<rparr>;
             (ipc_ok, eps) = (if capability_self_test then ipc_self_test (k_endpoints k) else (False, k_endpoints k));
             (anon_ok, transport) = (if ipc_ok then anonymity_policy_self_test (k_transport k) else (False, k_transport k));
             ready = anon_ok \<and> process_capability_policy_self_test;
             k = k\<lparr>k_endpoints := eps, k_transport := transport, k_security_boundaries_ready := ready\<rparr> in
         if \<not> ready then Some (False, k)
         else
           let k = k\<lparr>k_processes := fold (\<lambda>index ps. ps[index := zero_process]) [0..<8] (k_processes k)\<rparr>;
               (ok, a, s) = arch_syscall_init (env_layout env) (env_syscall_stack env + 32768) (k_arch k) (k_vm k);
               k = k\<lparr>k_arch := a, k_vm := s\<rparr> in
           if \<not> ok then Some (False, k)
           else do {
             (ok, k) \<leftarrow> load_probes env [0..<2] k;
             if \<not> ok then Some (False, k)
             else
               let isolated = validate_address_space_isolation k
               in Some (isolated, k\<lparr>k_address_spaces_isolated := isolated, k_scheduler_ready := isolated\<rparr>)
           })"

end
