(* ===== verification/Syscall.thy ===== *)
theory Syscall
  imports Process
begin

text \<open>
  The border between user programs and the kernel: the range checks and the accesses to user memory, the
  system calls and the interrupts of \<^verbatim>\<open>src/process.c\<close>, the way into user mode and back (\<^verbatim>\<open>src/cpu.S\<close>,
  \<^verbatim>\<open>interrupt_dispatch\<close> of \<^verbatim>\<open>src/arch.c\<close>) and \<^verbatim>\<open>dispatch_process\<close>, which runs a process once.
\<close>

section \<open>Memory of user programs, seen from the kernel\<close>

text \<open>
  The page walks of \<^verbatim>\<open>user_range_readable\<close> and \<^verbatim>\<open>user_range_writable\<close>; the test of a page is the argument
  in which they differ.
\<close>

function range_walk :: "(u64 \<Rightarrow> bool) \<Rightarrow> u64 \<Rightarrow> u64 \<Rightarrow> bool" where
  "range_walk ok page last_page =
    (if \<not> ok page then False
     else if page = last_page then True
     else if UINT64_MAX - ARGUS_PAGE_SIZE < page then False
     else range_walk ok (page + ARGUS_PAGE_SIZE) last_page)"
  by pat_completeness auto
termination
proof (relation "measure (\<lambda>(ok, page, last_page). 2 ^ 64 - unat page)")
  show "wf (measure (\<lambda>(ok :: u64 \<Rightarrow> bool, page :: u64, last_page :: u64). 2 ^ 64 - unat page))" by simp
next
  fix ok :: "u64 \<Rightarrow> bool" and page last_page :: u64
  assume "\<not> UINT64_MAX - ARGUS_PAGE_SIZE < page"
  then have "unat page + 4096 < 2 ^ 64" by (simp add: word_less_nat_alt)
  then have "unat (page + 4096) = unat page + 4096" by (simp add: unat_word_ariths)
  then show "((ok, page + ARGUS_PAGE_SIZE, last_page), (ok, page, last_page)) \<in>
      measure (\<lambda>(ok, page, last_page). 2 ^ 64 - unat page)"
    using \<open>unat page + 4096 < 2 ^ 64\<close> by simp
qed

declare range_walk.simps [simp del]

definition user_range :: "(u64 \<Rightarrow> bool) \<Rightarrow> u64 \<Rightarrow> u64 \<Rightarrow> bool" where
  "user_range ok address len =
    (if len = 0 \<or> UINT64_MAX - (len - 1) < address then False
     else
       let last = address + len - 1
       in range_walk ok (address AND NOT (ARGUS_PAGE_SIZE - 1)) (last AND NOT (ARGUS_PAGE_SIZE - 1)))"

definition user_range_readable :: "process \<Rightarrow> mem \<Rightarrow> u64 \<Rightarrow> u64 \<Rightarrow> bool" where
  "user_range_readable p m =
    user_range (\<lambda>page. paging_user_translate (Some (p_address_space p)) page m \<noteq> None)"

definition user_range_writable :: "process \<Rightarrow> mem \<Rightarrow> u64 \<Rightarrow> u64 \<Rightarrow> bool" where
  "user_range_writable p m =
    user_range (\<lambda>page. case paging_user_translate (Some (p_address_space p)) page m of None \<Rightarrow> False
       | Some (_, flags) \<Rightarrow> flags AND X86_PAGE_WRITABLE \<noteq> 0)"

text \<open>
  Accesses through the current tables. \<open>mmu_access\<close> is the walk with a permission that every entry on the
  way must give: none for a read by the kernel, the writable bit for its writes (write protection is
  on), the user bit for a user program.
\<close>

definition mmu_access :: "(u64 \<Rightarrow> bool) \<Rightarrow> mem \<Rightarrow> u64 \<Rightarrow> u64 \<Rightarrow> u64 option" where
  "mmu_access ok m root a =
    (let e4 = entry m root (pml4_index a) in
     if \<not> present e4 \<or> \<not> ok e4 then None
     else let e3 = entry m (target e4) (pdpt_index a) in
     if \<not> present e3 \<or> large e3 \<or> \<not> ok e3 then None
     else let e2 = entry m (target e3) (pd_index a) in
     if \<not> present e2 \<or> \<not> ok e2 then None
     else if large e2 then Some ((e2 AND 0x000FFFFFFFE00000) OR (a AND 0x1FFFFF))
     else let e1 = entry m (target e2) (pt_index a) in
     if \<not> present e1 \<or> \<not> ok e1 then None else Some (target e1 OR (a AND 0xFFF)))"

definition writable_entry :: "u64 \<Rightarrow> bool" where "writable_entry e \<longleftrightarrow> e AND X86_PAGE_WRITABLE \<noteq> 0"

definition read_bytes :: "vm \<Rightarrow> u64 \<Rightarrow> nat \<Rightarrow> u8 list option" where
  "read_bytes s address n =
    those (map (\<lambda>i. map_option (vm_memory s) (mmu_access (\<lambda>_. True) (vm_memory s) (vm_cr3 s) (address + of_nat i)))
      [0..<n])"

definition write_byte :: "(u64 \<Rightarrow> bool) \<Rightarrow> u64 \<Rightarrow> u8 \<Rightarrow> vm \<Rightarrow> vm option" where
  "write_byte ok address v s =
    (case mmu_access ok (vm_memory s) (vm_cr3 s) address of None \<Rightarrow> None
     | Some physical \<Rightarrow> Some (s\<lparr>vm_memory := (vm_memory s)(physical := v)\<rparr>))"

fun write_bytes :: "u64 \<Rightarrow> u8 list \<Rightarrow> vm \<Rightarrow> vm option" where
  "write_bytes address [] s = Some s"
| "write_bytes address (v # vs) s = do { s \<leftarrow> write_byte writable_entry address v s; write_bytes (address + 1) vs s }"

definition word_of_bytes :: "u8 list \<Rightarrow> u32" where
  "word_of_bytes bs = foldr (\<lambda>b acc. push_bit 8 acc OR ucast b) bs 0"

section \<open>System calls\<close>

definition process_capability :: "process \<Rightarrow> u64 \<Rightarrow> u32 \<Rightarrow> u16 \<Rightarrow> u64 \<Rightarrow> u64 option" where
  "process_capability p handle type rights expected_object =
    (case capability_resolve (Some (p_capabilities p)) handle type rights of None \<Rightarrow> None
     | Some resolved \<Rightarrow>
       if expected_object \<noteq> UINT64_MAX \<and> resolved \<noteq> expected_object then None else Some resolved)"

definition input_next :: "u8 \<Rightarrow> u8" where
  "input_next i = ucast ((ucast i + 1) AND (APP_INPUT_CAPACITY - 1))"

definition app_input_poll :: "process \<Rightarrow> u64 \<times> process" where
  "app_input_poll p =
    (if p_input_tail p = p_input_head p then (0, p)
     else
       let key = p_input p ! unat (p_input_tail p)
       in (ucast key, p\<lparr>p_input_tail := input_next (p_input_tail p), p_inputs_delivered := p_inputs_delivered p + 1\<rparr>))"

definition app_surface_valid :: "process \<Rightarrow> mem \<Rightarrow> bool" where
  "app_surface_valid p m =
    (if p_surface_physical p = 0 then False
     else list_all (\<lambda>index. m (p_surface_physical p + of_nat index) < ARGUS_APP_PALETTE_COUNT) [0..<71680])"

definition app_mapping_isolated :: "process \<Rightarrow> mem \<Rightarrow> bool" where
  "app_mapping_isolated p m =
    (if p_app_id p = 0 \<or> p_surface_physical p = 0 then False
     else
       case (paging_user_translate (Some (p_address_space p)) ARGUS_APP_SURFACE_ADDRESS m,
             paging_user_translate (Some (p_address_space p))
               (ARGUS_APP_SURFACE_ADDRESS + ARGUS_APP_SURFACE_BYTES - 1) m) of
         (Some (physical, flags), Some (last_physical, _)) \<Rightarrow>
           physical = p_surface_physical p \<and> flags AND X86_PAGE_WRITABLE \<noteq> 0 \<and>
           (us_nx_enabled (p_address_space p) \<longrightarrow> flags AND X86_PAGE_NO_EXECUTE \<noteq> 0) \<and>
           last_physical = p_surface_physical p + ARGUS_APP_SURFACE_BYTES - 1
       | _ \<Rightarrow> False)"

definition frame_context :: "interrupt_frame \<Rightarrow> arch_user_context" where
  "frame_context f = \<lparr>ctx_r15 = frame_r15 f, ctx_r14 = frame_r14 f, ctx_r13 = frame_r13 f, ctx_r12 = frame_r12 f,
     ctx_r11 = frame_r11 f, ctx_r10 = frame_r10 f, ctx_r9 = frame_r9 f, ctx_r8 = frame_r8 f,
     ctx_rdi = frame_rdi f, ctx_rsi = frame_rsi f, ctx_rbp = frame_rbp f, ctx_rdx = frame_rdx f,
     ctx_rcx = frame_rcx f, ctx_rbx = frame_rbx f, ctx_rax = frame_rax f, ctx_rip = frame_rip f,
     ctx_rflags = frame_rflags f, ctx_rsp = frame_rsp f\<rparr>"

definition save_interrupt_context :: "interrupt_frame \<Rightarrow> process \<Rightarrow> process" where
  "save_interrupt_context frame p = p\<lparr>p_context := frame_context frame\<rparr>"

definition no_current :: "kernel \<Rightarrow> bool" where
  "no_current k \<longleftrightarrow> k_current_process k < 0 \<or> k_configured_processes k \<le> word_of_int (k_current_process k)"

abbreviation (input) cur :: "kernel \<Rightarrow> nat" where "cur k \<equiv> nat (k_current_process k)"

definition process_on_user_interrupt :: "interrupt_frame \<Rightarrow> kernel \<Rightarrow> u64 \<times> kernel" where
  "process_on_user_interrupt frame k =
    (if frame_cs frame AND 3 \<noteq> 3 \<or> no_current k then (ARCH_USER_ACTION_RETURN, k)
     else
       let p = proc k (cur k) in
       if p_state p \<noteq> PROCESS_RUNNING then (ARCH_USER_ACTION_RETURN, k)
       else if frame_vector frame < 32 then
         let p = (save_interrupt_context frame p)\<lparr>p_fault_vector := frame_vector frame,
               p_fault_error := frame_error_code frame, p_fault_rip := frame_rip frame,
               p_fault_address := (if frame_vector frame = 14 then k_cr2 k else 0),
               p_state := PROCESS_FAULTED, p_active := False\<rparr>
         in (ARCH_USER_ACTION_FAULT, set_proc (cur k) p (k\<lparr>k_fault_count := k_fault_count k + 1\<rparr>))
       else if frame_vector frame = ARGUS_APIC_TIMER_VECTOR \<and> k_preemption_enabled k then
         (ARCH_USER_ACTION_PREEMPT,
          set_proc (cur k) ((save_interrupt_context frame p)\<lparr>p_state := PROCESS_READY\<rparr>)
            (k\<lparr>k_preemption_count := k_preemption_count k + 1\<rparr>))
       else (ARCH_USER_ACTION_RETURN, k))"

text \<open>The cases of \<^verbatim>\<open>syscall_dispatch\<close> in order. A result is the action, the registers and the kernel.\<close>

type_synonym syscall_result = "u64 \<times> arch_user_context \<times> kernel"

definition returns :: "u64 \<Rightarrow> arch_user_context \<Rightarrow> kernel \<Rightarrow> syscall_result" where
  "returns v c k = (ARCH_USER_ACTION_RETURN, c\<lparr>ctx_rax := v\<rparr>, k)"

definition syscall_write :: "arch_user_context \<Rightarrow> kernel \<Rightarrow> syscall_result option" where
  "syscall_write c k =
    (let address = ctx_rdi c; len = ctx_rsi c in
     if len = 0 \<or> USER_WRITE_LIMIT < len \<or>
        \<not> user_range_readable (proc k (cur k)) (vm_memory (k_vm k)) address len
     then Some (returns UINT64_MAX c k)
     else do {
       bytes \<leftarrow> read_bytes (k_vm k) address (unat len);
       line \<leftarrow> serial_write bytes (k_serial k);
       Some (returns len c (k\<lparr>k_serial := line, k_write_count := k_write_count k + 1\<rparr>))
     })"

definition syscall_yield :: "arch_user_context \<Rightarrow> kernel \<Rightarrow> syscall_result" where
  "syscall_yield c k =
    (let c = c\<lparr>ctx_rax := 0\<rparr>; p = proc k (cur k) in
     (ARCH_USER_ACTION_YIELD, c,
      set_proc (cur k) (p\<lparr>p_context := c, p_state := PROCESS_READY, p_yields := p_yields p + 1\<rparr>)
        (k\<lparr>k_yield_count := k_yield_count k + 1\<rparr>)))"

definition syscall_exit :: "arch_user_context \<Rightarrow> kernel \<Rightarrow> syscall_result" where
  "syscall_exit c k =
    (ARCH_USER_ACTION_EXIT, c,
     set_proc (cur k) ((proc k (cur k))\<lparr>p_exit_status := ctx_rdi c, p_state := PROCESS_EXITED, p_active := False\<rparr>)
       (k\<lparr>k_completed_processes := k_completed_processes k + 1\<rparr>))"

definition syscall_clock_ticks :: "arch_user_context \<Rightarrow> kernel \<Rightarrow> syscall_result" where
  "syscall_clock_ticks c k =
    (let p = proc k (cur k) in
     returns (if p_app_id p \<noteq> 0 \<and>
         process_capability p (ctx_rdi c) ARGUS_CAPABILITY_CLOCK ARGUS_CAP_RIGHT_READ 0 \<noteq> None
       then apic_timer_ticks (k_apic k) else UINT64_MAX) c k)"

definition syscall_input_poll :: "arch_user_context \<Rightarrow> kernel \<Rightarrow> syscall_result" where
  "syscall_input_poll c k =
    (let p = proc k (cur k) in
     if p_app_id p \<noteq> 0 \<and>
        process_capability p (ctx_rdi c) ARGUS_CAPABILITY_INPUT ARGUS_CAP_RIGHT_READ (ucast (p_app_id p)) \<noteq> None
     then let (v, p) = app_input_poll p in returns v c (set_proc (cur k) p k)
     else returns UINT64_MAX c k)"

definition syscall_app_present :: "arch_user_context \<Rightarrow> kernel \<Rightarrow> syscall_result option" where
  "syscall_app_present c k =
    (let p = proc k (cur k) in
     if p_app_id p = 0 \<or>
        process_capability p (ctx_rdx c) ARGUS_CAPABILITY_SURFACE ARGUS_CAP_RIGHT_PRESENT (p_surface_physical p) = None \<or>
        ctx_rsi c \<noteq> 16 \<or> \<not> user_range_readable p (vm_memory (k_vm k)) (ctx_rdi c) (ctx_rsi c)
     then Some (returns UINT64_MAX c k)
     else do {
       request \<leftarrow> read_bytes (k_vm k) (ctx_rdi c) 16;
       let magic = word_of_bytes (take 4 request);
           abi_version = word_of_bytes (take 4 (drop 4 request));
           present_seq = word_of_bytes (take 4 (drop 8 request));
           flags = word_of_bytes (take 4 (drop 12 request))
       in if magic \<noteq> ARGUS_APP_PRESENT_MAGIC \<or> abi_version \<noteq> ARGUS_APP_ABI_VERSION \<or> flags \<noteq> 0 \<or> present_seq = 0 \<or>
             (p_present_valid p \<and> present_seq \<le> p_present_sequence p) \<or> \<not> app_surface_valid p (vm_memory (k_vm k))
          then Some (returns UINT64_MAX c k)
          else Some (returns 0 c (set_proc (cur k) (p\<lparr>p_present_sequence := present_seq, p_present_valid := True\<rparr>) k))
     })"

definition syscall_event_wait :: "arch_user_context \<Rightarrow> kernel \<Rightarrow> syscall_result" where
  "syscall_event_wait c k =
    (let p = proc k (cur k) in
     if p_app_id p = 0 \<or>
        process_capability p (ctx_rdi c) ARGUS_CAPABILITY_INPUT ARGUS_CAP_RIGHT_WAIT (ucast (p_app_id p)) = None
     then returns UINT64_MAX c k
     else
       let deadline = ctx_rsi c; now = apic_timer_ticks (k_apic k) in
       if p_input_tail p \<noteq> p_input_head p \<or> (deadline \<noteq> UINT64_MAX \<and> deadline \<le> now) then returns 0 c k
       else
         let c = c\<lparr>ctx_rax := 0\<rparr> in
         (ARCH_USER_ACTION_WAIT, c,
          set_proc (cur k) (p\<lparr>p_context := c, p_wait_deadline := deadline, p_state := PROCESS_BLOCKED\<rparr>)
            (k\<lparr>k_wait_count := k_wait_count k + 1\<rparr>)))"

definition syscall_capability_query :: "arch_user_context \<Rightarrow> kernel \<Rightarrow> syscall_result" where
  "syscall_capability_query c k =
    (let type = ucast (ctx_rdi c) :: u32 in
     returns (if 0 < type \<and> type \<le> ARGUS_CAPABILITY_RAW_NETWORK
       then capability_find (Some (p_capabilities (proc k (cur k)))) type (ucast (ctx_rsi c)) else 0) c k)"

definition syscall_ipc_send :: "arch_user_context \<Rightarrow> kernel \<Rightarrow> syscall_result option" where
  "syscall_ipc_send c k =
    (let p = proc k (cur k) in
     case process_capability p (ctx_rdi c) ARGUS_CAPABILITY_IPC ARGUS_CAP_RIGHT_SEND UINT64_MAX of
       None \<Rightarrow> Some (returns UINT64_MAX c k)
     | Some endpoint \<Rightarrow>
       if ctx_rdx c = 0 \<or> of_nat ARGUS_IPC_MESSAGE_MAX < ctx_rdx c \<or>
          \<not> user_range_readable p (vm_memory (k_vm k)) (ctx_rsi c) (ctx_rdx c)
       then Some (returns UINT64_MAX c k)
       else do {
         bytes \<leftarrow> read_bytes (k_vm k) (ctx_rsi c) (unat (ctx_rdx c));
         let (ok, eps) = ipc_send (k_endpoints k) endpoint (p_pid p) (Some bytes) (ucast (ctx_rdx c));
             k = k\<lparr>k_endpoints := eps\<rparr>
         in Some (returns (if ok then ctx_rdx c else UINT64_MAX) c k)
       })"

definition syscall_ipc_receive :: "arch_user_context \<Rightarrow> kernel \<Rightarrow> syscall_result option" where
  "syscall_ipc_receive c k =
    (let p = proc k (cur k) in
     case process_capability p (ctx_rdi c) ARGUS_CAPABILITY_IPC ARGUS_CAP_RIGHT_RECEIVE (p_ipc_endpoint p) of
       None \<Rightarrow> Some (returns UINT64_MAX c k)
     | Some endpoint \<Rightarrow>
       if ipc_pending (k_endpoints k) endpoint (p_pid p) = 0 then Some (returns 0 c k)
       else if ctx_rdx c = 0 \<or> of_nat ARGUS_IPC_MESSAGE_MAX < ctx_rdx c \<or>
          \<not> user_range_writable p (vm_memory (k_vm k)) (ctx_rsi c) (ctx_rdx c)
       then Some (returns UINT64_MAX c k)
       else
         case ipc_receive (k_endpoints k) endpoint (p_pid p) (Some (replicate (unat (ctx_rdx c)) 0))
             (ucast (ctx_rdx c)) (Some 0) (Some 0) of
           (True, Some data, Some received, _, eps) \<Rightarrow> do {
             s \<leftarrow> write_bytes (ctx_rsi c) (take (unat received) data) (k_vm k);
             Some (returns (ucast received) c (k\<lparr>k_vm := s, k_endpoints := eps\<rparr>))
           }
         | (_, _, _, _, eps) \<Rightarrow> Some (returns UINT64_MAX c (k\<lparr>k_endpoints := eps\<rparr>)))"

text \<open>The answer of the policy is not used: every attempt to connect is denied.\<close>

definition syscall_anonymous_connect :: "arch_user_context \<Rightarrow> kernel \<Rightarrow> syscall_result" where
  "syscall_anonymous_connect c k =
    returns UINT64_MAX c (k\<lparr>k_network_denial_count := k_network_denial_count k + 1\<rparr>)"

definition syscall_dispatch :: "arch_user_context \<Rightarrow> kernel \<Rightarrow> syscall_result option" where
  "syscall_dispatch c k =
    (if no_current k then Some (ARCH_USER_ACTION_EXIT, c, k)
     else
       let k = k\<lparr>k_syscall_count := k_syscall_count k + 1\<rparr>; n = ctx_rax c in
       if n = 1 then syscall_write c k
       else if n = 2 then Some (returns (p_pid (proc k (cur k))) c k)
       else if n = 3 then Some (syscall_yield c k)
       else if n = 4 then Some (syscall_exit c k)
       else if n = 5 then Some (syscall_clock_ticks c k)
       else if n = 6 then Some (syscall_input_poll c k)
       else if n = 7 then syscall_app_present c k
       else if n = 8 then Some (syscall_event_wait c k)
       else if n = 9 then Some (syscall_capability_query c k)
       else if n = 10 then syscall_ipc_send c k
       else if n = 11 then syscall_ipc_receive c k
       else if n = 12 then Some (syscall_anonymous_connect c k)
       else Some (returns UINT64_MAX c k))"

section \<open>Running a process\<close>

text \<open>The handler of the timer, \<^verbatim>\<open>timer_handler\<close> of \<^verbatim>\<open>src/apic.c\<close>.\<close>

definition timer_handler :: "interrupt_frame \<Rightarrow> kernel \<Rightarrow> kernel" where
  "timer_handler frame k =
    (let (a, s) = apic_timer_interrupt (k_apic k) (k_vm k) in k\<lparr>k_apic := a, k_vm := s\<rparr>)"

text \<open>A handler runs first; an interrupt that came from user mode is then given to the process.\<close>

definition interrupt_dispatch :: "environment \<Rightarrow> interrupt_frame \<Rightarrow> kernel \<Rightarrow> (u64 \<times> kernel) option" where
  "interrupt_dispatch env frame k =
    (if frame_vector frame = ARGUS_APIC_SPURIOUS_VECTOR then Some (ARCH_USER_ACTION_RETURN, k)
     else
       let handler = interrupt_handlers (k_arch k) ! unat (frame_vector frame) in
       if frame_vector frame < 256 \<and> handler \<noteq> 0 then
         let k = env_handlers env handler frame k in
         if frame_cs frame AND 3 = 3 then Some (process_on_user_interrupt frame k)
         else Some (ARCH_USER_ACTION_RETURN, k)
       else if frame_vector frame < 32 \<and> frame_cs frame AND 3 = 3 then Some (process_on_user_interrupt frame k)
       else None)"

text \<open>
  \<^verbatim>\<open>arch_resume_user\<close> of \<^verbatim>\<open>src/cpu.S\<close> with its two ways back, \<^verbatim>\<open>syscall_entry\<close> and \<^verbatim>\<open>isr_common\<close>: the user
  program runs, and each time it enters the kernel with the action \<open>ARCH_USER_ACTION_RETURN\<close> it goes on
  with the registers as the kernel left them. A store that the tables do not permit has no effect. The
  instruction that enters the kernel leaves the return address and the flags in two registers.
\<close>

definition user_view :: "vm \<Rightarrow> u64 \<Rightarrow> u8 option" where
  "user_view s a = map_option (vm_memory s) (mmu_access user (vm_memory s) (vm_cr3 s) a)"

definition user_store :: "u64 \<Rightarrow> u8 \<Rightarrow> vm \<Rightarrow> vm" where
  "user_store a v s = (case write_byte (\<lambda>e. user e \<and> writable_entry e) a v s of None \<Rightarrow> s | Some s \<Rightarrow> s)"

definition syscall_context :: "arch_user_context \<Rightarrow> arch_user_context" where
  "syscall_context c = c\<lparr>ctx_rcx := ctx_rip c, ctx_r11 := ctx_rflags c\<rparr>"

partial_function (option) arch_resume_user ::
    "environment \<Rightarrow> arch_user_context \<Rightarrow> kernel \<Rightarrow> (u64 \<times> kernel) option" where
  "arch_resume_user env c k =
    (let event = env_cpu env (k_steps k) c (user_view (k_vm k));
         k = k\<lparr>k_steps := Suc (k_steps k)\<rparr> in
     case event of
       User_Step c \<Rightarrow> arch_resume_user env c k
     | User_Store a v c \<Rightarrow> arch_resume_user env c (k\<lparr>k_vm := user_store a v (k_vm k)\<rparr>)
     | User_Syscall c \<Rightarrow>
         Option.bind (syscall_dispatch (syscall_context c) k) (\<lambda>(action, c, k).
           if action = ARCH_USER_ACTION_RETURN then arch_resume_user env c k else Some (action, k))
     | User_Interrupt frame cr2 \<Rightarrow>
         Option.bind (interrupt_dispatch env (frame\<lparr>frame_cs := 0x23\<rparr>) (k\<lparr>k_cr2 := cr2\<rparr>)) (\<lambda>(action, k).
           if action = ARCH_USER_ACTION_RETURN then arch_resume_user env (frame_context frame) k else Some (action, k)))"

definition dispatch_process :: "environment \<Rightarrow> u32 \<Rightarrow> kernel \<Rightarrow> (bool \<times> kernel) option" where
  "dispatch_process env index k =
    (let i = unat index in
     if k_configured_processes k \<le> index \<or> p_state (proc k i) \<noteq> PROCESS_READY then Some (False, k)
     else
       let k = set_proc i ((proc k i)\<lparr>p_state := PROCESS_RUNNING\<rparr>) (k\<lparr>k_current_process := int i\<rparr>);
           k = k\<lparr>k_vm := paging_user_activate (Some (p_address_space (proc k i))) (k_vm k)\<rparr>
       in do {
         (action, k) \<leftarrow> arch_resume_user env (p_context (proc k i)) k;
         let k = k\<lparr>k_vm := paging_kernel_activate (k_kernel_paging k) (k_vm k), k_current_process := -1,
                   k_context_switch_count := k_context_switch_count k + 1\<rparr>;
             st = p_state (proc k i)
         in Some ((action = ARCH_USER_ACTION_YIELD \<and> st = PROCESS_READY) \<or>
              (action = ARCH_USER_ACTION_EXIT \<and> st = PROCESS_EXITED) \<or>
              (action = ARCH_USER_ACTION_WAIT \<and> st = PROCESS_BLOCKED) \<or>
              (action = ARCH_USER_ACTION_PREEMPT \<and> st = PROCESS_READY) \<or>
              (action = ARCH_USER_ACTION_FAULT \<and> st = PROCESS_FAULTED), k)
       })"

section \<open>Range checks\<close>

lemma range_walk_pages:
  assumes "i \<le> j" and "j < 2 ^ 52"
  shows "range_walk ok (of_nat (4096 * i)) (of_nat (4096 * j)) \<longleftrightarrow> (\<forall>k\<in>{i..j}. ok (of_nat (4096 * k)))"
  using assms
proof (induction "j - i" arbitrary: i)
  case 0
  then have "i = j" by simp
  then show ?case by (subst range_walk.simps) auto
next
  case (Suc d)
  then have lt: "i < j" by simp
  have u: "unat (of_nat (4096 * i) :: u64) = 4096 * i" "unat (of_nat (4096 * j) :: u64) = 4096 * j"
    using lt Suc.prems by (intro unat_of_nat_u64; simp)+
  have ne: "(of_nat (4096 * i) :: u64) \<noteq> of_nat (4096 * j)" using u lt by (metis mult_cancel1 nat_neq_iff zero_neq_numeral)
  have le: "\<not> UINT64_MAX - ARGUS_PAGE_SIZE < (of_nat (4096 * i) :: u64)"
    using u lt Suc.prems by (simp add: word_less_nat_alt del: of_nat_mult)
  have n: "(of_nat (4096 * i) :: u64) + 4096 = of_nat (4096 * Suc i)" by simp
  have "range_walk ok (of_nat (4096 * i)) (of_nat (4096 * j)) \<longleftrightarrow>
      ok (of_nat (4096 * i)) \<and> range_walk ok (of_nat (4096 * Suc i)) (of_nat (4096 * j))"
    by (subst range_walk.simps) (simp only: ne le n if_False simp_thms if_bool_eq_conj, blast)
  also have "\<dots> \<longleftrightarrow> ok (of_nat (4096 * i)) \<and> (\<forall>k\<in>{Suc i..j}. ok (of_nat (4096 * k)))"
    using Suc.hyps(1) [of "Suc i"] Suc.hyps(2) Suc.prems lt by simp
  also have "{i..j} = insert i {Suc i..j}" using lt by auto
  ultimately show ?case by simp
qed

lemma page_floor: "a AND NOT 0xFFF = (of_nat (4096 * (unat a div 4096)) :: u64)"
proof -
  have "a AND NOT 0xFFF = a AND NOT (mask 12)" by (simp add: mask_eq_exp_minus_1)
  also have "\<dots> = push_bit 12 (drop_bit 12 a)"
    by (rule bit_word_eqI) (auto simp: bit_simps)
  also have "\<dots> = of_nat (4096 * (unat a div 4096))"
  proof -
    have "unat (drop_bit 12 a) = unat a div 4096" by (simp add: drop_bit_eq_div unat_div)
    then have "drop_bit 12 a = of_nat (unat a div 4096)" by (metis of_nat_unat_id)
    then show ?thesis by (simp add: push_bit_eq_mult mult.commute)
  qed
  finally show ?thesis .
qed

lemma user_range_iff:
  "user_range ok a n \<longleftrightarrow> n \<noteq> 0 \<and> unat a + unat n \<le> 2 ^ 64 \<and>
     list_all (\<lambda>i. ok ((a + of_nat i) AND NOT 0xFFF)) [0..<unat n]"
proof (cases "n = 0 \<or> 2 ^ 64 < unat a + unat n")
  case True
  moreover have "UINT64_MAX - (n - 1) < a" if "n \<noteq> 0" "2 ^ 64 < unat a + unat n"
  proof -
    have "unat (n - 1) = unat n - 1" using that(1) by (simp add: unat_minus_one)
    moreover have "unat (UINT64_MAX - (n - 1)) = 2 ^ 64 - 1 - unat (n - 1)"
      using unat_u64_less [of "n - 1"] by (subst unat_sub) (simp_all add: word_le_nat_alt)
    moreover have "0 < unat n" using that(1) by (simp add: unat_gt_0)
    ultimately have "unat (UINT64_MAX - (n - 1)) < unat a" using that(2) unat_u64_less [of n] by linarith
    then show ?thesis by (simp only: word_less_nat_alt)
  qed
  ultimately show ?thesis by (auto simp: user_range_def)
next
  case False
  let ?A = "unat a" and ?N = "unat n"
  have N: "0 < ?N" "?A + ?N \<le> 2 ^ 64" using False by (auto simp: unat_gt_0)
  have n1: "unat (n - 1) = ?N - 1" using False by (simp add: unat_minus_one)
  have "unat (UINT64_MAX - (n - 1)) = 2 ^ 64 - 1 - unat (n - 1)"
    using unat_u64_less [of "n - 1"] by (subst unat_sub) (simp_all add: word_le_nat_alt)
  then have guard: "\<not> UINT64_MAX - (n - 1) < a" using N n1 by (simp add: word_less_nat_alt)
  have add: "unat (a + of_nat t) = ?A + t" if "t < ?N" for t
  proof -
    have "unat (of_nat t :: u64) = t" using that N by (intro unat_of_nat_u64) linarith
    then show ?thesis using that N by (simp add: unat_word_ariths)
  qed
  have eq: "a + n - 1 = a + of_nat (?N - 1)" using n1 by (metis add_diff_eq of_nat_unat_id)
  have "unat (a + of_nat (?N - 1)) = ?A + (?N - 1)" using N(1) by (intro add) simp
  then have last: "unat (a + n - 1) = ?A + ?N - 1" unfolding eq using N by simp
  let ?p = "\<lambda>k. ok (of_nat (4096 * k))"
  have "user_range ok a n \<longleftrightarrow> (\<forall>k\<in>{?A div 4096..(?A + ?N - 1) div 4096}. ?p k)"
  proof -
    have mask: "NOT (ARGUS_PAGE_SIZE - 1) = (NOT 0xFFF :: u64)" by simp
    have "user_range ok a n \<longleftrightarrow> range_walk ok (a AND NOT 0xFFF) ((a + n - 1) AND NOT 0xFFF)"
      unfolding user_range_def mask using guard False by (simp only: simp_thms if_False Let_def) simp
    also have "\<dots> \<longleftrightarrow> (\<forall>k\<in>{?A div 4096..(?A + ?N - 1) div 4096}. ?p k)"
      unfolding page_floor last using N by (intro range_walk_pages div_le_mono) auto
    finally show ?thesis .
  qed
  also have "\<dots> \<longleftrightarrow> (\<forall>t<?N. ?p ((?A + t) div 4096))"
  proof (intro iffI ballI allI impI)
    fix t assume *: "\<forall>k\<in>{?A div 4096..(?A + ?N - 1) div 4096}. ?p k" and "t < ?N"
    then show "?p ((?A + t) div 4096)" by (intro bspec [OF *]) (auto intro!: div_le_mono)
  next
    fix k assume *: "\<forall>t<?N. ?p ((?A + t) div 4096)" and k: "k \<in> {?A div 4096..(?A + ?N - 1) div 4096}"
    have "(?A + (4096 * k - ?A)) div 4096 = k" "4096 * k - ?A < ?N"
      using k N by (auto simp: le_div_geq) 
    then show "?p k" using * by metis
  qed
  also have "\<dots> \<longleftrightarrow> list_all (\<lambda>i. ok ((a + of_nat i) AND NOT 0xFFF)) [0..<?N]"
    unfolding page_floor list_all_iff by (simp only: set_upt ball_simps atLeastLessThan_iff)
      (use add in \<open>metis le0 atLeastLessThan_iff\<close>)
  finally show ?thesis using N False by simp
qed

lemma page_indices_floor: "page_indices (a AND NOT 0xFFF) = page_indices a"
proof -
  have "drop_bit k (a AND NOT 0xFFF) = drop_bit k a" if "12 \<le> k" for k
  proof -
    have "drop_bit k (NOT 0xFFF :: u64) = drop_bit k (NOT (mask 12))" by (simp add: mask_eq_exp_minus_1)
    also have "drop_bit k a AND \<dots> = drop_bit k a"
      using that by (intro bit_word_eqI) (auto simp: bit_simps dest: bit_imp_le_length)
    finally show ?thesis by (simp add: drop_bit_and)
  qed
  then show ?thesis
    unfolding page_indices_def pml4_index_def pdpt_index_def pd_index_def pt_index_def by (simp only: prod.inject)
qed

text \<open>A translation depends on the address only through its page, but for the offset in the page.\<close>

lemma translate_cong: "page_indices a = page_indices b \<Longrightarrow>
    map_option snd (paging_user_translate us a m) = map_option snd (paging_user_translate us b m)"
  by (simp add: page_indices_def paging_user_translate_def Let_def split: option.splits)

lemma translate_floor:
  "map_option snd (paging_user_translate us (a AND NOT 0xFFF) m) = map_option snd (paging_user_translate us a m)"
  by (rule translate_cong) (rule page_indices_floor)

lemma readable_iff: "user_range_readable p m a n \<longleftrightarrow> n \<noteq> 0 \<and> unat a + unat n \<le> 2 ^ 64 \<and>
    list_all (\<lambda>i. paging_user_translate (Some (p_address_space p)) (a + of_nat i) m \<noteq> None) [0..<unat n]"
proof -
  have "paging_user_translate us (b AND NOT 0xFFF) m \<noteq> None \<longleftrightarrow> paging_user_translate us b m \<noteq> None" for us b
    using translate_floor [of us b m] by (metis None_eq_map_option_iff)
  then show ?thesis unfolding user_range_readable_def user_range_iff by (simp only:)
qed

lemma writable_iff: "user_range_writable p m a n \<longleftrightarrow> n \<noteq> 0 \<and> unat a + unat n \<le> 2 ^ 64 \<and>
    list_all (\<lambda>i. \<exists>phys flags. paging_user_translate (Some (p_address_space p)) (a + of_nat i) m =
      Some (phys, flags) \<and> flags AND X86_PAGE_WRITABLE \<noteq> 0) [0..<unat n]"
proof -
  have "(case paging_user_translate us (b AND NOT 0xFFF) m of None \<Rightarrow> False
       | Some (_, flags) \<Rightarrow> flags AND X86_PAGE_WRITABLE \<noteq> 0) \<longleftrightarrow>
      (\<exists>phys flags. paging_user_translate us b m = Some (phys, flags) \<and> flags AND X86_PAGE_WRITABLE \<noteq> 0)" for us b
    using translate_floor [of us b m] by (cases "paging_user_translate us (b AND NOT 0xFFF) m";
      cases "paging_user_translate us b m") auto
  then show ?thesis unfolding user_range_writable_def user_range_iff by (simp only:)
qed

text \<open>
  Claim C36. The page-wise range checks that guard every access of the kernel to user memory are exact: a
  range passes \<^verbatim>\<open>user_range_readable\<close> exactly when it is not empty, does not wrap around the address space
  and every single byte of it has a translation; it passes \<^verbatim>\<open>user_range_writable\<close> exactly when every
  byte's page is writable as well.
\<close>

theorem user_range_checks_exact:
  "(user_range_readable p m a n \<longleftrightarrow> n \<noteq> 0 \<and> unat a + unat n \<le> 2 ^ 64 \<and>
      list_all (\<lambda>i. paging_user_translate (Some (p_address_space p)) (a + of_nat i) m \<noteq> None) [0..<unat n]) \<and>
   (user_range_writable p m a n \<longleftrightarrow> n \<noteq> 0 \<and> unat a + unat n \<le> 2 ^ 64 \<and>
      list_all (\<lambda>i. \<exists>phys flags. paging_user_translate (Some (p_address_space p)) (a + of_nat i) m =
        Some (phys, flags) \<and> flags AND X86_PAGE_WRITABLE \<noteq> 0) [0..<unat n])"
  by (rule conjI [OF readable_iff writable_iff])

section \<open>Accesses through the tables of a user space\<close>

lemma mmu_access_mono:
  assumes "mmu_access ok m root a = Some x" and "\<And>e. ok e \<Longrightarrow> ok' e"
  shows "mmu_access ok' m root a = Some x"
  using assms by (auto simp: mmu_access_def Let_def split: if_splits)

lemma link_writable: "frame_address u \<Longrightarrow> writable_entry (u OR 7)"
  using frame_or_flags(2) [of u 7 2] by (simp add: writable_entry_def)

text \<open>The entries above the last level give user programs every right; the leaf decides.\<close>

lemma mmu_access_user:
  assumes ok: "tree_ok m T lvl" and root: "us_root_table us = hd T"
  shows "mmu_access user m (hd T) a = map_option fst (paging_user_translate (Some us) a m)"
    and "mmu_access (\<lambda>e. user e \<and> writable_entry e) m (hd T) a =
      (case paging_user_translate (Some us) a m of None \<Rightarrow> None
       | Some (x, flags) \<Rightarrow> if flags AND X86_PAGE_WRITABLE \<noteq> 0 then Some x else None)"
proof -
  have upper: "\<not> large e \<and> writable_entry e" if "user e" "present e" "e = entry m t i" "t \<in> set T" "2 \<le> lvl t" "unat i < 512" for e t i
  proof -
    have "t = hd T \<longrightarrow> i = 1" using tree_root_kernel [OF ok that(6)] that(1,3) by blast
    then have sl: "slot T lvl t i" using that by (simp add: slot_def)
    show ?thesis
    proof (cases rule: tree_slot_cases [OF ok sl])
      case 1 then show ?thesis using that by simp
    next
      case (2 u)
      then have "frame_address u" using tree_tables [OF ok] by blast
      then show ?thesis using 2 that(3) link_entry(3) link_writable by simp
    qed
  qed
  let ?e4 = "entry m (hd T) (pml4_index a)" let ?e3 = "entry m (target ?e4) (pdpt_index a)"
  let ?e2 = "entry m (target ?e3) (pd_index a)" let ?e1 = "entry m (target ?e2) (pt_index a)"
  have h: "hd T \<in> set T" "lvl (hd T) = 4" "hd T \<noteq> 0" using tree_tables [OF ok] by blast+
  have 4: "\<not> large ?e4 \<and> writable_entry ?e4 \<and> target ?e4 \<in> set T \<and> lvl (target ?e4) = 3" if "user ?e4" "present ?e4"
    using upper [OF that refl h(1)] h tree_child [OF ok h(1) _ index_less(1), of a "target ?e4"] that by (simp add: child_def Let_def)
  have 3: "\<not> large ?e3 \<and> writable_entry ?e3 \<and> target ?e3 \<in> set T \<and> lvl (target ?e3) = 2"
    if "user ?e4" "present ?e4" "user ?e3" "present ?e3"
    using upper [OF that(3,4) refl] 4 [OF that(1,2)] tree_child [OF ok _ _ index_less(2), of "target ?e4" a "target ?e3"] that
    by (simp add: child_def Let_def)
  have 2: "\<not> large ?e2 \<and> writable_entry ?e2" if "user ?e4" "present ?e4" "user ?e3" "present ?e3" "user ?e2" "present ?e2"
    using upper [OF that(5,6) refl] 3 [OF that(1-4)] by simp
  have w: "(e AND - 4503599627366401) AND X86_PAGE_WRITABLE = e AND X86_PAGE_WRITABLE" for e :: u64
    by (simp add: and.assoc)
  show "mmu_access user m (hd T) a = map_option fst (paging_user_translate (Some us) a m)"
    using 4 3 2 h root unfolding mmu_access_def paging_user_translate_def option.case
    by (auto simp: Let_def target_def [symmetric])
  show "mmu_access (\<lambda>e. user e \<and> writable_entry e) m (hd T) a =
      (case paging_user_translate (Some us) a m of None \<Rightarrow> None
       | Some (x, flags) \<Rightarrow> if flags AND X86_PAGE_WRITABLE \<noteq> 0 then Some x else None)"
    using 4 3 2 h root unfolding mmu_access_def paging_user_translate_def option.case
    by (auto simp: Let_def target_def [symmetric] w writable_entry_def)
qed

text \<open>Stores outside the tables change neither the tree nor any translation.\<close>

lemma tree_store:
  assumes ok: "tree_ok m T lvl" and same: "\<And>x. page_of x \<in> page_of ` set T \<Longrightarrow> m' x = m x"
  shows "tree_ok m' T lvl" and "us_root_table us = hd T \<Longrightarrow> paging_user_translate (Some us) a m' = paging_user_translate (Some us) a m"
proof -
  have e: "entry m' t i = entry m t i" if "t \<in> set T" "unat i < 512" for t i
    using that tree_tables(3) [OF ok] same by (intro entry_cong_page) (auto intro: frame_address_table)
  then have s: "entry m' t i = entry m t i" if "slot T lvl t i" for t i using that by (simp add: slot_def)
  have "root_ok m' (hd T)" "links_ok m' T lvl" "links_inj m' T lvl" "leaves_ok m' T lvl"
  proof -
    have o: "root_ok m (hd T)" "links_ok m T lvl" "links_inj m T lvl" "leaves_ok m T lvl"
      using ok unfolding tree_ok_def by blast+
    show "root_ok m' (hd T)" using o(1) e [OF tree_tables(1) [OF ok]] by (simp add: root_ok_def)
    show "links_ok m' T lvl" using o(2) s unfolding links_ok_def by (metis (no_types, lifting))
    show "links_inj m' T lvl" using o(3) s unfolding links_inj_def by (metis (no_types, lifting))
    show "leaves_ok m' T lvl" using o(4) e unfolding leaves_ok_def by (metis (no_types, lifting))
  qed
  then show ok': "tree_ok m' T lvl" using ok unfolding tree_ok_def by blast
  assume root: "us_root_table us = hd T"
  have c: "child m' t i = child m t i" "leaf m' t i = leaf m t i" if "t \<in> set T" "unat i < 512" for t i
    using e [OF that] by (simp_all add: child_def leaf_def)
  have "walk m' (hd T) a = walk m (hd T) a"
  proof -
    have 1: "child m' (hd T) (pml4_index a) = child m (hd T) (pml4_index a)"
      using c tree_tables(1) [OF ok] by simp
    have 2: "t \<in> set T \<and> lvl t = 3" if "child m (hd T) (pml4_index a) = Some t" for t
      using tree_child(2,4) [OF ok tree_tables(1) [OF ok] _ index_less(1) that] tree_tables(2) [OF ok] by simp
    have 3: "u \<in> set T" if "t \<in> set T \<and> lvl t = 3" "child m t (pdpt_index a) = Some u" for t u
      using tree_child(2) [OF ok _ _ index_less(2) that(2)] that(1) by simp
    show ?thesis unfolding walk_def 1 using 2 3 c
      by (cases "child m (hd T) (pml4_index a)") (auto intro!: Option.bind_cong)
  qed
  moreover have "p \<in> set T" if "walk m (hd T) a = Some p" for p by (rule walk_path [OF ok that])
  ultimately have "lookup m' (hd T) a = lookup m (hd T) a"
    using c by (auto simp: lookup_def intro!: Option.bind_cong)
  then show "paging_user_translate (Some us) a m' = paging_user_translate (Some us) a m"
    unfolding paging_user_translate_lookup [OF ok root] paging_user_translate_lookup [OF ok' root] by simp
qed

text \<open>
  The machine while a user space is active: its tables are a tree, it is the current one, and no page
  that it maps is one of its tables.
\<close>

definition frames_apart :: "paging_user_space \<Rightarrow> mem \<Rightarrow> bool" where
  "frames_apart us m \<longleftrightarrow> (\<forall>a x flags. paging_user_translate (Some us) a m = Some (x, flags) \<longrightarrow>
     page_of x \<notin> page_of ` set (us_tables us))"

definition space_active :: "paging_user_space \<Rightarrow> vm \<Rightarrow> bool" where
  "space_active us s \<longleftrightarrow> (\<exists>lvl. us_inv lvl us s) \<and> frames_apart us (vm_memory s) \<and> vm_cr3 s = us_root_table us"

text \<open>What an access on behalf of the program may change: bytes of pages that it may write.\<close>

definition own_bytes :: "paging_user_space \<Rightarrow> vm \<Rightarrow> u64 set" where
  "own_bytes us s = {x. \<exists>a flags. paging_user_translate (Some us) a (vm_memory s) = Some (x, flags) \<and>
     flags AND X86_PAGE_WRITABLE \<noteq> 0}"

definition stores_own :: "paging_user_space \<Rightarrow> vm \<Rightarrow> vm \<Rightarrow> bool" where
  "stores_own us s s' \<longleftrightarrow> vm_pmm s' = vm_pmm s \<and> vm_cr3 s' = vm_cr3 s \<and>
     (\<forall>x. x \<notin> own_bytes us s \<longrightarrow> vm_memory s' x = vm_memory s x)"

lemma stores_ownD:
  assumes "stores_own us s s'"
  shows "vm_pmm s' = vm_pmm s" "vm_cr3 s' = vm_cr3 s" "x \<notin> own_bytes us s \<Longrightarrow> vm_memory s' x = vm_memory s x"
  using assms by (auto simp: stores_own_def)

lemma stores_own_refl [simp]: "stores_own us s s"
  by (simp add: stores_own_def)

lemma stores_own_active:
  assumes "space_active us s" and "stores_own us s s'"
  shows "space_active us s'" "paging_user_translate (Some us) a (vm_memory s') = paging_user_translate (Some us) a (vm_memory s)"
    "own_bytes us s' = own_bytes us s"
proof -
  obtain lvl where inv: "us_inv lvl us s" using assms(1) by (auto simp: space_active_def)
  then have t: "tree_ok (vm_memory s) (us_tables us) lvl" "us_root_table us = hd (us_tables us)" by (simp_all add: us_inv_def)
  have same: "vm_memory s' x = vm_memory s x" if "page_of x \<in> page_of ` set (us_tables us)" for x
    using that assms(1) by (intro stores_ownD(3) [OF assms(2)]) (auto simp: space_active_def frames_apart_def own_bytes_def)
  note m = stores_ownD(1,2) [OF assms(2)]
  note tr = tree_store(2) [OF t(1) same t(2)]
  show "paging_user_translate (Some us) a (vm_memory s') = paging_user_translate (Some us) a (vm_memory s)" by (rule tr)
  show "own_bytes us s' = own_bytes us s" by (simp add: own_bytes_def tr)
  have "us_inv lvl us s'" using inv tree_store(1) [OF t(1) same] m by (simp add: us_inv_def)
  moreover have "frames_apart us (vm_memory s')" using assms(1) by (simp add: space_active_def frames_apart_def tr)
  ultimately show "space_active us s'" using assms(1) m by (auto simp: space_active_def)
qed

lemma stores_own_trans:
  assumes "space_active us s" "stores_own us s s1" "stores_own us s1 s2"
  shows "stores_own us s s2"
  using assms stores_own_active(3) [OF assms(1,2)] by (simp add: stores_own_def)

text \<open>Under an active space the accesses of the kernel succeed on every range that passed the checks.\<close>

lemma active_access:
  assumes "space_active us s"
  shows "mmu_access user (vm_memory s) (vm_cr3 s) a = map_option fst (paging_user_translate (Some us) a (vm_memory s))"
    and "mmu_access (\<lambda>e. user e \<and> writable_entry e) (vm_memory s) (vm_cr3 s) a =
      (case paging_user_translate (Some us) a (vm_memory s) of None \<Rightarrow> None
       | Some (x, flags) \<Rightarrow> if flags AND X86_PAGE_WRITABLE \<noteq> 0 then Some x else None)"
proof -
  obtain lvl where "us_inv lvl us s" "vm_cr3 s = us_root_table us" using assms by (auto simp: space_active_def)
  then have t: "tree_ok (vm_memory s) (us_tables us) lvl" "us_root_table us = hd (us_tables us)" "vm_cr3 s = hd (us_tables us)"
    by (simp_all add: us_inv_def)
  show "mmu_access user (vm_memory s) (vm_cr3 s) a = map_option fst (paging_user_translate (Some us) a (vm_memory s))"
    unfolding t(3) by (rule mmu_access_user(1) [OF t(1,2)])
  show "mmu_access (\<lambda>e. user e \<and> writable_entry e) (vm_memory s) (vm_cr3 s) a =
      (case paging_user_translate (Some us) a (vm_memory s) of None \<Rightarrow> None
       | Some (x, flags) \<Rightarrow> if flags AND X86_PAGE_WRITABLE \<noteq> 0 then Some x else None)"
    unfolding t(3) by (rule mmu_access_user(2) [OF t(1,2)])
qed

lemma list_all_upt: "list_all P [0..<n] \<longleftrightarrow> (\<forall>i<n. P i)"
  by (auto simp: list_all_iff)

lemma active_read:
  assumes "space_active us s"
    and "list_all (\<lambda>i. paging_user_translate (Some us) (a + of_nat i) (vm_memory s) \<noteq> None) [0..<n]"
  shows "read_bytes s a n = Some (map (\<lambda>i. vm_memory s
    (fst (the (paging_user_translate (Some us) (a + of_nat i) (vm_memory s))))) [0..<n])"
proof -
  have some: "those (map (\<lambda>i. f i) xs) = Some (map (\<lambda>i. the (f i)) xs)" if "list_all (\<lambda>i. f i \<noteq> None) xs"
    for f :: "nat \<Rightarrow> u8 option" and xs
    using that by (induction xs) auto
  have acc: "mmu_access (\<lambda>_. True) (vm_memory s) (vm_cr3 s) b = Some (fst (the (paging_user_translate (Some us) b (vm_memory s))))"
    if t: "paging_user_translate (Some us) b (vm_memory s) \<noteq> None" for b
  proof -
    have "mmu_access user (vm_memory s) (vm_cr3 s) b = Some (fst (the (paging_user_translate (Some us) b (vm_memory s))))"
      unfolding active_access(1) [OF assms(1)] using t by auto
    then show ?thesis by (rule mmu_access_mono) simp
  qed
  let ?f = "\<lambda>i. map_option (vm_memory s) (mmu_access (\<lambda>_. True) (vm_memory s) (vm_cr3 s) (a + of_nat i))"
  have f: "?f i = Some (vm_memory s (fst (the (paging_user_translate (Some us) (a + of_nat i) (vm_memory s)))))" if "i < n" for i
    using assms(2) [unfolded list_all_upt] that by (simp add: acc)
  then have "list_all (\<lambda>i. ?f i \<noteq> None) [0..<n]" unfolding list_all_upt by blast
  from some [OF this] have "read_bytes s a n = Some (map (\<lambda>i. the (?f i)) [0..<n])" by (simp only: read_bytes_def)
  moreover have "map (\<lambda>i. the (?f i)) [0..<n] =
      map (\<lambda>i. vm_memory s (fst (the (paging_user_translate (Some us) (a + of_nat i) (vm_memory s))))) [0..<n]"
    by (rule map_cong [OF refl]) (simp only: f set_upt atLeastLessThan_iff option.sel)
  ultimately show ?thesis by (simp only:)
qed

lemma write_byte_own:
  assumes "space_active us s" "mmu_access ok (vm_memory s) (vm_cr3 s) a = Some x" "x \<in> own_bytes us s"
  shows "\<exists>s'. write_byte ok a v s = Some s' \<and> stores_own us s s'"
  using assms by (auto simp: write_byte_def stores_own_def)

lemma active_write:
  assumes "space_active us s"
    and "list_all (\<lambda>i. \<exists>x flags. paging_user_translate (Some us) (a + of_nat i) (vm_memory s) = Some (x, flags) \<and>
      flags AND X86_PAGE_WRITABLE \<noteq> 0) [0..<length vs]"
  shows "\<exists>s'. write_bytes a vs s = Some s' \<and> stores_own us s s'"
  using assms
proof (induction vs arbitrary: a s)
  case (Cons v vs)
  note all = Cons.prems(2) [unfolded list_all_upt, rule_format]
  obtain x flags where x: "paging_user_translate (Some us) a (vm_memory s) = Some (x, flags)" "flags AND X86_PAGE_WRITABLE \<noteq> 0"
    using all [of 0] by auto
  then have own: "x \<in> own_bytes us s" by (auto simp: own_bytes_def)
  have "mmu_access (\<lambda>e. user e \<and> writable_entry e) (vm_memory s) (vm_cr3 s) a = Some x"
    unfolding active_access(2) [OF Cons.prems(1)] using x by simp
  then have "mmu_access writable_entry (vm_memory s) (vm_cr3 s) a = Some x" by (rule mmu_access_mono) simp
  from write_byte_own [OF Cons.prems(1) this own] obtain s1 where s1: "write_byte writable_entry a v s = Some s1" "stores_own us s s1" by blast
  note act = stores_own_active [OF Cons.prems(1) s1(2)]
  have "list_all (\<lambda>i. \<exists>x flags. paging_user_translate (Some us) (a + 1 + of_nat i) (vm_memory s1) = Some (x, flags) \<and>
      flags AND X86_PAGE_WRITABLE \<noteq> 0) [0..<length vs]"
    unfolding list_all_upt act(2) using all [of "Suc _"] by (simp add: add.assoc)
  from Cons.IH [OF act(1) this] obtain s2 where "write_bytes (a + 1) vs s1 = Some s2" "stores_own us s1 s2" by blast
  then show ?case using s1 stores_own_trans [OF Cons.prems(1) s1(2)] by auto
qed simp

lemma user_store_own: "space_active us s \<Longrightarrow> stores_own us s (user_store a v s)"
proof -
  assume act: "space_active us s"
  show ?thesis
  proof (cases "mmu_access (\<lambda>e. user e \<and> writable_entry e) (vm_memory s) (vm_cr3 s) a")
    case None
    then show ?thesis by (simp add: user_store_def write_byte_def)
  next
    case (Some x)
    then have "\<exists>flags. paging_user_translate (Some us) a (vm_memory s) = Some (x, flags) \<and> flags AND X86_PAGE_WRITABLE \<noteq> 0"
      unfolding active_access(2) [OF act] by (auto split: option.splits if_splits)
    then have "x \<in> own_bytes us s" unfolding own_bytes_def by blast
    from write_byte_own [OF act Some this, of v] show ?thesis by (auto simp: user_store_def)
  qed
qed

end
