(* ===== verification/Confinement.thy ===== *)
theory Confinement
  imports Syscall
begin

text \<open>
  What a user program can do to the kernel. Every system call comes back and changes only the volatile
  part of the current process and bytes of pages that the program may write; a whole run of a process
  is contained in the same way; and with preemption enabled it ends at the next timer interrupt.
\<close>

section \<open>What a system call may change\<close>

text \<open>The part of a process that says what it may do and which memory it owns.\<close>

definition authority :: "process \<Rightarrow> (u64 \<times> u32 \<times> u32 \<times> u64 \<times> argus_capability_table) \<times> paging_user_space \<times>
    u64 list \<times> u32 \<times> u64 \<times> u64 \<times> u32" where
  "authority p = ((p_pid p, p_app_id p, p_security_role p, p_ipc_endpoint p, p_capabilities p), p_address_space p,
     p_image_physical p, p_image_page_count p, p_stack_physical p, p_surface_physical p, p_surface_page_count p)"

text \<open>The variables of the scheduler and of the system that no system call has to do with.\<close>

definition control :: "kernel \<Rightarrow> (paging_info option \<times> int \<times> u32 \<times> u32 \<times> u32 \<times> u64 \<times> u32 \<times> arch) \<times>
    bool \<times> bool \<times> bool \<times> bool \<times> bool" where
  "control k = ((k_kernel_paging k, k_current_process k, k_configured_processes k, k_scheduler_cursor k,
      k_focused_app_id k, k_next_pid k, k_transport k, k_arch k),
     k_address_spaces_isolated k, k_scheduler_ready k, k_process_self_test_passed k, k_preemption_enabled k,
     k_security_boundaries_ready k)"

definition confined :: "nat \<Rightarrow> kernel \<Rightarrow> kernel \<Rightarrow> bool" where
  "confined i k k' \<longleftrightarrow> control k' = control k \<and> length (k_processes k') = length (k_processes k) \<and>
     (\<forall>j. j \<noteq> i \<longrightarrow> proc k' j = proc k j) \<and> authority (proc k' i) = authority (proc k i) \<and>
     stores_own (p_address_space (proc k i)) (k_vm k) (k_vm k')"

text \<open>The kernel while process \<open>i\<close> is the current one.\<close>

definition current_ok :: "nat \<Rightarrow> kernel \<Rightarrow> bool" where
  "current_ok i k \<longleftrightarrow> k_current_process k = int i \<and> i < length (k_processes k) \<and> \<not> no_current k \<and>
     space_active (p_address_space (proc k i)) (k_vm k) \<and> uart_live (uart_ports (k_serial k))"

text \<open>An action fits the state that it leaves the process in, as \<^verbatim>\<open>dispatch_process\<close> requires.\<close>

definition settled :: "u64 \<Rightarrow> argus_process_state \<Rightarrow> bool" where
  "settled action st \<longleftrightarrow> (action = ARCH_USER_ACTION_YIELD \<and> st = PROCESS_READY) \<or>
     (action = ARCH_USER_ACTION_EXIT \<and> st = PROCESS_EXITED) \<or>
     (action = ARCH_USER_ACTION_WAIT \<and> st = PROCESS_BLOCKED) \<or>
     (action = ARCH_USER_ACTION_PREEMPT \<and> st = PROCESS_READY) \<or>
     (action = ARCH_USER_ACTION_FAULT \<and> st = PROCESS_FAULTED)"

definition outcome :: "nat \<Rightarrow> kernel \<Rightarrow> u64 \<Rightarrow> kernel \<Rightarrow> bool" where
  "outcome i k action k' \<longleftrightarrow> confined i k k' \<and> uart_live (uart_ports (k_serial k')) \<and>
     (if action = ARCH_USER_ACTION_RETURN then p_state (proc k' i) = p_state (proc k i)
      else settled action (p_state (proc k' i)))"

lemma authority_space: "authority p = authority q \<Longrightarrow> p_address_space p = p_address_space q"
  by (simp add: authority_def)

lemma no_current_control: "control k' = control k \<Longrightarrow> no_current k' = no_current k"
  by (simp add: control_def no_current_def)

lemma confined_refl [simp]: "confined i k k"
  by (simp add: confined_def)

lemma confinedD:
  assumes "confined i k k'"
  shows "control k' = control k" "authority (proc k' i) = authority (proc k i)"
    "length (k_processes k') = length (k_processes k)" "j \<noteq> i \<Longrightarrow> proc k' j = proc k j"
    "stores_own (p_address_space (proc k i)) (k_vm k) (k_vm k')"
  using assms by (simp_all add: confined_def)

lemma confined_current:
  assumes "current_ok i k" "confined i k k'" "uart_live (uart_ports (k_serial k'))"
  shows "current_ok i k'"
proof -
  note c = confinedD(1,2,3,5) [OF assms(2)]
  have "k_current_process k' = k_current_process k" using c(1) by (simp add: control_def)
  then show ?thesis
    using assms(1,3) c(3) no_current_control [OF c(1)] authority_space [OF c(2)] stores_own_active(1) [OF _ c(4)]
    by (simp add: current_ok_def)
qed

lemma confined_trans:
  assumes "current_ok i k" "confined i k k1" "confined i k1 k2"
  shows "confined i k k2"
proof -
  have s: "space_active (p_address_space (proc k i)) (k_vm k)" using assms(1) by (simp add: current_ok_def)
  note c1 = confinedD [OF assms(2)] and c2 = confinedD [OF assms(3)]
  have "stores_own (p_address_space (proc k i)) (k_vm k1) (k_vm k2)"
    using c2(5) unfolding authority_space [OF c1(2)] .
  from stores_own_trans [OF s c1(5) this] show ?thesis
    unfolding confined_def c2(1) c1(1) c2(3) c1(3) c2(2) c1(2) by (intro conjI refl allI impI) (simp_all add: c2(4) c1(4))
qed

text \<open>The two shapes that every handler ends in.\<close>

lemma outcome_returns:
  assumes "current_ok i k" "confined i k k'" "p_state (proc k' i) = p_state (proc k i)" "uart_live (uart_ports (k_serial k'))"
    "returns v c k' = (action, c', k'')"
  shows "outcome i k action k''"
  using assms by (auto simp: outcome_def returns_def)

lemma outcome_ends:
  assumes "current_ok i k" "confined i k k'" "settled action (p_state (proc k' i))" "action \<noteq> ARCH_USER_ACTION_RETURN"
    "uart_live (uart_ports (k_serial k'))"
  shows "outcome i k action k'"
  using assms by (simp add: outcome_def)

text \<open>Changing the volatile part of the current process.\<close>

lemma confined_set:
  assumes "control k1 = control k" "k_processes k1 = k_processes k" "k_vm k1 = k_vm k" "authority p = authority (proc k i)"
  shows "confined i k (set_proc i p k1)"
  using assms by (cases "i < length (k_processes k)") (simp_all add: confined_def control_def list_update_beyond)

lemma confined_fields:
  assumes "control k1 = control k" "k_processes k1 = k_processes k" "k_vm k1 = k_vm k"
  shows "confined i k k1"
  using assms by (simp add: confined_def)

lemma outcome_quiet:
  assumes "current_ok i k" "control k' = control k" "k_processes k' = k_processes k" "k_vm k' = k_vm k" "k_serial k' = k_serial k"
    "returns v c k' = (action, c', k'')"
  shows "outcome i k action k''"
  using assms by (intro outcome_returns [OF assms(1) confined_fields]) (simp_all add: current_ok_def)

lemma current_cur: "current_ok i k \<Longrightarrow> nat (k_current_process k) = i \<and> i < length (k_processes k)"
  by (simp add: current_ok_def)

lemma syscall_write_outcome:
  assumes "current_ok i k"
  shows "\<exists>action c' k'. syscall_write c k = Some (action, c', k') \<and> outcome i k action k'"
proof (cases "ctx_rsi c = 0 \<or> USER_WRITE_LIMIT < ctx_rsi c \<or>
    \<not> user_range_readable (proc k i) (vm_memory (k_vm k)) (ctx_rdi c) (ctx_rsi c)")
  case True
  then show ?thesis using current_cur [OF assms] outcome_quiet [OF assms, of k] by (auto simp: syscall_write_def returns_def)
next
  case False
  let ?us = "p_address_space (proc k i)"
  have "list_all (\<lambda>j. paging_user_translate (Some ?us) (ctx_rdi c + of_nat j) (vm_memory (k_vm k)) \<noteq> None) [0..<unat (ctx_rsi c)]"
    using False readable_iff by blast
  then obtain bytes where b: "read_bytes (k_vm k) (ctx_rdi c) (unat (ctx_rsi c)) = Some bytes"
    using active_read assms unfolding current_ok_def by blast
  obtain line where l: "serial_write bytes (k_serial k) = Some line" "uart_live (uart_ports line)"
    using serial_write_live [of "k_serial k" bytes] assms unfolding current_ok_def by blast
  let ?k = "k\<lparr>k_serial := line, k_write_count := k_write_count k + 1\<rparr>"
  have "syscall_write c k = Some (returns (ctx_rsi c) c ?k)"
    using False b l current_cur [OF assms] by (simp add: syscall_write_def)
  moreover have "outcome i k ARCH_USER_ACTION_RETURN ?k"
    using outcome_returns [OF assms confined_fields, of ?k] l(2) by (simp add: control_def returns_def)
  ultimately show ?thesis by (simp add: returns_def)
qed

lemma outcome_set:
  assumes "current_ok i k" "control k1 = control k" "k_processes k1 = k_processes k" "k_vm k1 = k_vm k" "k_serial k1 = k_serial k"
    "authority p = authority (proc k i)"
    "if action = ARCH_USER_ACTION_RETURN then p_state p = p_state (proc k i) else settled action (p_state p)"
  shows "outcome i k action (set_proc i p k1)"
  using confined_set [OF assms(2-4,6)] assms current_cur [OF assms(1)]
  by (simp add: outcome_def current_ok_def)

lemma app_input_poll_keeps:
  "authority (snd (app_input_poll p)) = authority p" "p_state (snd (app_input_poll p)) = p_state p"
  by (simp_all add: app_input_poll_def authority_def Let_def)

lemma syscall_plain_outcome:
  assumes "current_ok i k" and "r \<in> {returns (p_pid (proc k (nat (k_current_process k)))) c k, syscall_yield c k, syscall_exit c k,
     syscall_clock_ticks c k, syscall_input_poll c k, syscall_event_wait c k, syscall_capability_query c k,
     syscall_anonymous_connect c k, returns UINT64_MAX c k}" and "r = (action, c', k')"
  shows "outcome i k action k'"
proof -
  note cur = current_cur [OF assms(1)]
  note quiet = outcome_quiet [OF assms(1)] and set = outcome_set [OF assms(1)]
  have ret: "outcome i k action k'" if "r = returns v c k1" "control k1 = control k" "k_processes k1 = k_processes k"
      "k_vm k1 = k_vm k" "k_serial k1 = k_serial k" for v k1
    by (rule quiet [OF that(2-5)]) (rule trans [OF that(1) [symmetric] assms(3)])
  have fin: "outcome i k action k'" if "r = (act, c1, set_proc i p k1)" "control k1 = control k" "k_processes k1 = k_processes k"
      "k_vm k1 = k_vm k" "k_serial k1 = k_serial k" "authority p = authority (proc k i)"
      "act \<noteq> ARCH_USER_ACTION_RETURN" "settled act (p_state p)" for act c1 p k1
  proof -
    have "action = act" "k' = set_proc i p k1" using that(1) assms(3) by simp_all
    then show ?thesis using set [OF that(2-6), of action] that(7,8) by simp
  qed
  consider "r = returns (p_pid (proc k (nat (k_current_process k)))) c k" | "r = syscall_yield c k" | "r = syscall_exit c k"
    | "r = syscall_clock_ticks c k" | "r = syscall_input_poll c k" | "r = syscall_event_wait c k"
    | "r = syscall_capability_query c k" | "r = syscall_anonymous_connect c k" | "r = returns UINT64_MAX c k"
    using assms(2) by blast
  then show ?thesis
  proof cases
    case 1 then show ?thesis by (rule ret) simp_all
  next
    case 2 then show ?thesis unfolding syscall_yield_def Let_def cur [THEN conjunct1]
      by (rule fin) (simp_all add: control_def authority_def settled_def)
  next
    case 3 then show ?thesis unfolding syscall_exit_def cur [THEN conjunct1]
      by (rule fin) (simp_all add: control_def authority_def settled_def)
  next
    case 4 then show ?thesis unfolding syscall_clock_ticks_def Let_def by (rule ret) simp_all
  next
    case 5
    show ?thesis
    proof (cases "p_app_id (proc k i) \<noteq> 0 \<and> process_capability (proc k i) (ctx_rdi c) ARGUS_CAPABILITY_INPUT
        ARGUS_CAP_RIGHT_READ (ucast (p_app_id (proc k i))) \<noteq> None")
      case True
      then have "action = 0" "k' = set_proc i (snd (app_input_poll (proc k i))) k"
        using 5 assms(3) cur by (simp_all add: syscall_input_poll_def returns_def Let_def split_beta)
      then show ?thesis using app_input_poll_keeps by (simp add: set)
    next
      case False
      then have "r = returns UINT64_MAX c k" using 5 cur unfolding syscall_input_poll_def Let_def by (simp only: if_False)
      then show ?thesis by (rule ret) simp_all
    qed
  next
    case 6
    consider v where "r = returns v c k" | p c1 where "r = (ARCH_USER_ACTION_WAIT, c1, set_proc i p (k\<lparr>k_wait_count := k_wait_count k + 1\<rparr>))"
        "authority p = authority (proc k i)" "p_state p = PROCESS_BLOCKED"
      using 6 cur by (auto simp: syscall_event_wait_def Let_def authority_def split: if_splits)
    then show ?thesis
    proof cases
      case 1 then show ?thesis by (rule ret) simp_all
    next
      case 2
      from fin [OF 2(1) _ _ _ _ 2(2)] show ?thesis using 2(3) by (simp add: control_def settled_def)
    qed
  next
    case 7 then show ?thesis unfolding syscall_capability_query_def Let_def by (rule ret) simp_all
  next
    case 8 then show ?thesis unfolding syscall_anonymous_connect_def by (rule ret) (simp_all add: control_def)
  next
    case 9 then show ?thesis by (rule ret) simp_all
  qed
qed

lemma readable_active:
  assumes "current_ok i k" "user_range_readable (proc k i) (vm_memory (k_vm k)) a n"
  shows "\<exists>bytes. read_bytes (k_vm k) a (unat n) = Some bytes"
proof -
  have s: "space_active (p_address_space (proc k i)) (k_vm k)" using assms(1) by (simp add: current_ok_def)
  from assms(2) show ?thesis unfolding readable_iff using active_read [OF s] by blast
qed

lemma syscall_app_present_outcome:
  assumes "current_ok i k"
  shows "\<exists>action c' k'. syscall_app_present c k = Some (action, c', k') \<and> outcome i k action k'"
proof -
  note cur = current_cur [OF assms]
  have fail: "\<exists>action c' k'. returns UINT64_MAX c k = (action, c', k') \<and> outcome i k action k'"
    using outcome_quiet [OF assms, of k] by (simp add: returns_def)
  have ok: "\<exists>action c' k'. returns v c (set_proc i p k) = (action, c', k') \<and> outcome i k action k'"
    if "authority p = authority (proc k i)" "p_state p = p_state (proc k i)" for v p
    using outcome_set [OF assms, of k] that by (simp add: returns_def)
  let ?p = "proc k i"
  show ?thesis
  proof (cases "p_app_id ?p = 0 \<or> process_capability ?p (ctx_rdx c) ARGUS_CAPABILITY_SURFACE ARGUS_CAP_RIGHT_PRESENT
      (p_surface_physical ?p) = None \<or> ctx_rsi c \<noteq> 16 \<or> \<not> user_range_readable ?p (vm_memory (k_vm k)) (ctx_rdi c) (ctx_rsi c)")
    case True
    then have "syscall_app_present c k = Some (returns UINT64_MAX c k)" using cur by (simp add: syscall_app_present_def Let_def)
    then show ?thesis using fail by simp
  next
    case False
    then obtain bytes where b: "read_bytes (k_vm k) (ctx_rdi c) 16 = Some bytes"
      using readable_active [OF assms, of "ctx_rdi c" "ctx_rsi c"] by auto
    have "syscall_app_present c k = Some (returns UINT64_MAX c k) \<or> (\<exists>q. syscall_app_present c k =
        Some (returns 0 c (set_proc i (?p\<lparr>p_present_sequence := q, p_present_valid := True\<rparr>) k)))"
      unfolding syscall_app_present_def cur [THEN conjunct1] Let_def if_not_P [OF False] b Option.bind.simps by metis
    then show ?thesis using fail ok [of "?p\<lparr>p_present_sequence := _, p_present_valid := True\<rparr>"]
      by (auto simp: authority_def)
  qed
qed

lemma syscall_ipc_send_outcome:
  assumes "current_ok i k"
  shows "\<exists>action c' k'. syscall_ipc_send c k = Some (action, c', k') \<and> outcome i k action k'"
proof -
  note cur = current_cur [OF assms]
  have ret: "\<exists>action c' k'. returns v c (k\<lparr>k_endpoints := e\<rparr>) = (action, c', k') \<and> outcome i k action k'" for v e
    using outcome_quiet [OF assms, of "k\<lparr>k_endpoints := e\<rparr>"] by (simp add: returns_def control_def)
  have "\<exists>v e. syscall_ipc_send c k = Some (returns v c (k\<lparr>k_endpoints := e\<rparr>))"
  proof (cases "process_capability (proc k i) (ctx_rdi c) ARGUS_CAPABILITY_IPC ARGUS_CAP_RIGHT_SEND UINT64_MAX = None \<or>
      ctx_rdx c = 0 \<or> of_nat ARGUS_IPC_MESSAGE_MAX < ctx_rdx c \<or>
      \<not> user_range_readable (proc k i) (vm_memory (k_vm k)) (ctx_rsi c) (ctx_rdx c)")
    case True
    then have "syscall_ipc_send c k = Some (returns UINT64_MAX c (k\<lparr>k_endpoints := k_endpoints k\<rparr>))"
      using cur by (auto simp: syscall_ipc_send_def Let_def split: option.splits)
    then show ?thesis by blast
  next
    case False
    then obtain bytes h where "read_bytes (k_vm k) (ctx_rsi c) (unat (ctx_rdx c)) = Some bytes"
      "process_capability (proc k i) (ctx_rdi c) ARGUS_CAPABILITY_IPC ARGUS_CAP_RIGHT_SEND UINT64_MAX = Some h"
      using readable_active [OF assms, of "ctx_rsi c" "ctx_rdx c"] by auto
    then show ?thesis using False cur by (auto simp: syscall_ipc_send_def Let_def split_beta)
  qed
  then show ?thesis using ret by metis
qed

lemma ipc_receive_bound:
  assumes "ipc_receive eps h pid (Some buf) cap (Some l) (Some s) = (True, Some data, Some n, sender, eps')"
  shows "n \<le> cap"
  using assms by (auto simp: ipc_receive_def Let_def split: option.splits if_splits)

lemma syscall_ipc_receive_outcome:
  assumes "current_ok i k"
  shows "\<exists>action c' k'. syscall_ipc_receive c k = Some (action, c', k') \<and> outcome i k action k'"
proof -
  note cur = current_cur [OF assms]
  have s: "space_active (p_address_space (proc k i)) (k_vm k)" using assms by (simp add: current_ok_def)
  have ret: "\<exists>action c' k'. returns v c (k\<lparr>k_endpoints := e\<rparr>) = (action, c', k') \<and> outcome i k action k'" for v e
    using outcome_quiet [OF assms, of "k\<lparr>k_endpoints := e\<rparr>"] by (simp add: returns_def control_def)
  let ?cap = "process_capability (proc k i) (ctx_rdi c) ARGUS_CAPABILITY_IPC ARGUS_CAP_RIGHT_RECEIVE (p_ipc_endpoint (proc k i))"
  show ?thesis
  proof (cases "?cap = None \<or> ipc_pending (k_endpoints k) (the ?cap) (p_pid (proc k i)) = 0 \<or>
      ctx_rdx c = 0 \<or> of_nat ARGUS_IPC_MESSAGE_MAX < ctx_rdx c \<or>
      \<not> user_range_writable (proc k i) (vm_memory (k_vm k)) (ctx_rsi c) (ctx_rdx c)")
    case True
    then have "\<exists>v. syscall_ipc_receive c k = Some (returns v c (k\<lparr>k_endpoints := k_endpoints k\<rparr>))"
      using cur by (auto simp: syscall_ipc_receive_def Let_def split: option.splits)
    then show ?thesis using ret by metis
  next
    case False
    then obtain h where h: "?cap = Some h" by auto
    obtain ok data received sender eps where r: "ipc_receive (k_endpoints k) h (p_pid (proc k i))
        (Some (replicate (unat (ctx_rdx c)) 0)) (ucast (ctx_rdx c)) (Some 0) (Some 0) = (ok, data, received, sender, eps)"
      by (rule prod_cases5)
    have e: "syscall_ipc_receive c k = (case (ok, data, received, sender, eps) of
           (True, Some data, Some received, _, eps) \<Rightarrow> Option.bind (write_bytes (ctx_rsi c) (take (unat received) data) (k_vm k))
             (\<lambda>s. Some (returns (ucast received) c (k\<lparr>k_vm := s, k_endpoints := eps\<rparr>)))
         | (_, _, _, _, eps) \<Rightarrow> Some (returns UINT64_MAX c (k\<lparr>k_endpoints := eps\<rparr>)))"
      using False h r cur by (simp add: syscall_ipc_receive_def Let_def)
    show ?thesis
    proof (cases "\<exists>d n. ok \<and> data = Some d \<and> received = Some n")
      case True
      then obtain d n where o: "ok" "data = Some d" "received = Some n" by blast
      have "n \<le> ucast (ctx_rdx c)" using ipc_receive_bound r o by simp
      moreover have "unat (ucast (ctx_rdx c) :: u32) = unat (ctx_rdx c)"
        using False by (auto simp: word_less_nat_alt not_less unsigned_ucast_eq take_bit_nat_eq_self)
      ultimately have "length (take (unat n) d) \<le> unat (ctx_rdx c)" by (simp add: word_le_nat_alt)
      moreover have "list_all (\<lambda>j. \<exists>x flags. paging_user_translate (Some (p_address_space (proc k i))) (ctx_rsi c + of_nat j)
          (vm_memory (k_vm k)) = Some (x, flags) \<and> flags AND X86_PAGE_WRITABLE \<noteq> 0) [0..<unat (ctx_rdx c)]"
        using False writable_iff by blast
      ultimately have "list_all (\<lambda>j. \<exists>x flags. paging_user_translate (Some (p_address_space (proc k i))) (ctx_rsi c + of_nat j)
          (vm_memory (k_vm k)) = Some (x, flags) \<and> flags AND X86_PAGE_WRITABLE \<noteq> 0) [0..<length (take (unat n) d)]"
        unfolding list_all_upt using order.strict_trans2 by blast
      from active_write [OF s this] obtain s' where w: "write_bytes (ctx_rsi c) (take (unat n) d) (k_vm k) = Some s'"
        "stores_own (p_address_space (proc k i)) (k_vm k) s'" by blast
      let ?k = "k\<lparr>k_vm := s', k_endpoints := eps\<rparr>"
      have "syscall_ipc_receive c k = Some (returns (ucast n) c ?k)" unfolding e using o w by simp
      moreover have "confined i k ?k" using w(2) by (simp add: confined_def control_def)
      ultimately show ?thesis using outcome_returns [OF assms, of ?k] assms by (simp add: returns_def current_ok_def)
    next
      case False
      then have "syscall_ipc_receive c k = Some (returns UINT64_MAX c (k\<lparr>k_endpoints := eps\<rparr>))"
        unfolding e by (auto split: option.splits bool.splits)
      then show ?thesis using ret by metis
    qed
  qed
qed

lemma outcome_count:
  assumes "current_ok i k" "outcome i (k\<lparr>k_syscall_count := n\<rparr>) action k'"
  shows "outcome i k action k'"
  using assms(2) by (simp add: outcome_def confined_def control_def)

lemma syscall_dispatch_outcome:
  assumes "current_ok i k"
  obtains action c' k' where "syscall_dispatch c k = Some (action, c', k')" "outcome i k action k'"
proof -
  let ?k = "k\<lparr>k_syscall_count := k_syscall_count k + 1\<rparr>"
  have "no_current ?k = no_current k" by (simp add: no_current_def)
  then have k: "current_ok i ?k" using assms by (simp add: current_ok_def)
  have n: "\<not> no_current k" using assms by (simp add: current_ok_def)
  define Q where "Q r \<longleftrightarrow> (\<exists>action c' k'. r = Some (action, c', k') \<and> outcome i ?k action k')" for r :: "syscall_result option"
  have both: "Q a \<Longrightarrow> Q b \<Longrightarrow> Q (if g then a else b)" for a b g by simp
  have plain: "Q (Some r)"
    if "r \<in> {returns (p_pid (proc ?k (nat (k_current_process ?k)))) c ?k, syscall_yield c ?k, syscall_exit c ?k,
     syscall_clock_ticks c ?k, syscall_input_poll c ?k, syscall_event_wait c ?k, syscall_capability_query c ?k,
     syscall_anonymous_connect c ?k, returns UINT64_MAX c ?k}" for r
    using syscall_plain_outcome [OF k that] unfolding Q_def by (cases r) auto
  have called: "Q (syscall_write c ?k)" "Q (syscall_app_present c ?k)" "Q (syscall_ipc_send c ?k)" "Q (syscall_ipc_receive c ?k)"
    unfolding Q_def by (rule syscall_write_outcome [OF k] syscall_app_present_outcome [OF k]
      syscall_ipc_send_outcome [OF k] syscall_ipc_receive_outcome [OF k])+
  have "Q (syscall_dispatch c k)"
    unfolding syscall_dispatch_def if_not_P [OF n] Let_def by (intro both called; rule plain; blast)
  then have "\<exists>action c' k'. syscall_dispatch c k = Some (action, c', k') \<and> outcome i ?k action k'" by (simp only: Q_def)
  then show thesis using that outcome_count [OF assms] by blast
qed

section \<open>Running a process\<close>

text \<open>
  A handler of the kernel leaves the processes, the control variables, the tables and the serial line
  alone. The handler of the timer is of this kind.
\<close>

definition quiet_handler :: "(interrupt_frame \<Rightarrow> kernel \<Rightarrow> kernel) \<Rightarrow> bool" where
  "quiet_handler h \<longleftrightarrow> (\<forall>frame k. k_processes (h frame k) = k_processes k \<and> control (h frame k) = control k \<and>
     k_serial (h frame k) = k_serial k \<and> k_steps (h frame k) = k_steps k \<and> vm_memory (k_vm (h frame k)) = vm_memory (k_vm k) \<and>
     vm_pmm (k_vm (h frame k)) = vm_pmm (k_vm k) \<and> vm_cr3 (k_vm (h frame k)) = vm_cr3 (k_vm k))"

lemma quiet_timer_handler: "quiet_handler timer_handler"
  by (simp add: quiet_handler_def timer_handler_def apic_timer_interrupt_def apic_eoi_def apic_write_def cpu_wrmsr_def
      control_def Let_def)

lemma quiet_handler_outcome:
  assumes "quiet_handler h" "current_ok i k"
  shows "confined i k (h frame k)" "current_ok i (h frame k)" "k_processes (h frame k) = k_processes k"
    "control (h frame k) = control k"
proof -
  note q = assms(1) [unfolded quiet_handler_def, rule_format, of frame k]
  show "k_processes (h frame k) = k_processes k" "control (h frame k) = control k" using q by blast+
  show c: "confined i k (h frame k)" using q by (simp add: confined_def stores_own_def)
  show "current_ok i (h frame k)" using confined_current [OF assms(2) c] q assms(2) by (simp add: current_ok_def)
qed

lemma user_interrupt_outcome:
  assumes "current_ok i k" "p_state (proc k i) = PROCESS_RUNNING" "process_on_user_interrupt frame k = (action, k')"
  shows "outcome i k action k'"
proof -
  note cur = current_cur [OF assms(1)]
  have live: "uart_live (uart_ports (k_serial k))" using assms(1) by (simp add: current_ok_def)
  note set = outcome_set [OF assms(1)]
  consider "action = ARCH_USER_ACTION_RETURN" "k' = k"
    | p where "action = ARCH_USER_ACTION_FAULT" "k' = set_proc i p (k\<lparr>k_fault_count := k_fault_count k + 1\<rparr>)"
      "authority p = authority (proc k i)" "p_state p = PROCESS_FAULTED"
    | p where "action = ARCH_USER_ACTION_PREEMPT" "k' = set_proc i p (k\<lparr>k_preemption_count := k_preemption_count k + 1\<rparr>)"
      "authority p = authority (proc k i)" "p_state p = PROCESS_READY"
    using assms(3) cur unfolding process_on_user_interrupt_def Let_def
    by (auto simp: authority_def save_interrupt_context_def split: if_splits)
  then show ?thesis
  proof cases
    case 1 then show ?thesis using live by (simp add: outcome_def)
  next
    case 2 then show ?thesis using set [of "k\<lparr>k_fault_count := k_fault_count k + 1\<rparr>" p action]
      by (simp add: control_def settled_def)
  next
    case 3 then show ?thesis using set [of "k\<lparr>k_preemption_count := k_preemption_count k + 1\<rparr>" p action]
      by (simp add: control_def settled_def)
  qed
qed

definition handlers_quiet :: "environment \<Rightarrow> bool" where
  "handlers_quiet env \<longleftrightarrow> (\<forall>h. quiet_handler (env_handlers env h))"

lemma outcome_trans:
  assumes "current_ok i k" "confined i k k1" "p_state (proc k1 i) = p_state (proc k i)" "outcome i k1 action k2"
  shows "outcome i k action k2"
  using assms confined_trans [OF assms(1,2)] by (simp add: outcome_def)

lemma interrupt_dispatch_outcome:
  assumes "handlers_quiet env" "current_ok i k" "p_state (proc k i) = PROCESS_RUNNING"
    "interrupt_dispatch env frame k = Some (action, k')"
  shows "outcome i k action k'"
proof -
  let ?h = "interrupt_handlers (k_arch k) ! unat (frame_vector frame)"
  let ?k = "env_handlers env ?h frame k"
  note q = quiet_handler_outcome [OF assms(1) [unfolded handlers_quiet_def, rule_format, of ?h] assms(2), of frame]
  have live: "uart_live (uart_ports (k_serial k))" "uart_live (uart_ports (k_serial ?k))"
    using assms(2) q(2) by (simp_all add: current_ok_def)
  consider "action = ARCH_USER_ACTION_RETURN" "k' = k" | "action = ARCH_USER_ACTION_RETURN" "k' = ?k"
    | "process_on_user_interrupt frame ?k = (action, k')" | "process_on_user_interrupt frame k = (action, k')"
    using assms(4) by (auto simp: interrupt_dispatch_def Let_def split: if_splits)
  then show ?thesis
  proof cases
    case 1 then show ?thesis using live by (simp add: outcome_def)
  next
    case 2 then show ?thesis using live q(1,3) by (simp add: outcome_def)
  next
    case 3
    have "outcome i ?k action k'" by (rule user_interrupt_outcome [OF q(2) _ 3]) (simp add: q(3) assms(3))
    from outcome_trans [OF assms(2) q(1) _ this] show ?thesis by (simp add: q(3))
  next
    case 4 then show ?thesis by (rule user_interrupt_outcome [OF assms(2,3)])
  qed
qed

text \<open>A step that does not leave user mode.\<close>

lemma outcome_step:
  assumes "current_ok i k" "stores_own (p_address_space (proc k i)) (k_vm k) s"
  shows "confined i k (k\<lparr>k_steps := n, k_vm := s, k_cr2 := c\<rparr>)" "current_ok i (k\<lparr>k_steps := n, k_vm := s, k_cr2 := c\<rparr>)"
proof -
  show c: "confined i k (k\<lparr>k_steps := n, k_vm := s, k_cr2 := c\<rparr>)" using assms(2) by (simp add: confined_def control_def)
  show "current_ok i (k\<lparr>k_steps := n, k_vm := s, k_cr2 := c\<rparr>)"
    by (rule confined_current [OF assms(1) c]) (use assms(1) in \<open>simp add: current_ok_def\<close>)
qed

definition run_ok :: "nat \<Rightarrow> kernel \<Rightarrow> u64 \<times> kernel \<Rightarrow> bool" where
  "run_ok i k r \<longleftrightarrow> fst r \<noteq> ARCH_USER_ACTION_RETURN \<and> outcome i k (fst r) (snd r)"

lemma run_ok_after:
  assumes "current_ok i k" "outcome i k ARCH_USER_ACTION_RETURN k1" "run_ok i k1 r"
  shows "run_ok i k r"
  using assms outcome_trans [OF assms(1), of k1 "fst r" "snd r"] by (simp add: run_ok_def outcome_def)

text \<open>The continuation after an entry into the kernel, for any function that runs the rest.\<close>

definition resumes_ok :: "nat \<Rightarrow> (environment \<Rightarrow> arch_user_context \<Rightarrow> kernel \<Rightarrow> (u64 \<times> kernel) option) \<Rightarrow> bool" where
  "resumes_ok i resume \<longleftrightarrow> (\<forall>env c k r. resume env c k = Some r \<longrightarrow> handlers_quiet env \<longrightarrow> current_ok i k \<longrightarrow>
     p_state (proc k i) = PROCESS_RUNNING \<longrightarrow> run_ok i k r)"

lemma resume_continue:
  assumes "resumes_ok i resume" "handlers_quiet env" "outcome i k1 action k2" "current_ok i k1"
    "p_state (proc k1 i) = PROCESS_RUNNING"
    "(if action = ARCH_USER_ACTION_RETURN then resume env c2 k2 else Some (action, k2)) = Some r"
  shows "run_ok i k1 r"
proof (cases "action = ARCH_USER_ACTION_RETURN")
  case True
  then have o: "outcome i k1 ARCH_USER_ACTION_RETURN k2" using assms(3) by simp
  then have "current_ok i k2" "p_state (proc k2 i) = PROCESS_RUNNING"
    using confined_current [OF assms(4)] assms(5) by (simp_all add: outcome_def)
  then have "run_ok i k2 r" using assms(1) [unfolded resumes_ok_def, rule_format, of env c2 k2 r] assms(2,6) True by simp
  then show ?thesis by (rule run_ok_after [OF assms(4) o])
next
  case False
  then show ?thesis using assms(3,6) by (auto simp: run_ok_def)
qed

lemma resume_outcome:
  assumes "arch_resume_user env c k = Some r"
  shows "handlers_quiet env \<longrightarrow> current_ok i k \<longrightarrow> p_state (proc k i) = PROCESS_RUNNING \<longrightarrow> run_ok i k r"
  using assms
proof (rule arch_resume_user.raw_induct [rotated], intro impI)
  fix resume env c k r
  assume IH: "\<And>env c k r. resume env c k = Some r \<Longrightarrow>
      handlers_quiet env \<longrightarrow> current_ok i k \<longrightarrow> p_state (proc k i) = PROCESS_RUNNING \<longrightarrow> run_ok i k r"
    and h: "handlers_quiet env" and cur: "current_ok i k" and st: "p_state (proc k i) = PROCESS_RUNNING"
    and run: "(let event = env_cpu env (k_steps k) c (user_view (k_vm k));
         k = k\<lparr>k_steps := Suc (k_steps k)\<rparr> in
     case event of
       User_Step c \<Rightarrow> resume env c k
     | User_Store a v c \<Rightarrow> resume env c (k\<lparr>k_vm := user_store a v (k_vm k)\<rparr>)
     | User_Syscall c \<Rightarrow>
         Option.bind (syscall_dispatch (syscall_context c) k) (\<lambda>(action, c, k).
           if action = ARCH_USER_ACTION_RETURN then resume env c k else Some (action, k))
     | User_Interrupt frame cr2 \<Rightarrow>
         Option.bind (interrupt_dispatch env (frame\<lparr>frame_cs := 0x23\<rparr>) (k\<lparr>k_cr2 := cr2\<rparr>)) (\<lambda>(action, k).
           if action = ARCH_USER_ACTION_RETURN then resume env (frame_context frame) k else Some (action, k))) = Some r"
  have act: "space_active (p_address_space (proc k i)) (k_vm k)" using cur by (simp add: current_ok_def)
  let ?k = "k\<lparr>k_steps := Suc (k_steps k)\<rparr>"
  have live: "uart_live (uart_ports (k_serial k))" using cur by (simp add: current_ok_def)
  have step: "outcome i k ARCH_USER_ACTION_RETURN (k\<lparr>k_steps := n, k_vm := s, k_cr2 := c\<rparr>)"
      "current_ok i (k\<lparr>k_steps := n, k_vm := s, k_cr2 := c\<rparr>)"
    if "stores_own (p_address_space (proc k i)) (k_vm k) s" for n s c
    using outcome_step [OF cur that] live by (simp_all add: outcome_def)
  have k1: "outcome i k ARCH_USER_ACTION_RETURN ?k" "current_ok i ?k" using step [of "k_vm k" "k_cr2 k"] by simp_all
  have ih: "resumes_ok i resume" using IH by (simp add: resumes_ok_def)
  note cont = resume_continue [OF ih h]
  show "run_ok i k r"
  proof (cases "env_cpu env (k_steps k) c (user_view (k_vm k))")
    case (User_Step c')
    then have "run_ok i ?k r" using run IH [of env c' ?k r] h k1(2) st by simp
    then show ?thesis by (rule run_ok_after [OF cur k1(1)])
  next
    case (User_Store a v c')
    note s = step [OF user_store_own [OF act, of a v], of "k_cr2 k" "Suc (k_steps k)"]
    have "run_ok i (k\<lparr>k_steps := Suc (k_steps k), k_vm := user_store a v (k_vm k)\<rparr>) r"
      using run User_Store IH [of env c' "k\<lparr>k_steps := Suc (k_steps k), k_vm := user_store a v (k_vm k)\<rparr>" r] h s(2) st by simp
    then show ?thesis using run_ok_after [OF cur, of "k\<lparr>k_steps := Suc (k_steps k), k_vm := user_store a v (k_vm k)\<rparr>" r] s(1) by simp
  next
    case (User_Syscall c')
    obtain action c2 k2 where d: "syscall_dispatch (syscall_context c') ?k = Some (action, c2, k2)" "outcome i ?k action k2"
      by (rule syscall_dispatch_outcome [OF k1(2)])
    have "run_ok i ?k r" by (rule cont [OF d(2) k1(2)]) (use run User_Syscall d(1) st in simp_all)
    then show ?thesis by (rule run_ok_after [OF cur k1(1)])
  next
    case (User_Interrupt frame cr2)
    let ?k2 = "?k\<lparr>k_cr2 := cr2\<rparr>"
    have k2: "outcome i k ARCH_USER_ACTION_RETURN ?k2" "current_ok i ?k2" using step [of "k_vm k" cr2] by simp_all
    obtain action k3 where d: "interrupt_dispatch env (frame\<lparr>frame_cs := 0x23\<rparr>) ?k2 = Some (action, k3)"
      using run User_Interrupt by (cases "interrupt_dispatch env (frame\<lparr>frame_cs := 0x23\<rparr>) ?k2") auto
    have "outcome i ?k2 action k3" by (rule interrupt_dispatch_outcome [OF h k2(2) _ d]) (simp add: st)
    then have "run_ok i ?k2 r" by (rule cont [OF _ k2(2)]) (use run User_Interrupt d st in simp_all)
    then show ?thesis by (rule run_ok_after [OF cur k2(1)])
  qed
qed

text \<open>A user space that is ready to be activated.\<close>

definition space_ready :: "paging_user_space \<Rightarrow> vm \<Rightarrow> bool" where
  "space_ready us s \<longleftrightarrow> (\<exists>lvl. us_inv lvl us s) \<and> frames_apart us (vm_memory s)"

definition dispatch_ready :: "u32 \<Rightarrow> kernel \<Rightarrow> bool" where
  "dispatch_ready index k \<longleftrightarrow> index < k_configured_processes k \<and> unat index < length (k_processes k) \<and>
     p_state (proc k (unat index)) = PROCESS_READY \<and> space_ready (p_address_space (proc k (unat index))) (k_vm k) \<and>
     uart_live (uart_ports (k_serial k)) \<and> (\<exists>kern. k_kernel_paging k = Some kern \<and> pi_root_table kern \<noteq> 0)"

definition entered :: "u32 \<Rightarrow> kernel \<Rightarrow> kernel" where
  "entered index k =
    (let i = unat index;
         k = set_proc i ((proc k i)\<lparr>p_state := PROCESS_RUNNING\<rparr>) (k\<lparr>k_current_process := int i\<rparr>)
     in k\<lparr>k_vm := paging_user_activate (Some (p_address_space (proc k i))) (k_vm k)\<rparr>)"

lemma dispatch_entered:
  assumes "dispatch_ready index k"
  shows "current_ok (unat index) (entered index k)" "p_state (proc (entered index k) (unat index)) = PROCESS_RUNNING"
    "dispatch_process env index k = Option.bind (arch_resume_user env (p_context (proc k (unat index))) (entered index k))
       (\<lambda>(action, k1). Some (settled action (p_state (proc k1 (unat index))),
          k1\<lparr>k_vm := paging_kernel_activate (k_kernel_paging k1) (k_vm k1), k_current_process := -1,
             k_context_switch_count := k_context_switch_count k1 + 1\<rparr>))"
proof -
  let ?i = "unat index"
  have d: "index < k_configured_processes k" "?i < length (k_processes k)" "p_state (proc k ?i) = PROCESS_READY"
    "space_ready (p_address_space (proc k ?i)) (k_vm k)" "uart_live (uart_ports (k_serial k))"
    using assms by (simp_all add: dispatch_ready_def)
  then obtain lvl where inv: "us_inv lvl (p_address_space (proc k ?i)) (k_vm k)" by (auto simp: space_ready_def)
  then have root: "us_root_table (p_address_space (proc k ?i)) \<noteq> 0" by (metis us_inv_def tree_tables(1,4))
  have vm: "us_inv l us (s\<lparr>vm_cr3 := c\<rparr>) = us_inv l us s" for l us s c by (simp add: us_inv_def)
  have w: "word_of_int (int ?i) = index" by simp
  show "p_state (proc (entered index k) ?i) = PROCESS_RUNNING" using d(2) by (simp add: entered_def Let_def)
  show "current_ok ?i (entered index k)"
    using d root inv by (auto simp: current_ok_def entered_def Let_def no_current_def space_active_def space_ready_def
        paging_user_activate_def cpu_load_cr3_def vm)
  show "dispatch_process env index k = Option.bind (arch_resume_user env (p_context (proc k ?i)) (entered index k))
       (\<lambda>(action, k1). Some (settled action (p_state (proc k1 ?i)),
          k1\<lparr>k_vm := paging_kernel_activate (k_kernel_paging k1) (k_vm k1), k_current_process := -1,
             k_context_switch_count := k_context_switch_count k1 + 1\<rparr>))"
    using d unfolding dispatch_process_def entered_def Let_def settled_def
    by (intro trans [OF if_not_P]) (simp_all add: not_le)
qed

text \<open>Entering changes only the state of the process and the current tables.\<close>

lemma entered_simps:
  "unat index < length (k_processes k) \<Longrightarrow> authority (proc (entered index k) (unat index)) = authority (proc k (unat index))"
  "j \<noteq> unat index \<Longrightarrow> proc (entered index k) j = proc k j"
  "length (k_processes (entered index k)) = length (k_processes k)"
  "vm_memory (k_vm (entered index k)) = vm_memory (k_vm k)" "vm_pmm (k_vm (entered index k)) = vm_pmm (k_vm k)"
  "k_kernel_paging (entered index k) = k_kernel_paging k" "k_configured_processes (entered index k) = k_configured_processes k"
  "k_preemption_enabled (entered index k) = k_preemption_enabled k" "k_arch (entered index k) = k_arch k"
  "k_steps (entered index k) = k_steps k"
  by (simp_all add: entered_def authority_def Let_def paging_user_activate_def cpu_load_cr3_def)

text \<open>What a completed run of process \<open>i\<close> leaves behind.\<close>

definition contained :: "nat \<Rightarrow> kernel \<Rightarrow> kernel \<Rightarrow> bool" where
  "contained i k k' \<longleftrightarrow> length (k_processes k') = length (k_processes k) \<and>
     control (k'\<lparr>k_current_process := k_current_process k\<rparr>) = control k \<and>
     (\<forall>j. j \<noteq> i \<longrightarrow> proc k' j = proc k j) \<and> authority (proc k' i) = authority (proc k i) \<and>
     vm_pmm (k_vm k') = vm_pmm (k_vm k) \<and>
     (\<forall>x. x \<notin> own_bytes (p_address_space (proc k i)) (k_vm k) \<longrightarrow> vm_memory (k_vm k') x = vm_memory (k_vm k) x)"

lemma dispatch_contained:
  assumes "handlers_quiet env" "dispatch_ready index k" "dispatch_process env index k = Some (ok, k')"
  shows "ok \<and> contained (unat index) k k' \<and> k_current_process k' = -1 \<and>
    vm_cr3 (k_vm k') = pi_root_table (the (k_kernel_paging k)) \<and> p_state (proc k' (unat index)) \<noteq> PROCESS_RUNNING \<and>
    k_configured_processes k' = k_configured_processes k \<and> k_kernel_paging k' = k_kernel_paging k"
proof -
  let ?i = "unat index"
  note e = dispatch_entered [OF assms(2)]
  obtain action k1 where r: "arch_resume_user env (p_context (proc k ?i)) (entered index k) = Some (action, k1)"
    and k': "ok = settled action (p_state (proc k1 ?i))"
      "k' = k1\<lparr>k_vm := paging_kernel_activate (k_kernel_paging k1) (k_vm k1), k_current_process := -1,
             k_context_switch_count := k_context_switch_count k1 + 1\<rparr>"
    using assms(3) unfolding e(3) [of env] by (auto simp: bind_eq_Some_conv)
  have "run_ok ?i (entered index k) (action, k1)" using resume_outcome [OF r] assms(1) e(1,2) by blast
  then have o: "action \<noteq> ARCH_USER_ACTION_RETURN" "confined ?i (entered index k) k1" "settled action (p_state (proc k1 ?i))"
    by (simp_all add: run_ok_def outcome_def)
  note c = confinedD [OF o(2)]
  have i: "?i < length (k_processes k)" using assms(2) by (simp add: dispatch_ready_def)
  obtain kern where kern: "k_kernel_paging k = Some kern" "pi_root_table kern \<noteq> 0" using assms(2) by (auto simp: dispatch_ready_def)
  have kp: "k_kernel_paging k1 = Some kern" "k_configured_processes k1 = k_configured_processes k"
    using c(1) kern(1) by (simp_all add: control_def entered_simps)
  have sp: "p_address_space (proc (entered index k) ?i) = p_address_space (proc k ?i)"
    by (rule authority_space [OF entered_simps(1) [OF i]])
  have own: "own_bytes us (k_vm (entered index k)) = own_bytes us (k_vm k)" for us by (simp add: own_bytes_def entered_simps(4))
  have so: "vm_pmm (k_vm k1) = vm_pmm (k_vm k)"
    "x \<notin> own_bytes (p_address_space (proc k ?i)) (k_vm k) \<Longrightarrow> vm_memory (k_vm k1) x = vm_memory (k_vm k) x" for x
    using stores_ownD [OF c(5)] unfolding sp own entered_simps by blast+
  have ctl: "control (k'\<lparr>k_current_process := k_current_process k\<rparr>) = control k"
    using c(1) unfolding k'(2) by (simp add: control_def entered_def Let_def)
  have "contained ?i k k'"
    unfolding contained_def using ctl c(2,3,4) so entered_simps(1) [OF i] entered_simps(2,3) kp
    by (simp add: k'(2) paging_kernel_activate_def cpu_load_cr3_def kern)
  moreover have "p_state (proc k1 ?i) \<noteq> PROCESS_RUNNING" using o(3) by (auto simp: settled_def)
  ultimately show ?thesis using k' o(3) kp kern by (simp add: paging_kernel_activate_def cpu_load_cr3_def)
qed

section \<open>The timer gives the processor back\<close>

text \<open>A part \<open>f\<close> of the state that a result leaves as it was.\<close>

definition keeps :: "(kernel \<Rightarrow> 'a) \<Rightarrow> kernel \<Rightarrow> syscall_result option \<Rightarrow> bool" where
  "keeps f k r \<longleftrightarrow> (\<forall>a c k'. r = Some (a, c, k') \<longrightarrow> f k' = f k)"

lemma keeps_intros:
  "f k1 = f k \<Longrightarrow> keeps f k (Some (returns v c k1))"
  "f k1 = f k \<Longrightarrow> keeps f k (Some (a, c, k1))"
  "keeps f k r \<Longrightarrow> keeps f k r' \<Longrightarrow> keeps f k (if g then r else r')"
  "keeps f k (Some x) \<Longrightarrow> keeps f k (Some x') \<Longrightarrow> keeps f k (Some (if g then x else x'))"
  "(\<And>x. keeps f k (m' x)) \<Longrightarrow> keeps f k (Option.bind m m')"
  "keeps f k r \<Longrightarrow> (\<And>x. keeps f k (g' x)) \<Longrightarrow> keeps f k (case z of None \<Rightarrow> r | Some x \<Rightarrow> g' x)"
  "(\<And>x y. w = (x, y) \<Longrightarrow> keeps f k (Some (f' x y))) \<Longrightarrow> keeps f k (Some (case w of (x, y) \<Rightarrow> f' x y))"
  "(\<And>x y. keeps f k (h x y)) \<Longrightarrow> keeps f k (case w' of (x, y) \<Rightarrow> h x y)"
  "keeps f k r \<Longrightarrow> keeps f k r' \<Longrightarrow> keeps f k (case t of True \<Rightarrow> r | False \<Rightarrow> r')"
  by (auto simp: keeps_def returns_def bind_eq_Some_conv split: option.splits prod.splits bool.splits)

lemmas syscall_defs = syscall_dispatch_def syscall_yield_def syscall_exit_def syscall_clock_ticks_def syscall_input_poll_def
  syscall_event_wait_def syscall_capability_query_def syscall_anonymous_connect_def syscall_write_def
  syscall_app_present_def syscall_ipc_send_def syscall_ipc_receive_def

lemma syscall_dispatch_steps:
  assumes "syscall_dispatch c k = Some (action, c', k')"
  shows "k_steps k' = k_steps k"
proof -
  have "keeps k_steps k (syscall_dispatch c k)"
    unfolding syscall_defs Let_def by (intro keeps_intros; simp)
  then show ?thesis using assms by (simp add: keeps_def)
qed

lemma interrupt_dispatch_steps:
  assumes "handlers_quiet env" "interrupt_dispatch env frame k = Some (action, k')"
  shows "k_steps k' = k_steps k"
proof -
  have h: "k_steps (env_handlers env h frame k) = k_steps k" for h
    using assms(1) by (simp add: handlers_quiet_def quiet_handler_def)
  have p: "process_on_user_interrupt frame k1 = (action, k') \<Longrightarrow> k_steps k' = k_steps k1" for k1
    by (auto simp: process_on_user_interrupt_def Let_def split: if_splits)
  show ?thesis using assms(2) p h by (auto simp: interrupt_dispatch_def Let_def split: if_splits)
qed

text \<open>
  The processor as the code may rely on it: an interrupt is an exception, the spurious vector or one
  with a registered handler; and at step \<open>n\<close> the timer fires.
\<close>

definition vectors_ok :: "environment \<Rightarrow> arch \<Rightarrow> bool" where
  "vectors_ok env a \<longleftrightarrow> (\<forall>n c v frame cr2. env_cpu env n c v = User_Interrupt frame cr2 \<longrightarrow>
     frame_vector frame < 32 \<or> frame_vector frame = ARGUS_APIC_SPURIOUS_VECTOR \<or>
     (frame_vector frame < 256 \<and> interrupt_handlers a ! unat (frame_vector frame) \<noteq> 0))"

definition timer_at :: "nat \<Rightarrow> environment \<Rightarrow> bool" where
  "timer_at n env \<longleftrightarrow> (\<forall>c v. \<exists>frame cr2. env_cpu env n c v = User_Interrupt frame cr2 \<and>
     frame_vector frame = ARGUS_APIC_TIMER_VECTOR)"

lemma interrupt_dispatch_returns:
  assumes "frame_vector frame < 32 \<or> frame_vector frame = ARGUS_APIC_SPURIOUS_VECTOR \<or>
     (frame_vector frame < 256 \<and> interrupt_handlers (k_arch k) ! unat (frame_vector frame) \<noteq> 0)"
  shows "\<exists>r. interrupt_dispatch env (frame\<lparr>frame_cs := 0x23\<rparr>) k = Some r"
  using assms by (auto simp: interrupt_dispatch_def Let_def)

lemma timer_preempts:
  assumes "handlers_quiet env" "current_ok i k" "p_state (proc k i) = PROCESS_RUNNING" "k_preemption_enabled k"
    "frame_vector frame = ARGUS_APIC_TIMER_VECTOR" "interrupt_handlers (k_arch k) ! 64 \<noteq> 0"
  shows "\<exists>k'. interrupt_dispatch env (frame\<lparr>frame_cs := 0x23\<rparr>) k = Some (ARCH_USER_ACTION_PREEMPT, k')"
proof -
  let ?h = "interrupt_handlers (k_arch k) ! 64"
  let ?k = "env_handlers env ?h (frame\<lparr>frame_cs := 0x23\<rparr>) k"
  note q = quiet_handler_outcome [OF assms(1) [unfolded handlers_quiet_def, rule_format, of ?h] assms(2), of "frame\<lparr>frame_cs := 0x23\<rparr>"]
  have "\<not> no_current ?k" "nat (k_current_process ?k) = i" using q(2) by (simp_all add: current_ok_def)
  moreover have "k_preemption_enabled ?k" using q(4) assms(4) by (simp add: control_def)
  ultimately show ?thesis using assms(3,5,6) q(3)
    by (simp add: interrupt_dispatch_def process_on_user_interrupt_def Let_def)
qed

lemma resume_returns:
  assumes "handlers_quiet env" "timer_at n env" "current_ok i k" "p_state (proc k i) = PROCESS_RUNNING"
    "vectors_ok env (k_arch k)" "k_preemption_enabled k" "k_steps k \<le> n"
  shows "\<exists>r. arch_resume_user env c k = Some r \<and> k_steps (snd r) \<le> Suc n"
  using assms(3-)
proof (induction "n - k_steps k" arbitrary: c k rule: less_induct)
  case less
  let ?k = "k\<lparr>k_steps := Suc (k_steps k)\<rparr>"
  have act: "space_active (p_address_space (proc k i)) (k_vm k)" using less.prems(1) by (simp add: current_ok_def)
  have step: "confined i k (k\<lparr>k_steps := m, k_vm := s, k_cr2 := c\<rparr>)" "current_ok i (k\<lparr>k_steps := m, k_vm := s, k_cr2 := c\<rparr>)"
    if "stores_own (p_address_space (proc k i)) (k_vm k) s" for m s c by (rule outcome_step [OF less.prems(1) that])+
  have k1: "confined i k ?k" "current_ok i ?k" using step [of "k_vm k" "k_cr2 k"] by simp_all
  have again: "\<exists>r. arch_resume_user env c' k' = Some r \<and> k_steps (snd r) \<le> Suc n"
    if "confined i k k'" "current_ok i k'" "p_state (proc k' i) = PROCESS_RUNNING" "k_steps k' = Suc (k_steps k)" "k_steps k < n" for c' k'
    using less.hyps [of k' c'] that less.prems(3-5) confinedD(1) [OF that(1)] by (simp add: control_def)
  have resumed: "\<exists>r. (if a = ARCH_USER_ACTION_RETURN then arch_resume_user env c' k' else Some (a, k')) = Some r \<and> k_steps (snd r) \<le> Suc n"
    if "outcome i k0 a k'" "confined i k k0" "current_ok i k0" "p_state (proc k0 i) = PROCESS_RUNNING"
      "k_steps k' = Suc (k_steps k)" "k_steps k < n \<or> a \<noteq> ARCH_USER_ACTION_RETURN" for a c' k' k0
    using that again [of k' c'] confined_trans [OF less.prems(1) that(2)] confined_current [OF that(3)] less.prems(5)
    by (auto simp: outcome_def)
  show ?case
  proof (cases "env_cpu env (k_steps k) c (user_view (k_vm k))")
    case (User_Interrupt frame cr2)
    let ?k2 = "?k\<lparr>k_cr2 := cr2\<rparr>"
    have k2: "confined i k ?k2" "current_ok i ?k2" using step [of "k_vm k" cr2] by simp_all
    have v: "frame_vector frame < 32 \<or> frame_vector frame = ARGUS_APIC_SPURIOUS_VECTOR \<or>
        (frame_vector frame < 256 \<and> interrupt_handlers (k_arch ?k2) ! unat (frame_vector frame) \<noteq> 0)"
      using less.prems(3) [unfolded vectors_ok_def, rule_format, OF User_Interrupt] by simp
    from interrupt_dispatch_returns [OF v] obtain a k3 where
      d: "interrupt_dispatch env (frame\<lparr>frame_cs := 0x23\<rparr>) ?k2 = Some (a, k3)" by fastforce
    have last: "a \<noteq> ARCH_USER_ACTION_RETURN" if "k_steps k = n"
    proof -
      have t: "frame_vector frame = ARGUS_APIC_TIMER_VECTOR" 
        using assms(2) [unfolded timer_at_def, rule_format, of c "user_view (k_vm k)"] User_Interrupt that by auto
      then have "interrupt_handlers (k_arch ?k2) ! 64 \<noteq> 0" using v by simp
      from timer_preempts [OF assms(1) k2(2) _ _ t this] show ?thesis using d less.prems(2,4) by auto
    qed
    have o: "outcome i ?k2 a k3" using less.prems(2) by (intro interrupt_dispatch_outcome [OF assms(1) k2(2) _ d]) simp
    have "k_steps k < n \<or> a \<noteq> ARCH_USER_ACTION_RETURN" using last less.prems(5) by (cases "k_steps k = n") auto
    from resumed [OF o k2 _ _ this, of "frame_context frame"] show ?thesis
      using less.prems(2) interrupt_dispatch_steps [OF assms(1) d]
      by (subst arch_resume_user.simps) (auto simp: User_Interrupt d)
  next
    case (User_Step c')
    then have lt: "k_steps k < n" using assms(2) less.prems(5) unfolding timer_at_def by (metis nat_less_le user_event.distinct(5))
    show ?thesis using again [OF k1, of c'] lt less.prems(2) by (subst arch_resume_user.simps) (simp add: User_Step)
  next
    case (User_Store a v c')
    then have lt: "k_steps k < n" using assms(2) less.prems(5) unfolding timer_at_def by (metis nat_less_le user_event.distinct(9))
    let ?k2 = "?k\<lparr>k_vm := user_store a v (k_vm k)\<rparr>"
    have "confined i k ?k2" "current_ok i ?k2" using step [OF user_store_own [OF act, of a v], of "k_cr2 k"] by simp_all
    then show ?thesis using again [of ?k2 c'] lt less.prems(2) by (subst arch_resume_user.simps) (simp add: User_Store)
  next
    case (User_Syscall c')
    then have lt: "k_steps k < n" using assms(2) less.prems(5) unfolding timer_at_def by (metis nat_less_le user_event.distinct(11))
    obtain a c2 k2 where d: "syscall_dispatch (syscall_context c') ?k = Some (a, c2, k2)" "outcome i ?k a k2"
      by (rule syscall_dispatch_outcome [OF k1(2)])
    show ?thesis using resumed [OF d(2) k1, of c2] lt less.prems(2) syscall_dispatch_steps [OF d(1)]
      by (subst arch_resume_user.simps) (simp add: User_Syscall d(1))
  qed
qed

lemma dispatch_returns:
  assumes "handlers_quiet env" "dispatch_ready index k" "vectors_ok env (k_arch k)" "k_preemption_enabled k"
    "timer_at n env" "k_steps k \<le> n"
  shows "\<exists>k'. dispatch_process env index k = Some (True, k') \<and> k_steps k' \<le> Suc n"
proof -
  note e = dispatch_entered [OF assms(2)]
  obtain r where r: "arch_resume_user env (p_context (proc k (unat index))) (entered index k) = Some r" "k_steps (snd r) \<le> Suc n"
    using resume_returns [OF assms(1,5) e(1,2), of "p_context (proc k (unat index))"] assms(3,4,6) by (auto simp: entered_simps)
  then obtain ok k' where d: "dispatch_process env index k = Some (ok, k')" "k_steps k' = k_steps (snd r)"
    unfolding e(3) [of env] by (cases r) simp
  then show ?thesis using dispatch_contained [OF assms(1,2) d(1)] r(2) by auto
qed

section \<open>Properties\<close>

text \<open>
  Claim C2. System calls are safe. Called for the current process, with any register contents that the
  program chose, \<^verbatim>\<open>syscall_dispatch\<close> always comes back: no pointer makes the kernel fault or hang. It
  changes no other process and none of the control variables, leaves the identity, the capabilities and
  the memory of the process itself as they were, and changes only bytes of pages that the program may
  write. The program goes on in the same state, or the action fits the state it was left in.
\<close>

theorem syscall_dispatch_confined:
  assumes "current_ok i k"
  shows "\<exists>action c' k'. syscall_dispatch c k = Some (action, c', k') \<and> confined i k k' \<and> current_ok i k' \<and>
    (if action = ARCH_USER_ACTION_RETURN then p_state (proc k' i) = p_state (proc k i)
     else settled action (p_state (proc k' i)))"
proof -
  obtain action c' k' where d: "syscall_dispatch c k = Some (action, c', k')" "outcome i k action k'"
    by (rule syscall_dispatch_outcome [OF assms])
  then show ?thesis using confined_current [OF assms] by (simp add: outcome_def)
qed

text \<open>
  Claim C5. No program can keep the processor. With preemption enabled, a process that is dispatched
  gives the processor back at the latest when the timer fires, whatever it did before: at the step of
  the timer interrupt or earlier, \<^verbatim>\<open>dispatch_process\<close> has come back with success.
\<close>

theorem timer_ends_every_run:
  assumes "handlers_quiet env" "dispatch_ready index k" "vectors_ok env (k_arch k)" "k_preemption_enabled k"
    "timer_at n env" "k_steps k \<le> n"
  shows "\<exists>k'. dispatch_process env index k = Some (True, k') \<and> k_steps k' \<le> Suc n"
  by (rule dispatch_returns [OF assms])

section \<open>Witnesses\<close>

text \<open>
  A kernel with one process that is ready to run in a given address space, on a machine whose serial
  line is always ready, and a program that waits for the timer at step 3.
\<close>

definition kernel_demo :: "paging_user_space \<Rightarrow> vm \<Rightarrow> kernel" where
  "kernel_demo us s = \<lparr>k_processes = [zero_process\<lparr>p_pid := 1, p_state := PROCESS_READY, p_address_space := us\<rparr>],
     k_kernel_paging = Some kernel_example, k_current_process = -1, k_configured_processes = 1,
     k_completed_processes = 0, k_scheduler_cursor = 0, k_focused_app_id = 0, k_next_pid = 2, k_syscall_count = 0,
     k_yield_count = 0, k_context_switch_count = 0, k_write_count = 0, k_fault_count = 0, k_preemption_count = 0,
     k_wait_count = 0, k_wakeup_count = 0, k_network_denial_count = 0, k_address_spaces_isolated = True,
     k_scheduler_ready = True, k_process_self_test_passed = True, k_preemption_enabled = True,
     k_security_boundaries_ready = True, k_vm = s,
     k_arch = \<lparr>gdt = replicate 7 0, idt = replicate 256 zero_gate, interrupt_handlers = (replicate 256 0)[64 := 1],
       tss = \<lparr>tss_rsp = replicate 3 0, tss_ist = replicate 7 0, io_map_base = 104\<rparr>, loaded_gdt = (0, 0),
       loaded_idt = (0, 0), task_register = 0, pic_masks = (0, 0), syscall_kernel_rsp = 0\<rparr>,
     k_endpoints = replicate 8 zero_ipc_endpoint, k_transport = 0,
     k_serial = \<lparr>uart_available = True, uart_ports = \<lparr>port_device = (\<lambda>_ _. 0x20), port_history = []\<rparr>\<rparr>,
     k_apic = apic_example, k_cr2 = 0, k_steps = 0\<rparr>"

definition timer_frame :: interrupt_frame where
  "timer_frame = \<lparr>frame_r15 = 0, frame_r14 = 0, frame_r13 = 0, frame_r12 = 0, frame_r11 = 0, frame_r10 = 0, frame_r9 = 0,
     frame_r8 = 0, frame_rdi = 0, frame_rsi = 0, frame_rbp = 0, frame_rdx = 0, frame_rcx = 0, frame_rbx = 0, frame_rax = 0,
     frame_vector = 0x40, frame_error_code = 0, frame_rip = 0, frame_cs = 0x23, frame_rflags = 0x202, frame_rsp = 0,
     frame_ss = 0x1B\<rparr>"

definition environment_demo :: environment where
  "environment_demo = \<lparr>env_images = \<lparr>user_probe = [], user_fault_probe = [], user_spin_probe = [], user_snake = [],
       user_calculator = [], user_notes = []\<rparr>,
     env_layout = \<lparr>gdt_address = 0, idt_address = 0, tss_address = 0, double_fault_stack = 0, isr_stub_table = [], syscall_entry = 0\<rparr>,
     env_syscall_stack = 0, env_handlers = (\<lambda>_. timer_handler),
     env_cpu = (\<lambda>n c v. if n = 3 then User_Interrupt timer_frame 0 else User_Step c)\<rparr>"

lemma environment_demo_ok:
  "handlers_quiet environment_demo" "timer_at 3 environment_demo" "vectors_ok environment_demo (k_arch (kernel_demo us s))"
  by (auto simp: handlers_quiet_def environment_demo_def quiet_timer_handler timer_at_def vectors_ok_def timer_frame_def
      kernel_demo_def)

lemma uart_demo_live: "uart_live \<lparr>port_device = (\<lambda>_ _. 0x20), port_history = h\<rparr>"
  unfolding uart_live_def by (intro allI exI [of _ 0]) (simp add: uart_ready_def cpu_in8_def Let_def)

lemma kernel_demo_ready: "\<exists>us s. dispatch_ready 0 (kernel_demo us s)"
proof -
  obtain us s where i: "us_inv (\<lambda>_. 4) us s" "\<forall>a. lookup (vm_memory s) (us_root_table us) a = None"
    using user_space_example by blast
  have t: "tree_ok (vm_memory s) (us_tables us) (\<lambda>_. 4)" "us_root_table us = hd (us_tables us)" using i(1) by (simp_all add: us_inv_def)
  have "paging_user_translate (Some us) a (vm_memory s) = None" for a
    unfolding paging_user_translate_lookup [OF t] using i(2) t(2) by simp
  then have "frames_apart us (vm_memory s)" by (simp add: frames_apart_def)
  then have "dispatch_ready 0 (kernel_demo us s)"
    using i(1) uart_demo_live by (auto simp: dispatch_ready_def kernel_demo_def space_ready_def)
  then show ?thesis by blast
qed

theorem timer_ends_every_run_witness:
  "\<exists>us s k'. dispatch_process environment_demo 0 (kernel_demo us s) = Some (True, k') \<and> k_steps k' \<le> 4"
proof -
  obtain us s where d: "dispatch_ready 0 (kernel_demo us s)" using kernel_demo_ready by blast
  show ?thesis
    using timer_ends_every_run [OF environment_demo_ok(1) d environment_demo_ok(3) _ environment_demo_ok(2)]
    by (auto simp: kernel_demo_def)
qed

theorem syscall_dispatch_confined_witness:
  "\<exists>us s c' k'. syscall_dispatch (zero_context\<lparr>ctx_rax := 12\<rparr>) (entered 0 (kernel_demo us s)) =
      Some (ARCH_USER_ACTION_RETURN, c', k') \<and> ctx_rax c' = UINT64_MAX \<and> confined 0 (entered 0 (kernel_demo us s)) k'"
proof -
  obtain us s where d: "dispatch_ready 0 (kernel_demo us s)" using kernel_demo_ready by blast
  let ?k = "entered 0 (kernel_demo us s)"
  have c: "current_ok 0 ?k" using dispatch_entered(1) [OF d] by simp
  then have "\<not> no_current ?k" by (simp add: current_ok_def)
  then have "syscall_dispatch (zero_context\<lparr>ctx_rax := 12\<rparr>) ?k = Some (syscall_anonymous_connect
      (zero_context\<lparr>ctx_rax := 12\<rparr>) (?k\<lparr>k_syscall_count := k_syscall_count ?k + 1\<rparr>))"
    by (simp add: syscall_dispatch_def Let_def)
  then show ?thesis using syscall_dispatch_confined [OF c, of "zero_context\<lparr>ctx_rax := 12\<rparr>"]
    by (intro exI [of _ us] exI [of _ s]) (simp add: syscall_anonymous_connect_def returns_def)
qed

end
