(* ===== verification/Scheduler.thy ===== *)
theory Scheduler
  imports Confinement
begin

text \<open>
  The scheduler of \<^verbatim>\<open>src/process.c\<close>, its self test, and the life cycle of the applications: start, stop,
  restart, focus, key presses and the surface that the desktop shows.
\<close>

section \<open>Scheduler\<close>

definition wakes :: "u64 \<Rightarrow> process \<Rightarrow> bool" where
  "wakes now p \<longleftrightarrow> p_state p = PROCESS_BLOCKED \<and>
     \<not> (p_input_tail p = p_input_head p \<and> (p_wait_deadline p = UINT64_MAX \<or> now < p_wait_deadline p))"

definition wake_blocked_processes :: "kernel \<Rightarrow> kernel" where
  "wake_blocked_processes k =
    (let now = apic_timer_ticks (k_apic k) in
     fold (\<lambda>index k. if wakes now (proc k index)
         then set_proc index ((proc k index)\<lparr>p_state := PROCESS_READY\<rparr>) (k\<lparr>k_wakeup_count := k_wakeup_count k + 1\<rparr>)
         else k)
       [2..<unat (k_configured_processes k)] k)"

definition runnable :: "process \<Rightarrow> bool" where
  "runnable p \<longleftrightarrow> p_state p = PROCESS_READY \<and> (p_app_id p \<noteq> 0 \<longrightarrow> p_active p)"

text \<open>The first process from \<^verbatim>\<open>start\<close> on, around the table, that may run; \<open>None\<close> is the code's \<open>-1\<close>.\<close>

definition next_ready_process :: "u32 \<Rightarrow> kernel \<Rightarrow> u32 option" where
  "next_ready_process start k =
    (if k_configured_processes k = 0 then None
     else
       find (\<lambda>index. runnable (proc k (unat index)))
         (map (\<lambda>offset. (start + of_nat offset) mod k_configured_processes k)
           [0..<unat (k_configured_processes k)]))"

definition app_catalog :: "environment \<Rightarrow> (u32 \<times> u8 list) list" where
  "app_catalog env = [(1, user_snake (env_images env)), (2, user_calculator (env_images env)),
     (3, user_notes (env_images env))]"

definition find_catalog :: "environment \<Rightarrow> u32 \<Rightarrow> (u32 \<times> u8 list) option" where
  "find_catalog env app_id =
    (case find (\<lambda>index. fst (app_catalog env ! index) = app_id) [0..<3] of None \<Rightarrow> None
     | Some index \<Rightarrow> Some (app_catalog env ! index))"

definition app_slot :: "environment \<Rightarrow> u32 \<Rightarrow> u32" where
  "app_slot env app_id =
    (case find (\<lambda>index. fst (app_catalog env ! index) = app_id) [0..<3] of None \<Rightarrow> ARGUS_PROCESS_MAX
     | Some index \<Rightarrow> APP_PROCESS_FIRST + of_nat index)"

definition find_app :: "environment \<Rightarrow> u32 \<Rightarrow> kernel \<Rightarrow> nat option" where
  "find_app env app_id k =
    (let slot = app_slot env app_id in
     if ARGUS_PROCESS_MAX \<le> slot \<or> p_state (proc k (unat slot)) = PROCESS_UNUSED then None
     else Some (unat slot))"

text \<open>The attempts to bring an application to its first presented frame; \<open>True\<close> when it got there.\<close>

fun start_attempts :: "environment \<Rightarrow> u32 \<Rightarrow> nat \<Rightarrow> kernel \<Rightarrow> (bool \<times> kernel) option" where
  "start_attempts env slot_index 0 k = Some (False, k)"
| "start_attempts env slot_index (Suc n) k =
    (let p = proc k (unat slot_index) in
     if p_present_valid p \<and> p_state p = PROCESS_BLOCKED then Some (True, k)
     else if p_state p \<noteq> PROCESS_READY then Some (False, k)
     else do {
       (ok, k) \<leftarrow> dispatch_process env slot_index k;
       if ok then start_attempts env slot_index n k else Some (False, k)
     })"

definition start_app_internal :: "environment \<Rightarrow> u32 \<Rightarrow> kernel \<Rightarrow> (bool \<times> kernel) option" where
  "start_app_internal env app_id k =
    (let slot_index = app_slot env app_id; i = unat slot_index in
     case find_catalog env app_id of None \<Rightarrow> Some (False, k)
     | Some app \<Rightarrow>
       if ARGUS_PROCESS_MAX \<le> slot_index \<or> p_state (proc k i) \<noteq> PROCESS_UNUSED then Some (False, k)
       else do {
         (ok, k) \<leftarrow> load_elf_app i (k_next_pid k) app (k\<lparr>k_next_pid := k_next_pid k + 1\<rparr>);
         if \<not> ok then Some (False, k)
         else
           let k = (if k_configured_processes k \<le> slot_index then k\<lparr>k_configured_processes := slot_index + 1\<rparr> else k) in
           if \<not> app_mapping_isolated (proc k i) (vm_memory (k_vm k)) then Some (False, release_process i k)
           else do {
             (started, k) \<leftarrow> start_attempts env slot_index 32 k;
             let p = proc k i
             in Some (started \<or> p_present_valid p \<and> (p_state p = PROCESS_READY \<or> p_state p = PROCESS_BLOCKED), k)
           }
       })"

text \<open>The phases of \<^verbatim>\<open>process_run_self_test\<close>: the probes, the faulting probe, the endless probe, the applications.\<close>

fun self_test_dispatches :: "environment \<Rightarrow> nat \<Rightarrow> u32 \<Rightarrow> kernel \<Rightarrow> (bool \<times> kernel) option" where
  "self_test_dispatches env 0 next k = Some (True, k)"
| "self_test_dispatches env (Suc n) next k =
    (case next_ready_process next k of None \<Rightarrow> Some (True, k)
     | Some selected \<Rightarrow> do {
         (ok, k) \<leftarrow> dispatch_process env selected k;
         if ok then self_test_dispatches env n ((selected + 1) mod k_configured_processes k) k
         else Some (False, k)
       })"

definition probes_passed :: "kernel \<Rightarrow> bool" where
  "probes_passed k \<longleftrightarrow> k_completed_processes k = PROCESS_PROBE_COUNT \<and>
     k_configured_processes k = PROCESS_PROBE_COUNT \<and> k_syscall_count k = 12 \<and> k_yield_count k = 2 \<and>
     k_write_count k = 4 \<and> k_context_switch_count k = 4 \<and>
     list_all (\<lambda>i. p_state (proc k i) = PROCESS_EXITED \<and> p_exit_status (proc k i) = 0 \<and> p_yields (proc k i) = 1) [0..<2] \<and>
     k_address_spaces_isolated k \<and> k_network_denial_count k = 2 \<and> k_security_boundaries_ready k"

text \<open>
  A probe in the test slot, run once and released when it ended as expected. The last argument is the
  state in which it is run, from the state after loading.
\<close>

definition test_slot_probe :: "environment \<Rightarrow> u8 list \<Rightarrow> (kernel \<Rightarrow> kernel) \<Rightarrow> (kernel \<Rightarrow> bool) \<Rightarrow> kernel \<Rightarrow>
    (bool \<times> kernel) option" where
  "test_slot_probe env image_bytes before expected k = do {
     (ok, k) \<leftarrow> load_flat_probe 2 (k_next_pid k) image_bytes (k\<lparr>k_next_pid := k_next_pid k + 1\<rparr>);
     if \<not> ok then Some (False, k)
     else do {
       (ok, k) \<leftarrow> dispatch_process env PROCESS_TEST_SLOT (before (k\<lparr>k_configured_processes := PROCESS_TEST_SLOT + 1\<rparr>));
       if \<not> ok \<or> \<not> expected k then Some (False, k)
       else Some (True, (release_process 2 k)\<lparr>k_configured_processes := PROCESS_PROBE_COUNT\<rparr>)
     }
   }"

fun start_apps :: "environment \<Rightarrow> nat list \<Rightarrow> kernel \<Rightarrow> (bool \<times> kernel) option" where
  "start_apps env [] k = Some (True, k)"
| "start_apps env (app # rest) k = do {
     (ok, k) \<leftarrow> start_app_internal env (fst (app_catalog env ! app)) k;
     if \<not> ok then Some (False, k)
     else if app \<noteq> 0 \<and> p_surface_physical (proc k (2 + app)) = p_surface_physical (proc k (2 + app - 1))
     then Some (False, k)
     else start_apps env rest k
   }"

definition process_run_self_test :: "environment \<Rightarrow> kernel \<Rightarrow> (bool \<times> kernel) option" where
  "process_run_self_test env k =
    (if \<not> k_scheduler_ready k \<or> 0 \<le> k_current_process k then Some (False, k)
     else do {
       (ok, k) \<leftarrow> self_test_dispatches env 16 0 k;
       if \<not> ok \<or> \<not> probes_passed k then Some (False, k)
       else do {
         (ok, k) \<leftarrow> test_slot_probe env (user_fault_probe (env_images env)) id
           (\<lambda>k. k_fault_count k = 1 \<and> p_state (proc k 2) = PROCESS_FAULTED \<and> p_fault_vector (proc k 2) = 6) k;
         if \<not> ok then Some (False, k)
         else do {
           (ok, k) \<leftarrow> test_slot_probe env (user_spin_probe (env_images env)) (\<lambda>k. k\<lparr>k_preemption_enabled := True\<rparr>)
             (\<lambda>k. k_preemption_count k = 1 \<and> p_state (proc k 2) = PROCESS_READY) k;
           if \<not> ok then Some (False, k)
           else do {
             (ok, k) \<leftarrow> start_apps env [0..<3] k;
             if \<not> ok then Some (False, k)
             else Some (True, k\<lparr>k_process_self_test_passed := True, k_scheduler_cursor := 0\<rparr>)
           }
         }
       }
     })"

definition process_run_ready_once :: "environment \<Rightarrow> kernel \<Rightarrow> (bool \<times> kernel) option" where
  "process_run_ready_once env k =
    (if \<not> k_scheduler_ready k \<or> \<not> k_process_self_test_passed k \<or> 0 \<le> k_current_process k then Some (False, k)
     else
       let k = wake_blocked_processes k in
       case next_ready_process (k_scheduler_cursor k) k of None \<Rightarrow> Some (False, k)
       | Some selected \<Rightarrow>
           dispatch_process env selected (k\<lparr>k_scheduler_cursor := (selected + 1) mod k_configured_processes k\<rparr>))"

section \<open>Counters and applications\<close>

definition process_count :: "kernel \<Rightarrow> u32" where
  "process_count k = fold (\<lambda>index count. if p_state (proc k index) \<noteq> PROCESS_UNUSED then count + 1 else count)
     [0..<unat (k_configured_processes k)] 0"

definition capability_total :: "u32 \<Rightarrow> kernel \<Rightarrow> u32" where
  "capability_total type k = fold (\<lambda>index count. if p_state (proc k index) \<noteq> PROCESS_UNUSED
       then count + capability_count_type (Some (p_capabilities (proc k index))) type else count)
     [0..<unat (k_configured_processes k)] 0"

definition process_raw_network_capability_count :: "kernel \<Rightarrow> u32" where
  "process_raw_network_capability_count k = capability_total ARGUS_CAPABILITY_RAW_NETWORK k"

definition process_anonymous_stream_capability_count :: "kernel \<Rightarrow> u32" where
  "process_anonymous_stream_capability_count k = capability_total ARGUS_CAPABILITY_ANONYMOUS_STREAM k"

definition process_security_boundaries_online :: "kernel \<Rightarrow> bool" where
  "process_security_boundaries_online k \<longleftrightarrow> k_security_boundaries_ready k \<and> k_process_self_test_passed k \<and>
     of_nat 2 \<le> k_network_denial_count k \<and> process_raw_network_capability_count k = 0 \<and>
     process_anonymous_stream_capability_count k = 0"

definition process_scheduler_online :: "kernel \<Rightarrow> bool" where
  "process_scheduler_online k \<longleftrightarrow> k_scheduler_ready k \<and> k_process_self_test_passed k \<and> k_preemption_enabled k"

definition process_app_online :: "environment \<Rightarrow> u32 \<Rightarrow> kernel \<Rightarrow> bool" where
  "process_app_online env app_id k =
    (case find_app env app_id k of None \<Rightarrow> False
     | Some i \<Rightarrow> (p_state (proc k i) = PROCESS_READY \<or> p_state (proc k i) = PROCESS_BLOCKED \<or>
         p_state (proc k i) = PROCESS_RUNNING) \<and> p_present_valid (proc k i))"

definition process_app_set_active :: "environment \<Rightarrow> u32 \<Rightarrow> kernel \<Rightarrow> kernel" where
  "process_app_set_active env app_id k =
    fold (\<lambda>index k. set_proc index ((proc k index)\<lparr>p_active :=
        p_app_id (proc k index) = app_id \<and> process_app_online env app_id k\<rparr>) k)
      [2..<unat (k_configured_processes k)] (k\<lparr>k_focused_app_id := app_id\<rparr>)"

definition process_app_start :: "environment \<Rightarrow> u32 \<Rightarrow> kernel \<Rightarrow> (bool \<times> kernel) option" where
  "process_app_start env app_id k =
    (if \<not> k_process_self_test_passed k \<or> 0 \<le> k_current_process k then Some (False, k)
     else
       let existing = find_app env app_id k in
       if existing \<noteq> None \<and> process_app_online env app_id k then Some (True, k)
       else
         let k = (case existing of None \<Rightarrow> k | Some i \<Rightarrow> release_process i k)
         in do {
           (ok, k) \<leftarrow> start_app_internal env app_id k;
           if \<not> ok then Some (False, k)
           else Some (True, if k_focused_app_id k = app_id then process_app_set_active env app_id k else k)
         })"

definition process_app_stop :: "environment \<Rightarrow> u32 \<Rightarrow> kernel \<Rightarrow> bool \<times> kernel" where
  "process_app_stop env app_id k =
    (if \<not> k_process_self_test_passed k \<or> 0 \<le> k_current_process k then (False, k)
     else if find_catalog env app_id = None then (False, k)
     else case find_app env app_id k of None \<Rightarrow> (True, k) | Some i \<Rightarrow> (True, release_process i k))"

definition process_app_restart :: "environment \<Rightarrow> u32 \<Rightarrow> kernel \<Rightarrow> (bool \<times> kernel) option" where
  "process_app_restart env app_id k =
    (if \<not> k_process_self_test_passed k \<or> 0 \<le> k_current_process k then Some (False, k)
     else
       let was_active = k_focused_app_id k = app_id;
           k = (case find_app env app_id k of None \<Rightarrow> k | Some i \<Rightarrow> release_process i k)
       in do {
         (ok, k) \<leftarrow> start_app_internal env app_id k;
         if \<not> ok then Some (False, k)
         else Some (True, if was_active then process_app_set_active env app_id k else k)
       })"

definition process_app_status :: "environment \<Rightarrow> u32 \<Rightarrow> kernel \<Rightarrow> argus_process_app_status option" where
  "process_app_status env app_id k =
    (if find_catalog env app_id = None then None
     else case find_app env app_id k of
       None \<Rightarrow> Some \<lparr>status_state = PROCESS_UNUSED, status_pid = 0, status_fault_vector = 0,
         status_fault_error = 0, status_fault_rip = 0, status_fault_address = 0\<rparr>
     | Some i \<Rightarrow> let p = proc k i in
         Some \<lparr>status_state = p_state p, status_pid = p_pid p, status_fault_vector = p_fault_vector p,
           status_fault_error = p_fault_error p, status_fault_rip = p_fault_rip p,
           status_fault_address = p_fault_address p\<rparr>)"

definition process_app_input :: "environment \<Rightarrow> u32 \<Rightarrow> u8 \<Rightarrow> kernel \<Rightarrow> bool \<times> kernel" where
  "process_app_input env app_id key k =
    (case find_app env app_id k of None \<Rightarrow> (False, k)
     | Some i \<Rightarrow>
       let p = proc k i in
       if \<not> p_active p \<or> \<not> p_present_valid p \<or> key = 0 \<or>
          (p_state p \<noteq> PROCESS_READY \<and> p_state p \<noteq> PROCESS_BLOCKED)
       then (False, k)
       else
         let next = input_next (p_input_head p) in
         if next = p_input_tail p then (False, k)
         else
           let p = p\<lparr>p_input := (p_input p)[unat (p_input_head p) := key], p_input_head := next\<rparr> in
           if p_state p = PROCESS_BLOCKED
           then (True, set_proc i (p\<lparr>p_state := PROCESS_READY\<rparr>) (k\<lparr>k_wakeup_count := k_wakeup_count k + 1\<rparr>))
           else (True, set_proc i p k))"

definition process_app_input_count :: "environment \<Rightarrow> u32 \<Rightarrow> kernel \<Rightarrow> u64" where
  "process_app_input_count env app_id k =
    (case find_app env app_id k of None \<Rightarrow> 0 | Some i \<Rightarrow> p_inputs_delivered (proc k i))"

definition process_app_surface :: "environment \<Rightarrow> u32 \<Rightarrow> kernel \<Rightarrow> (u64 \<times> u32) option" where
  "process_app_surface env app_id k =
    (case find_app env app_id k of None \<Rightarrow> None
     | Some i \<Rightarrow>
       if process_app_online env app_id k
       then Some (p_surface_physical (proc k i), p_present_sequence (proc k i)) else None)"

end
