(* ===== verification/Run_Frame.thy ===== *)
theory Run_Frame
  imports Confinement
begin

text \<open>
  What a whole run of a process leaves alone beyond the memory and the processes: the variables of the
  scheduler, every capability table, and every IPC endpoint for which the process holds no capability. The
  induction over a run is done once, for any relation between the states before and after.
\<close>

section \<open>Relations kept by a run\<close>

text \<open>
  A reflexive and transitive relation that user steps, system calls and interrupts establish holds
  between the states before and after a run.
\<close>

locale run_relation =
  fixes env :: environment and R :: "kernel \<Rightarrow> kernel \<Rightarrow> bool"
  assumes unchanged: "R k k"
    and compose: "R k k1 \<Longrightarrow> R k1 k2 \<Longrightarrow> R k k2"
    and user_step: "R k (k\<lparr>k_steps := n, k_vm := s, k_cr2 := z\<rparr>)"
    and syscall: "syscall_dispatch c k = Some (action, c', k') \<Longrightarrow> R k k'"
    and interrupt: "interrupt_dispatch env frame k = Some (action, k') \<Longrightarrow> R k k'"
begin

lemma steps: "R k (k\<lparr>k_steps := n\<rparr>)" "R k (k\<lparr>k_steps := n, k_vm := s\<rparr>)" "R k (k\<lparr>k_steps := n, k_cr2 := z\<rparr>)"
  using user_step [of k "k_cr2 k" "k_vm k" n] user_step [of k "k_cr2 k" s n] user_step [of k z "k_vm k" n] by simp_all

lemma resume_any:
  assumes "arch_resume_user env' c k = Some r"
  shows "env' = env \<longrightarrow> R k (snd r)"
  using assms
proof (rule arch_resume_user.raw_induct [rotated], intro impI)
  fix resume env' c k r
  assume IH: "\<And>env' c k r. resume env' c k = Some r \<Longrightarrow> env' = env \<longrightarrow> R k (snd r)" and e: "env' = env"
    and run: "(let event = env_cpu env' (k_steps k) c (user_view (k_vm k));
         k = k\<lparr>k_steps := Suc (k_steps k)\<rparr> in
     case event of
       User_Step c \<Rightarrow> resume env' c k
     | User_Store a v c \<Rightarrow> resume env' c (k\<lparr>k_vm := user_store a v (k_vm k)\<rparr>)
     | User_Syscall c \<Rightarrow>
         Option.bind (syscall_dispatch (syscall_context c) k) (\<lambda>(action, c, k).
           if action = ARCH_USER_ACTION_RETURN then resume env' c k else Some (action, k))
     | User_Interrupt frame cr2 \<Rightarrow>
         Option.bind (interrupt_dispatch env' (frame\<lparr>frame_cs := 0x23\<rparr>) (k\<lparr>k_cr2 := cr2\<rparr>)) (\<lambda>(action, k).
           if action = ARCH_USER_ACTION_RETURN then resume env' (frame_context frame) k else Some (action, k))) = Some r"
  let ?k = "k\<lparr>k_steps := Suc (k_steps k)\<rparr>"
  have ih: "R k1 (snd r)" if "resume env c1 k1 = Some r" for c1 k1 using IH [OF that] by blast
  have next_run: "R k1 (snd r)" if "(if a = ARCH_USER_ACTION_RETURN then resume env c1 k1 else Some (a, k1)) = Some r" for a c1 k1
    using that ih [of c1 k1] unchanged by (auto split: if_splits)
  show "R k (snd r)"
  proof (cases "env_cpu env (k_steps k) c (user_view (k_vm k))")
    case (User_Step c')
    then show ?thesis using run e ih [of c' ?k] compose [OF steps(1)] by simp
  next
    case (User_Store a v c')
    then show ?thesis using run e ih [of c' "?k\<lparr>k_vm := user_store a v (k_vm k)\<rparr>"] compose [OF steps(2)] by simp
  next
    case (User_Syscall c')
    then obtain a c2 k2 where d: "syscall_dispatch (syscall_context c') ?k = Some (a, c2, k2)"
      "(if a = ARCH_USER_ACTION_RETURN then resume env c2 k2 else Some (a, k2)) = Some r"
      using run e by (auto simp: bind_eq_Some_conv)
    show ?thesis by (rule compose [OF steps(1) compose [OF syscall [OF d(1)] next_run [OF d(2)]]])
  next
    case (User_Interrupt frame cr2)
    then obtain a k2 where d: "interrupt_dispatch env (frame\<lparr>frame_cs := 0x23\<rparr>) (?k\<lparr>k_cr2 := cr2\<rparr>) = Some (a, k2)"
      "(if a = ARCH_USER_ACTION_RETURN then resume env (frame_context frame) k2 else Some (a, k2)) = Some r"
      using run e by (auto simp: bind_eq_Some_conv)
    have "R k (?k\<lparr>k_cr2 := cr2\<rparr>)" using steps(3) by simp
    then show ?thesis by (rule compose [OF _ compose [OF interrupt [OF d(1)] next_run [OF d(2)]]])
  qed
qed

lemma resume_related: "arch_resume_user env c k = Some r \<Longrightarrow> R k (snd r)"
  using resume_any by blast

end

section \<open>Capability tables and the scheduler\<close>

definition standing :: "kernel \<Rightarrow> argus_capability_table list \<times> u32 \<times> u32 \<times> int" where
  "standing k = (map p_capabilities (k_processes k), k_configured_processes k, k_scheduler_cursor k, k_current_process k)"

lemma standing_set: "p_capabilities p = p_capabilities (proc k i) \<Longrightarrow> standing (set_proc i p k) = standing k"
  unfolding standing_def by (cases "i < length (k_processes k)") (simp_all add: map_update list_update_beyond, metis list_update_id map_update)

lemma syscall_standing:
  assumes "syscall_dispatch c k = Some (action, c', k')"
  shows "standing k' = standing k"
proof -
  have same: "standing (k\<lparr>k_syscall_count := n\<rparr>) = standing k" "standing (k\<lparr>k_syscall_count := n, k_yield_count := y\<rparr>) = standing k"
    "standing (k\<lparr>k_syscall_count := n, k_completed_processes := z\<rparr>) = standing k"
    "standing (k\<lparr>k_syscall_count := n, k_wait_count := y\<rparr>) = standing k" for n y z
    by (simp_all add: standing_def)
  have p: "app_input_poll q = (v, q') \<Longrightarrow> p_capabilities q' = p_capabilities q" for q v q'
    by (auto simp: app_input_poll_def Let_def split: if_splits)
  have "keeps standing k (syscall_dispatch c k)"
    unfolding syscall_defs Let_def
    by (intro keeps_intros; (simp add: standing_def; fail)?) (auto simp: standing_set same dest!: p)
  then show ?thesis using assms by (simp add: keeps_def)
qed

lemma interrupt_standing:
  assumes "handlers_quiet env" "interrupt_dispatch env frame k = Some (action, k')"
  shows "standing k' = standing k"
proof -
  have h: "standing (env_handlers env h frame k) = standing k" for h
    using assms(1) by (simp add: handlers_quiet_def quiet_handler_def standing_def control_def)
  have same: "standing (k\<lparr>k_fault_count := n\<rparr>) = standing k" "standing (k\<lparr>k_preemption_count := n\<rparr>) = standing k" for n k
    by (simp_all add: standing_def)
  have p: "process_on_user_interrupt frame k1 = (action, k') \<Longrightarrow> standing k' = standing k1" for k1
    by (auto simp: process_on_user_interrupt_def save_interrupt_context_def standing_set same Let_def split: if_splits)
  show ?thesis using assms(2) p h by (auto simp: interrupt_dispatch_def Let_def split: if_splits)
qed

interpretation standing_run: run_relation env "\<lambda>k k'. handlers_quiet env \<longrightarrow> standing k' = standing k" for env
proof (unfold_locales, goal_cases)
  case (3 k n s z)
  then show ?case by (simp add: standing_def)
qed (auto dest: syscall_standing interrupt_standing)

lemma dispatch_standing:
  assumes "handlers_quiet env" "dispatch_process env index k = Some (ok, k')"
  shows "map p_capabilities (k_processes k') = map p_capabilities (k_processes k)"
    "k_configured_processes k' = k_configured_processes k" "k_scheduler_cursor k' = k_scheduler_cursor k"
proof -
  let ?i = "unat index"
  let ?k = "(set_proc ?i ((proc k ?i)\<lparr>p_state := PROCESS_RUNNING\<rparr>) (k\<lparr>k_current_process := int ?i\<rparr>))"
  let ?k2 = "?k\<lparr>k_vm := paging_user_activate (Some (p_address_space (proc ?k ?i))) (k_vm ?k)\<rparr>"
  have s: "standing ?k2 = standing (k\<lparr>k_current_process := int ?i\<rparr>)"
    using standing_set [of "(proc k ?i)\<lparr>p_state := PROCESS_RUNNING\<rparr>" "k\<lparr>k_current_process := int ?i\<rparr>" ?i] by (simp add: standing_def)
  consider "k' = k" | r where "arch_resume_user env (p_context (proc ?k2 ?i)) ?k2 = Some r"
      "map p_capabilities (k_processes k') = fst (standing (snd r))" "k_configured_processes k' = fst (snd (standing (snd r)))"
      "k_scheduler_cursor k' = fst (snd (snd (standing (snd r))))"
    using assms(2) unfolding dispatch_process_def Let_def
    by (auto simp: bind_eq_Some_conv standing_def split: if_splits)
  then have "map p_capabilities (k_processes k') = map p_capabilities (k_processes k) \<and>
    k_configured_processes k' = k_configured_processes k \<and> k_scheduler_cursor k' = k_scheduler_cursor k"
  proof cases
    case 2
    have "standing (snd r) = standing (k\<lparr>k_current_process := int ?i\<rparr>)"
      using standing_run.resume_related [OF 2(1)] assms(1) s by simp
    then show ?thesis using 2 by (simp add: standing_def)
  qed simp
  then show "map p_capabilities (k_processes k') = map p_capabilities (k_processes k)"
    "k_configured_processes k' = k_configured_processes k" "k_scheduler_cursor k' = k_scheduler_cursor k" by simp_all
qed

section \<open>Endpoints\<close>

text \<open>The endpoints that a holder of a capability table can name: those of its IPC capabilities.\<close>

definition may_use :: "argus_capability_table \<Rightarrow> ipc_endpoints \<Rightarrow> nat \<Rightarrow> bool" where
  "may_use table eps s \<longleftrightarrow> (\<exists>slot<ARGUS_CAPABILITY_MAX. ucast (cap_type (cap_entries table ! slot)) = ARGUS_CAPABILITY_IPC \<and>
     resolve_endpoint eps (cap_object (cap_entries table ! slot)) = Some s)"

definition ep_identity :: "ipc_endpoint \<Rightarrow> u64 \<times> u32 \<times> bool" where
  "ep_identity e = (ep_receiver_pid e, ep_generation e, ep_used e)"

text \<open>No endpoint comes, goes or changes hands, and those that the table does not name keep their queue.\<close>

definition queues_kept :: "argus_capability_table \<Rightarrow> ipc_endpoints \<Rightarrow> ipc_endpoints \<Rightarrow> bool" where
  "queues_kept table eps eps' \<longleftrightarrow> length eps' = length eps \<and>
     (\<forall>s<length eps. ep_identity (eps' ! s) = ep_identity (eps ! s) \<and> (may_use table eps s \<or> eps' ! s = eps ! s))"

lemma slot_word: "w \<noteq> 0 \<Longrightarrow> w \<le> (n :: u32) \<Longrightarrow> unat (w - 1) < unat n"
proof -
  assume "w \<noteq> 0" "w \<le> n"
  then have "0 < unat w" "unat w \<le> unat n" by (simp_all add: word_le_nat_alt unat_gt_0)
  then show ?thesis using \<open>w \<noteq> 0\<close> by (simp add: unat_minus_one)
qed

lemma resolve_endpoint_identity:
  assumes "\<And>s. s < 8 \<Longrightarrow> ep_identity (eps' ! s) = ep_identity (eps ! s)"
  shows "resolve_endpoint eps' h = resolve_endpoint eps h"
proof -
  have e: "ep_used (eps' ! s) = ep_used (eps ! s)" "ep_generation (eps' ! s) = ep_generation (eps ! s)" if "s < 8" for s
    using assms [OF that] by (simp_all add: ep_identity_def)
  have "unat (w - 1) < 8" if "w \<noteq> 0" "w \<le> (8 :: u32)" for w using slot_word [OF that] by simp
  then show ?thesis using e by (auto simp: resolve_endpoint_def make_endpoint_def Let_def not_less)
qed

lemma resolve_endpoint_slot: "resolve_endpoint eps h = Some s \<Longrightarrow> s < 8"
  using slot_word [of _ 8] by (auto simp: resolve_endpoint_def Let_def not_less split: if_splits)

lemma queues_kept_refl: "queues_kept table eps eps"
  by (simp add: queues_kept_def)

lemma queues_kept_trans:
  assumes "length eps = 8" "queues_kept table eps eps1" "queues_kept table eps1 eps2"
  shows "queues_kept table eps eps2"
proof -
  have i: "ep_identity (eps1 ! s) = ep_identity (eps ! s)" if "s < 8" for s using assms(1,2) that by (simp add: queues_kept_def)
  have "resolve_endpoint eps1 h = resolve_endpoint eps h" for h by (rule resolve_endpoint_identity) (rule i)
  then have m: "may_use table eps1 s = may_use table eps s" for s by (simp add: may_use_def)
  show ?thesis using assms(2,3) unfolding queues_kept_def m by fastforce
qed

lemma process_capability_names:
  assumes "process_capability p handle type rights expected = Some h"
  shows "\<exists>slot<ARGUS_CAPABILITY_MAX. ucast (cap_type (cap_entries (p_capabilities p) ! slot)) = type \<and>
    cap_object (cap_entries (p_capabilities p) ! slot) = h"
proof -
  have "unat (w - 1) < 16" if "w \<noteq> 0" "w \<le> (16 :: u32)" for w using slot_word [OF that] by simp
  then show ?thesis using assms
    by (auto simp: process_capability_def capability_resolve_def Let_def not_less split: option.splits if_splits)
qed

lemma queues_kept_update:
  assumes "length eps = 8" "resolve_endpoint eps h = Some s" "ep_identity e = ep_identity (eps ! s)"
    and "process_capability p handle ARGUS_CAPABILITY_IPC rights expected = Some h"
  shows "queues_kept (p_capabilities p) eps (eps[s := e])"
proof -
  have "may_use (p_capabilities p) eps s"
    unfolding may_use_def using process_capability_names [OF assms(4)] assms(2) by auto
  then show ?thesis using assms(1,3) resolve_endpoint_slot [OF assms(2)] by (auto simp: queues_kept_def nth_list_update)
qed

lemma ipc_send_queues:
  assumes "length eps = 8" "process_capability p handle ARGUS_CAPABILITY_IPC rights expected = Some h"
  shows "queues_kept (p_capabilities p) eps (snd (ipc_send eps h pid data n))"
proof (cases "resolve_endpoint eps h")
  case (Some s)
  note u = queues_kept_update [OF assms(1) Some _ assms(2)]
  show ?thesis using Some by (cases data) (simp_all add: ipc_send_def Let_def queues_kept_refl u ep_identity_def)
qed (simp add: ipc_send_def queues_kept_refl)

lemma ipc_receive_queues:
  assumes "length eps = 8" "process_capability p handle ARGUS_CAPABILITY_IPC rights expected = Some h"
    "ipc_receive eps h pid buf cap l sender = (ok, data, received, from, eps')"
  shows "queues_kept (p_capabilities p) eps eps'"
proof (cases "resolve_endpoint eps h")
  case (Some s)
  note u = queues_kept_update [OF assms(1) Some _ assms(2)]
  show ?thesis using Some assms(3)
    by (auto simp: ipc_receive_def Let_def queues_kept_refl ep_identity_def split: option.splits if_splits intro!: u)
qed (use assms(3) in \<open>auto simp: ipc_receive_def queues_kept_refl\<close>)

text \<open>What a system call and an interrupt do to the endpoints.\<close>

definition queue_frame :: "kernel \<Rightarrow> kernel \<Rightarrow> bool" where
  "queue_frame k k' \<longleftrightarrow> (cur k < length (k_processes k) \<longrightarrow> length (k_endpoints k) = 8 \<longrightarrow>
     queues_kept (p_capabilities (proc k (cur k))) (k_endpoints k) (k_endpoints k'))"

lemma queue_frame_eq: "k_endpoints k' = k_endpoints k \<Longrightarrow> queue_frame k k'"
  by (simp add: queue_frame_def queues_kept_refl)

lemma queue_frame_trans:
  assumes "queue_frame k k1" "queue_frame k1 k2" "standing k1 = standing k"
  shows "queue_frame k k2"
proof -
  have "map p_capabilities (k_processes k1) = map p_capabilities (k_processes k)" and c: "cur k1 = cur k"
    using assms(3) by (simp_all add: standing_def)
  then have l: "length (k_processes k1) = length (k_processes k)"
    and p: "cur k < length (k_processes k) \<Longrightarrow> p_capabilities (proc k1 (cur k1)) = p_capabilities (proc k (cur k))"
    by (metis length_map, metis c length_map nth_map)
  show ?thesis using assms(1,2) queues_kept_trans l p c
    unfolding queue_frame_def by (metis queues_kept_def)
qed

definition ends_in :: "(kernel \<Rightarrow> bool) \<Rightarrow> syscall_result option \<Rightarrow> bool" where
  "ends_in P r \<longleftrightarrow> (\<forall>a c k'. r = Some (a, c, k') \<longrightarrow> P k')"

lemma ends_in_intros:
  "P k1 \<Longrightarrow> ends_in P (Some (returns v c k1))"
  "P k1 \<Longrightarrow> ends_in P (Some (a, c, k1))"
  "ends_in P r \<Longrightarrow> ends_in P r' \<Longrightarrow> ends_in P (if g then r else r')"
  "(\<And>x. ends_in P (m' x)) \<Longrightarrow> ends_in P (Option.bind m m')"
  "ends_in P r \<Longrightarrow> (\<And>x. z = Some x \<Longrightarrow> ends_in P (g' x)) \<Longrightarrow> ends_in P (case z of None \<Rightarrow> r | Some x \<Rightarrow> g' x)"
  "(\<And>x y. w = (x, y) \<Longrightarrow> ends_in P (Some (f' x y))) \<Longrightarrow> ends_in P (Some (case w of (x, y) \<Rightarrow> f' x y))"
  "(\<And>x y. w' = (x, y) \<Longrightarrow> ends_in P (h x y)) \<Longrightarrow> ends_in P (case w' of (x, y) \<Rightarrow> h x y)"
  "ends_in P r \<Longrightarrow> ends_in P r' \<Longrightarrow> ends_in P (case t of True \<Rightarrow> r | False \<Rightarrow> r')"
  by (auto simp: ends_in_def returns_def bind_eq_Some_conv split: option.splits prod.splits bool.splits)

lemma ipc_send_frame:
  assumes "process_capability (proc k (cur k)) cap ARGUS_CAPABILITY_IPC rights expected = Some h"
    "ipc_send (k_endpoints k) h pid data n = (ok, eps)" "k_endpoints k' = eps"
  shows "queue_frame k k'"
  using ipc_send_queues [OF _ assms(1), of "k_endpoints k" pid data n] assms(2,3) by (simp add: queue_frame_def)

lemma ipc_receive_frame:
  assumes "process_capability (proc k (cur k)) cap ARGUS_CAPABILITY_IPC rights expected = Some h"
    "ipc_receive (k_endpoints k) h pid buf n l sender = (ok, data, received, from, eps)" "k_endpoints k' = eps"
  shows "queue_frame k k'"
  using ipc_receive_queues [OF _ assms(1,2)] assms(3) by (simp add: queue_frame_def)

lemma syscall_ipc_frame: "ends_in (queue_frame k) (syscall_ipc_send c k)" "ends_in (queue_frame k) (syscall_ipc_receive c k)"
proof -
  show "ends_in (queue_frame k) (syscall_ipc_send c k)"
    unfolding syscall_ipc_send_def Let_def
    by (intro ends_in_intros) (simp_all add: queue_frame_eq ipc_send_frame)
  show "ends_in (queue_frame k) (syscall_ipc_receive c k)"
    unfolding syscall_ipc_receive_def Let_def
    by (intro ends_in_intros) (simp_all add: queue_frame_eq ipc_receive_frame)
qed

lemma syscall_frame:
  assumes "syscall_dispatch c k = Some (action, c', k')"
  shows "queue_frame k k'"
proof -
  let ?k = "k\<lparr>k_syscall_count := k_syscall_count k + 1\<rparr>"
  have q: "queue_frame ?k = queue_frame k" by (simp add: queue_frame_def fun_eq_iff)
  have eq: "ends_in (queue_frame k) r" if "keeps k_endpoints ?k r" for r
    using that by (auto simp: ends_in_def keeps_def intro: queue_frame_eq)
  have calm: "keeps k_endpoints ?k (syscall_write c ?k)" "keeps k_endpoints ?k (syscall_app_present c ?k)"
    "keeps k_endpoints ?k (Some (syscall_yield c ?k))" "keeps k_endpoints ?k (Some (syscall_exit c ?k))"
    "keeps k_endpoints ?k (Some (syscall_clock_ticks c ?k))" "keeps k_endpoints ?k (Some (syscall_input_poll c ?k))"
    "keeps k_endpoints ?k (Some (syscall_event_wait c ?k))" "keeps k_endpoints ?k (Some (syscall_capability_query c ?k))"
    "keeps k_endpoints ?k (Some (syscall_anonymous_connect c ?k))" "keeps k_endpoints ?k (Some (returns v c ?k))" for v
    unfolding syscall_defs Let_def by (intro keeps_intros; simp)+
  have "ends_in (queue_frame k) (syscall_dispatch c k)"
    unfolding syscall_dispatch_def Let_def
    by (intro ends_in_intros(3); (rule syscall_ipc_frame [of ?k, unfolded q] | rule eq, (rule calm | simp add: keeps_def)))
  then show ?thesis using assms by (simp add: ends_in_def)
qed

text \<open>Handlers of interrupts that have nothing to do with the endpoints, as the one of the timer.\<close>

definition handlers_spare_queues :: "environment \<Rightarrow> bool" where
  "handlers_spare_queues env \<longleftrightarrow> (\<forall>h frame k. k_endpoints (env_handlers env h frame k) = k_endpoints k)"

lemma timer_handler_queues: "k_endpoints (timer_handler frame k) = k_endpoints k"
  by (simp add: timer_handler_def Let_def split_beta)

lemma interrupt_frame_queues:
  assumes "handlers_spare_queues env" "interrupt_dispatch env frame k = Some (action, k')"
  shows "queue_frame k k'"
proof (rule queue_frame_eq)
  have p: "process_on_user_interrupt frame k1 = (action, k') \<Longrightarrow> k_endpoints k' = k_endpoints k1" for k1
    by (auto simp: process_on_user_interrupt_def Let_def split: if_splits)
  show "k_endpoints k' = k_endpoints k"
    using assms p by (auto simp: handlers_spare_queues_def interrupt_dispatch_def Let_def split: if_splits)
qed

interpretation queue_run: run_relation env
  "\<lambda>k k'. handlers_quiet env \<longrightarrow> handlers_spare_queues env \<longrightarrow> standing k' = standing k \<and> queue_frame k k'" for env
proof (unfold_locales, goal_cases)
  case (3 k n s z)
  then show ?case by (simp add: standing_def queue_frame_eq)
qed (auto intro: queue_frame_eq queue_frame_trans syscall_frame interrupt_frame_queues dest: syscall_standing interrupt_standing)

lemma dispatch_queues:
  assumes "handlers_quiet env" "handlers_spare_queues env" "dispatch_ready index k" "length (k_endpoints k) = 8"
    "dispatch_process env index k = Some (ok, k')"
  shows "queues_kept (p_capabilities (proc k (unat index))) (k_endpoints k) (k_endpoints k')"
proof -
  let ?i = "unat index"
  have i: "?i < length (k_processes k)" using assms(3) by (simp add: dispatch_ready_def)
  obtain action k1 where r: "arch_resume_user env (p_context (proc k ?i)) (entered index k) = Some (action, k1)"
    and k': "k_endpoints k' = k_endpoints k1"
    using assms(5) unfolding dispatch_entered(3) [OF assms(3)] by (auto simp: bind_eq_Some_conv)
  have "queue_frame (entered index k) k1" using queue_run.resume_related [OF r] assms(1,2) by simp
  moreover have "cur (entered index k) = ?i" "k_endpoints (entered index k) = k_endpoints k"
    "p_capabilities (proc (entered index k) ?i) = p_capabilities (proc k ?i)"
    "length (k_processes (entered index k)) = length (k_processes k)"
    using i by (simp_all add: entered_def Let_def)
  ultimately show ?thesis using i assms(4) k' by (simp add: queue_frame_def)
qed

section \<open>Properties\<close>

text \<open>
  Claim C3. A run of a process is contained. Whatever the program and the devices do, when
  \<^verbatim>\<open>dispatch_process\<close> comes back it reports success, the kernel's own tables are active again and no process
  is current. Every other process is as before; the process has kept exactly its identity, capabilities
  and memory; every byte outside the pages that it may write and the page allocator are unchanged; so are
  the number of processes, the scheduler's cursor, the focus, the next process number, the transport state,
  the processor's tables and the kernel's flags; and no endpoint was created, destroyed or given to another
  receiver, while the queues of those that the process holds no IPC capability for are as before. What a run
  may change besides is the volatile part of its own process, the counters of events, the serial line and
  the interrupt controller.
\<close>

theorem dispatch_process_contained:
  assumes "handlers_quiet env" "handlers_spare_queues env" "dispatch_ready index k"
    and "length (k_endpoints k) = ARGUS_IPC_ENDPOINT_MAX" "dispatch_process env index k = Some (ok, k')"
  shows "ok \<and> contained (unat index) k k' \<and>
    queues_kept (p_capabilities (proc k (unat index))) (k_endpoints k) (k_endpoints k') \<and> k_current_process k' = -1 \<and>
    vm_cr3 (k_vm k') = pi_root_table (the (k_kernel_paging k)) \<and> p_state (proc k' (unat index)) \<noteq> PROCESS_RUNNING"
  using dispatch_contained [OF assms(1,3,5)] dispatch_queues [OF assms] by blast

theorem dispatch_process_contained_witness:
  "\<exists>us s k'. dispatch_process environment_demo 0 (kernel_demo us s) = Some (True, k') \<and> k_current_process k' = -1 \<and>
     vm_cr3 (k_vm k') = 0x1000 \<and> contained 0 (kernel_demo us s) k' \<and> k_endpoints k' ! 3 = zero_ipc_endpoint"
proof -
  obtain us s where d: "dispatch_ready 0 (kernel_demo us s)" using kernel_demo_ready by blast
  have q: "handlers_spare_queues environment_demo"
    by (simp add: handlers_spare_queues_def environment_demo_def timer_handler_queues)
  obtain k' where k': "dispatch_process environment_demo 0 (kernel_demo us s) = Some (True, k')"
    using dispatch_returns [OF environment_demo_ok(1) d environment_demo_ok(3) _ environment_demo_ok(2)]
    by (auto simp: kernel_demo_def)
  have e: "k_endpoints (kernel_demo us s) = replicate 8 zero_ipc_endpoint" "pi_root_table (the (k_kernel_paging (kernel_demo us s))) = 0x1000"
    by (simp_all add: kernel_demo_def)
  have "resolve_endpoint (replicate 8 zero_ipc_endpoint) h \<noteq> Some 3" for h
    by (auto simp: resolve_endpoint_def Let_def zero_ipc_endpoint_def split: if_splits)
  then have "\<not> may_use table (replicate 8 zero_ipc_endpoint) 3" for table by (simp add: may_use_def)
  note m = this
  have c: "contained 0 (kernel_demo us s) k' \<and> queues_kept (p_capabilities (proc (kernel_demo us s) 0)) (replicate 8 zero_ipc_endpoint) (k_endpoints k') \<and>
      k_current_process k' = -1 \<and> vm_cr3 (k_vm k') = 0x1000"
    using dispatch_process_contained [OF environment_demo_ok(1) q d _ k'] unfolding e by simp
  then have "k_endpoints k' ! 3 = zero_ipc_endpoint" using m unfolding queues_kept_def by (auto dest!: spec [of _ 3])
  with c k' show ?thesis by blast
qed

end
