(* ===== verification/Round_Robin.thy ===== *)
theory Round_Robin
  imports Scheduler Run_Frame
begin

text \<open>
  The choice of the scheduler of \<^verbatim>\<open>src/process.c\<close>: which process \<^verbatim>\<open>next_ready_process\<close> selects, and that successive
  calls of \<^verbatim>\<open>process_run_ready_once\<close> reach every process that stays able to run.
\<close>

section \<open>Round robin\<close>

text \<open>How far process \<open>i\<close> is from the cursor, around a table of \<open>n\<close> processes.\<close>

definition turn :: "nat \<Rightarrow> nat \<Rightarrow> nat \<Rightarrow> nat" where
  "turn n cursor i = (if cursor \<le> i then i - cursor else i + n - cursor)"

lemma turn_offset: "cursor < n \<Longrightarrow> i < n \<Longrightarrow> turn n cursor i < n \<and> (cursor + turn n cursor i) mod n = i"
  by (auto simp: turn_def mod_if)

lemma turn_unique:
  assumes "cursor < n" "d < n"
  shows "turn n cursor ((cursor + d) mod n) = d"
  using assms by (cases "cursor + d < n") (auto simp: turn_def mod_if)

lemma find_map: "find P (map f xs) = map_option f (find (\<lambda>x. P (f x)) xs)"
  by (induction xs) simp_all

text \<open>A kernel whose table and cursor are in range.\<close>

definition table_ok :: "u32 \<Rightarrow> kernel \<Rightarrow> bool" where
  "table_ok cursor k \<longleftrightarrow> cursor < k_configured_processes k \<and> k_configured_processes k \<le> ARGUS_PROCESS_MAX"

lemma scan_index:
  assumes "cursor < n" "n \<le> (8 :: u32)" "d < unat n"
  shows "unat ((cursor + of_nat d) mod n) = (unat cursor + d) mod unat n"
proof -
  have b: "unat cursor < 8" "d < 8" using assms by (auto simp: word_less_nat_alt word_le_nat_alt)
  then have "unat (of_nat d :: u32) = d" by (simp add: unsigned_of_nat take_bit_nat_eq_self)
  then have "unat (cursor + of_nat d) = unat cursor + d" using b by (simp add: unat_word_ariths)
  then show ?thesis by (simp add: unat_mod)
qed

lemma next_ready_cases:
  assumes "table_ok cursor k"
  defines "n \<equiv> unat (k_configured_processes k)"
  obtains (none) "next_ready_process cursor k = None" "\<And>i. i < n \<Longrightarrow> \<not> runnable (proc k i)"
  | (ready) s where "next_ready_process cursor k = Some s" "unat s < n" "runnable (proc k (unat s))"
      "\<And>i. i < n \<Longrightarrow> runnable (proc k i) \<Longrightarrow> turn n (unat cursor) (unat s) \<le> turn n (unat cursor) i"
proof -
  let ?c = "k_configured_processes k" and ?f = "\<lambda>d. (cursor + of_nat d) mod k_configured_processes k"
  have c: "cursor < ?c" "?c \<le> 8" "unat cursor < n" using assms by (simp_all add: table_ok_def word_less_nat_alt)
  have idx: "unat (?f d) = (unat cursor + d) mod n" if "d < n" for d
    using scan_index [OF c(1,2)] that by (simp add: n_def)
  have e: "next_ready_process cursor k = map_option ?f (find (\<lambda>d. runnable (proc k (unat (?f d)))) [0..<n])"
    using c(1) unfolding next_ready_process_def n_def by (simp add: find_map word_gt_0 [symmetric])
  show thesis
  proof (cases "find (\<lambda>d. runnable (proc k (unat (?f d)))) [0..<n]")
    case None
    have "\<not> runnable (proc k i)" if "i < n" for i
      using None turn_offset [OF c(3) that] idx [of "turn n (unat cursor) i"] unfolding find_upt_None by metis
    then show thesis using none e None by simp
  next
    case (Some d)
    then have d: "d < n" "runnable (proc k (unat (?f d)))" "\<And>j. j < d \<Longrightarrow> \<not> runnable (proc k (unat (?f j)))"
      unfolding find_upt_Some by auto
    have "turn n (unat cursor) (unat (?f d)) \<le> turn n (unat cursor) i" if "i < n" "runnable (proc k i)" for i
    proof (rule ccontr)
      assume "\<not> ?thesis"
      then have "turn n (unat cursor) i < d" using turn_unique [OF c(3) d(1)] idx [OF d(1)] by simp
      moreover have "unat (?f (turn n (unat cursor) i)) = i" using turn_offset [OF c(3) that(1)] idx by simp
      ultimately show False using d(3) that(2) by metis
    qed
    moreover have "unat (?f d) < n" using idx [OF d(1)] c(3) by simp
    ultimately show thesis using ready [of "?f d"] e Some d(2) by simp
  qed
qed

section \<open>Successive calls\<close>

definition scheduler_on :: "kernel \<Rightarrow> bool" where
  "scheduler_on k \<longleftrightarrow> k_scheduler_ready k \<and> k_process_self_test_passed k \<and> k_current_process k < 0"

text \<open>
  The states in which \<^verbatim>\<open>process_run_ready_once\<close> is called one after another. Every call comes back, and
  between two of them anything may happen that leaves the cursor alone.
\<close>

fun successive_calls :: "environment \<Rightarrow> kernel list \<Rightarrow> bool" where
  "successive_calls env (k # l # ks) \<longleftrightarrow> (\<exists>ok k'. process_run_ready_once env k = Some (ok, k') \<and>
     k_scheduler_cursor l = k_scheduler_cursor k') \<and> successive_calls env (l # ks)"
| "successive_calls env ks \<longleftrightarrow> True"

lemma wake_keeps:
  "k_configured_processes (wake_blocked_processes k) = k_configured_processes k \<and>
   k_scheduler_cursor (wake_blocked_processes k) = k_scheduler_cursor k"
proof -
  let ?f = "\<lambda>now index k. if wakes now (proc k index)
         then set_proc index ((proc k index)\<lparr>p_state := PROCESS_READY\<rparr>) (k\<lparr>k_wakeup_count := k_wakeup_count k + 1\<rparr>) else k"
  have "k_configured_processes (fold (?f now) is k) = k_configured_processes k \<and>
      k_scheduler_cursor (fold (?f now) is k) = k_scheduler_cursor k" for now "is" k
    by (induction "is" arbitrary: k) simp_all
  then show ?thesis by (simp only: wake_blocked_processes_def Let_def)
qed

lemma once_selected:
  assumes "scheduler_on k" "next_ready_process (k_scheduler_cursor k) (wake_blocked_processes k) = Some s"
  shows "process_run_ready_once env k = dispatch_process env s
    ((wake_blocked_processes k)\<lparr>k_scheduler_cursor := (s + 1) mod k_configured_processes k\<rparr>)"
  using assms wake_keeps [of k] by (simp add: process_run_ready_once_def scheduler_on_def Let_def not_le)

lemma once_cursor:
  assumes "handlers_quiet env" "scheduler_on k" "next_ready_process (k_scheduler_cursor k) (wake_blocked_processes k) = Some s"
    "process_run_ready_once env k = Some (ok, k')"
  shows "k_scheduler_cursor k' = (s + 1) mod k_configured_processes k"
  using assms(4) dispatch_standing(3) [OF assms(1)] unfolding once_selected [OF assms(2,3)] by fastforce

lemma turn_next:
  assumes "cursor < n" "s < n" "i < n" "turn n cursor s \<le> turn n cursor i" "s \<noteq> i"
  shows "turn n ((s + 1) mod n) i < turn n cursor i"
  using assms by (auto simp: turn_def mod_if split: if_splits)

text \<open>A process that is able to run at every call is selected when its turn comes.\<close>

definition gets_turn :: "environment \<Rightarrow> nat \<Rightarrow> kernel \<Rightarrow> bool" where
  "gets_turn env i k \<longleftrightarrow> next_ready_process (k_scheduler_cursor k) (wake_blocked_processes k) = Some (of_nat i) \<and>
     (\<exists>cursor. process_run_ready_once env k =
        dispatch_process env (of_nat i) ((wake_blocked_processes k)\<lparr>k_scheduler_cursor := cursor\<rparr>))"

lemma turn_step:
  assumes on: "scheduler_on k" "k_configured_processes k = c" "runnable (proc (wake_blocked_processes k) i)"
    and c: "c \<le> 8" "k_scheduler_cursor k < c" "i < unat c"
  obtains (now) "gets_turn env i k"
  | (later) s where "next_ready_process (k_scheduler_cursor k) (wake_blocked_processes k) = Some s" "(s + 1) mod c < c"
      "turn (unat c) (unat ((s + 1) mod c)) i < turn (unat c) (unat (k_scheduler_cursor k)) i"
proof -
  let ?w = "wake_blocked_processes k" and ?cur = "k_scheduler_cursor k"
  have w: "k_configured_processes ?w = c" using wake_keeps [of k] on(2) by simp
  have t: "table_ok ?cur ?w" using c w by (simp add: table_ok_def)
  show thesis
  proof (cases rule: next_ready_cases [OF t])
    case 1
    then show thesis using on(3) c(3) w by simp
  next
    case (2 s)
    have s: "unat s < unat c" "turn (unat c) (unat ?cur) (unat s) \<le> turn (unat c) (unat ?cur) i"
      using 2 on(3) c(3) w by simp_all
    show thesis
    proof (cases "unat s = i")
      case True
      then have "s = of_nat i" by auto
      then have "gets_turn env i k"
        using 2(1) once_selected [OF on(1) 2(1), of env] unfolding gets_turn_def by blast
      then show thesis by (rule now)
    next
      case False
      have u: "unat ((s + 1) mod c) = (unat s + 1) mod unat c"
        using s(1) c(1) scan_index [of s c 1] by (cases "unat c = 1") (auto simp: word_less_nat_alt unat_mod unat_word_ariths word_le_nat_alt)
      show thesis
      proof (rule later [OF 2(1)])
        show "(s + 1) mod c < c" using c(2) by (simp add: word_less_nat_alt unat_mod)
        show "turn (unat c) (unat ((s + 1) mod c)) i < turn (unat c) (unat ?cur) i"
          unfolding u by (rule turn_next [OF _ s(1) c(3) s(2) False]) (use c(2) in \<open>simp add: word_less_nat_alt\<close>)
      qed
    qed
  qed
qed

lemma turn_comes:
  assumes "handlers_quiet env" "successive_calls env (k # ks)"
    and "\<And>l. l \<in> set (k # ks) \<Longrightarrow> scheduler_on l \<and> k_configured_processes l = c \<and> runnable (proc (wake_blocked_processes l) i)"
    and "c \<le> 8" "k_scheduler_cursor k < c" "i < unat c" "turn (unat c) (unat (k_scheduler_cursor k)) i \<le> length ks"
  shows "\<exists>l\<in>set (k # ks). gets_turn env i l"
  using assms(2-)
proof (induction ks arbitrary: k)
  case (Nil k)
  have on: "scheduler_on k" "k_configured_processes k = c" "runnable (proc (wake_blocked_processes k) i)" using Nil.prems(2) by simp_all
  show ?case by (rule turn_step [OF on Nil.prems(3-5), of env]) (use Nil.prems(6) in simp_all)
next
  case (Cons l ks)
  have on: "scheduler_on k" "k_configured_processes k = c" "runnable (proc (wake_blocked_processes k) i)" using Cons.prems(2) by simp_all
  show ?case
  proof (cases rule: turn_step [OF on Cons.prems(3-5), of env])
    case 1
    then show ?thesis by simp
  next
    case (2 s)
    obtain ok k' where r: "process_run_ready_once env k = Some (ok, k')" "k_scheduler_cursor l = k_scheduler_cursor k'"
        "successive_calls env (l # ks)"
      using Cons.prems(1) by auto
    have cur: "k_scheduler_cursor l = (s + 1) mod c" using once_cursor [OF assms(1) on(1) 2(1) r(1)] r(2) on(2) by simp
    have "\<exists>l\<in>set (l # ks). gets_turn env i l"
    proof (rule Cons.IH [OF r(3) _ Cons.prems(3) _ Cons.prems(5)])
      show "k_scheduler_cursor l < c" "turn (unat c) (unat (k_scheduler_cursor l)) i \<le> length ks"
        unfolding cur using 2 Cons.prems(6) by simp_all
    qed (use Cons.prems(2) in simp)
    then show ?thesis by simp
  qed
qed

text \<open>
  Claim C35. The choice of the scheduler. \<^verbatim>\<open>next_ready_process\<close> finds nothing exactly when no configured
  process may run; otherwise it returns one that may run, and the first one from the cursor on, going
  around the table.
\<close>

theorem next_ready_process_round_robin:
  assumes "table_ok cursor k" and "n = unat (k_configured_processes k)"
  shows "(next_ready_process cursor k = None \<longleftrightarrow> (\<forall>i<n. \<not> runnable (proc k i))) \<and>
    (\<forall>s. next_ready_process cursor k = Some s \<longrightarrow> unat s < n \<and> runnable (proc k (unat s)) \<and>
       (\<forall>i<n. runnable (proc k i) \<longrightarrow> turn n (unat cursor) (unat s) \<le> turn n (unat cursor) i))"
  by (rule next_ready_cases [OF assms(1)]) (use assms(2) in auto)

text \<open>
  Claim C6. No process starves. Take successive calls of \<^verbatim>\<open>process_run_ready_once\<close>, as many as there are configured
  processes, with anything in between that leaves the scheduler's cursor alone. A process that is able to
  run at every one of them, possibly woken by the call itself, is selected and dispatched by one of them.
\<close>

theorem scheduler_no_starvation:
  assumes "handlers_quiet env" "successive_calls env ks" "unat c \<le> length ks"
    and "\<And>k. k \<in> set ks \<Longrightarrow> scheduler_on k \<and> k_configured_processes k = c \<and> runnable (proc (wake_blocked_processes k) i)"
    and "c \<le> ARGUS_PROCESS_MAX" "k_scheduler_cursor (hd ks) < c" "i < unat c"
  shows "\<exists>k\<in>set ks. next_ready_process (k_scheduler_cursor k) (wake_blocked_processes k) = Some (of_nat i) \<and>
    (\<exists>cursor. process_run_ready_once env k =
       dispatch_process env (of_nat i) ((wake_blocked_processes k)\<lparr>k_scheduler_cursor := cursor\<rparr>))"
proof -
  obtain k ls where ks: "ks = k # ls" using assms(3,7) by (cases ks) auto
  have "turn (unat c) (unat (k_scheduler_cursor k)) i \<le> length ls"
    using turn_offset [of "unat (k_scheduler_cursor k)" "unat c" i] assms(3,6,7) by (simp add: ks word_less_nat_alt)
  then show ?thesis
    using turn_comes [OF assms(1), of k ls c i] assms(2,4-7) by (simp add: ks gets_turn_def)
qed

definition kernel_pair :: kernel where
  "kernel_pair = (kernel_demo zero_user_space vm_example)\<lparr>k_processes := replicate 2 (zero_process\<lparr>p_pid := 1, p_state := PROCESS_READY\<rparr>),
     k_configured_processes := 2\<rparr>"

lemma runnable_pair: "runnable (proc kernel_pair 0)" "runnable (proc kernel_pair (Suc 0))" "k_configured_processes kernel_pair = 2"
  "length (k_processes kernel_pair) = 2"
  by (simp_all add: kernel_pair_def runnable_def zero_process_def)

theorem next_ready_process_round_robin_witness:
  "table_ok 1 kernel_pair \<and> map_option (\<lambda>s. turn 2 1 (unat s)) (next_ready_process 1 kernel_pair) = Some 0"
proof -
  have t: "table_ok 1 kernel_pair" by (simp add: table_ok_def runnable_pair)
  have n: "(2 :: nat) = unat (k_configured_processes kernel_pair)" by (simp add: runnable_pair)
  note r = next_ready_process_round_robin [OF t n]
  have "\<not> (\<forall>i<2. \<not> runnable (proc kernel_pair i))" using runnable_pair(1) by (intro notI) (drule spec [of _ 0], simp)
  moreover have "turn 2 1 (unat s) = 0" if "next_ready_process 1 kernel_pair = Some s" for s
  proof -
    have "\<forall>i<2. runnable (proc kernel_pair i) \<longrightarrow> turn 2 (unat (1 :: u32)) (unat s) \<le> turn 2 (unat (1 :: u32)) i"
      using r that by blast
    then have "turn 2 1 (unat s) \<le> turn 2 1 (Suc 0)" using runnable_pair(2) by simp
    moreover have "turn 2 1 (Suc 0) = 0" by (simp add: turn_def)
    ultimately show ?thesis by simp
  qed
  ultimately show ?thesis using r t by (cases "next_ready_process 1 kernel_pair") auto
qed

text \<open>Two processes in the same address space that are ready to run, with the cursor at the first or the second.\<close>

definition kernel_two :: "paging_user_space \<Rightarrow> vm \<Rightarrow> u32 \<Rightarrow> kernel" where
  "kernel_two us s cursor = (kernel_demo us s)\<lparr>k_processes := replicate 2 (proc (kernel_demo us s) 0),
     k_configured_processes := 2, k_scheduler_cursor := cursor\<rparr>"

lemma kernel_two_simps:
  "k_configured_processes (kernel_two us s c) = 2" "k_scheduler_cursor (kernel_two us s c) = c" "scheduler_on (kernel_two us s c)"
  "wake_blocked_processes (kernel_two us s c) = kernel_two us s c" "i < 2 \<Longrightarrow> runnable (proc (kernel_two us s c) i)"
  by (simp_all add: kernel_two_def kernel_demo_def scheduler_on_def wake_blocked_processes_def runnable_def zero_process_def)

lemma kernel_two_next: "next_ready_process 0 (kernel_two us s c) = Some 0"
  by (simp add: next_ready_process_def kernel_two_simps upt_rec)

lemma kernel_two_returns: "\<exists>us s k'. process_run_ready_once environment_demo (kernel_two us s 0) = Some (True, k') \<and> k_scheduler_cursor k' = 1"
proof -
  obtain us s where d: "dispatch_ready 0 (kernel_demo us s)" using kernel_demo_ready by blast
  let ?k = "kernel_two us s 0"
  have e: "process_run_ready_once environment_demo ?k = dispatch_process environment_demo 0 (kernel_two us s 1)"
    using once_selected [of ?k 0 environment_demo] kernel_two_next by (simp add: kernel_two_simps) (simp add: kernel_two_def)
  have "dispatch_ready 0 (kernel_two us s 1)" using d by (simp add: dispatch_ready_def kernel_two_def kernel_demo_def)
  from dispatch_returns [OF environment_demo_ok(1) this _ _ environment_demo_ok(2)] obtain k' where
    k': "dispatch_process environment_demo 0 (kernel_two us s 1) = Some (True, k')"
    using environment_demo_ok(3) [of us s] by (auto simp: kernel_two_def kernel_demo_def)
  then have "k_scheduler_cursor k' = 1" using dispatch_standing(3) [OF environment_demo_ok(1) k'] by (simp add: kernel_two_simps)
  with e k' show ?thesis by auto
qed

theorem scheduler_no_starvation_witness:
  "\<exists>us s cursor. process_run_ready_once environment_demo (kernel_two us s 1) =
     dispatch_process environment_demo 1 ((kernel_two us s 1)\<lparr>k_scheduler_cursor := cursor\<rparr>)"
proof -
  obtain us s k' where r: "process_run_ready_once environment_demo (kernel_two us s 0) = Some (True, k')" "k_scheduler_cursor k' = 1"
    using kernel_two_returns by blast
  have "successive_calls environment_demo [kernel_two us s 0, kernel_two us s 1]" using r by (auto simp: kernel_two_simps)
  moreover have "scheduler_on k \<and> k_configured_processes k = 2 \<and> runnable (proc (wake_blocked_processes k) 1)"
    if "k \<in> set [kernel_two us s 0, kernel_two us s 1]" for k
    using that kernel_two_simps(5) [of 1] by (auto simp: kernel_two_simps)
  ultimately have "\<exists>k\<in>set [kernel_two us s 0, kernel_two us s 1].
      next_ready_process (k_scheduler_cursor k) (wake_blocked_processes k) = Some (of_nat 1) \<and>
      (\<exists>cursor. process_run_ready_once environment_demo k =
         dispatch_process environment_demo (of_nat 1) ((wake_blocked_processes k)\<lparr>k_scheduler_cursor := cursor\<rparr>))"
    by (intro scheduler_no_starvation [OF environment_demo_ok(1), of _ 2 1]) (simp_all add: kernel_two_simps)
  then show ?thesis by (auto simp: kernel_two_simps kernel_two_next)
qed

end
