(* ===== verification/Network_Isolation.thy ===== *)
theory Network_Isolation
  imports Scheduler Run_Frame
begin

text \<open>
  The kernel gives no process a network capability: an invariant of the process table over every
  operation of \<^verbatim>\<open>src/process.c\<close>, system calls and interrupts included, and over every state
  that a sequence of those operations reaches.
\<close>

section \<open>No process holds a network capability\<close>

definition netless :: "argus_capability_table \<Rightarrow> bool" where
  "netless t \<longleftrightarrow> length (cap_entries t) = 16 \<and> list_all (\<lambda>e. cap_type e < 5) (cap_entries t)"

definition netfree :: "process \<Rightarrow> bool" where "netfree p \<longleftrightarrow> netless (p_capabilities p)"

text \<open>
  The invariant \<open>nf lim\<close>: all eight slots are free of network capabilities and at most \<open>lim\<close> of them are
  configured.
\<close>

definition nf :: "nat \<Rightarrow> kernel \<Rightarrow> bool" where
  "nf lim k \<longleftrightarrow> length (k_processes k) = 8 \<and> list_all netfree (k_processes k) \<and> unat (k_configured_processes k) \<le> lim"

lemma netfree_same [simp]:
  "netfree (p\<lparr>p_pid := x0\<rparr>) = netfree p"
  "netfree (p\<lparr>p_app_id := x1\<rparr>) = netfree p"
  "netfree (p\<lparr>p_security_role := x2\<rparr>) = netfree p"
  "netfree (p\<lparr>p_address_space := x3\<rparr>) = netfree p"
  "netfree (p\<lparr>p_stack_virtual := x4\<rparr>) = netfree p"
  "netfree (p\<lparr>p_stack_physical := x5\<rparr>) = netfree p"
  "netfree (p\<lparr>p_surface_page_count := x6\<rparr>) = netfree p"
  "netfree (p\<lparr>p_surface_physical := x7\<rparr>) = netfree p"
  "netfree (p\<lparr>p_ipc_endpoint := x8\<rparr>) = netfree p"
  "netfree (p\<lparr>p_context := x9\<rparr>) = netfree p"
  "netfree (p\<lparr>p_state := x10\<rparr>) = netfree p"
  "netfree (p\<lparr>p_image_physical := x11\<rparr>) = netfree p"
  "netfree (p\<lparr>p_image_page_count := x12\<rparr>) = netfree p"
  "netfree (p\<lparr>p_code_virtual := x13\<rparr>) = netfree p"
  "netfree (p\<lparr>p_active := x14\<rparr>) = netfree p"
  "netfree (p\<lparr>p_input := x15\<rparr>) = netfree p"
  "netfree (p\<lparr>p_input_head := x16\<rparr>) = netfree p"
  by (simp_all add: netfree_def)

lemma nf_proc: "nf lim k \<Longrightarrow> i < 8 \<Longrightarrow> netfree (proc k i)"
  by (simp add: nf_def list_all_length)

lemma nf_set: "nf lim k \<Longrightarrow> netfree p \<Longrightarrow> nf lim (set_proc i p k)"
  by (cases "i < 8") (auto simp: nf_def list_all_length nth_list_update list_update_beyond)

lemma nf_set_keep: "nf lim k \<Longrightarrow> p_capabilities p = p_capabilities (proc k i) \<Longrightarrow> nf lim (set_proc i p k)"
  by (cases "i < 8") (auto simp: nf_def list_all_length nth_list_update list_update_beyond netfree_def)

lemma nf_same [simp]:
  "nf lim (k\<lparr>k_vm := a\<rparr>) = nf lim k" "nf lim (k\<lparr>k_endpoints := b\<rparr>) = nf lim k" "nf lim (k\<lparr>k_next_pid := d\<rparr>) = nf lim k"
  "nf lim (k\<lparr>k_serial := f\<rparr>) = nf lim k"
  "nf lim (k\<lparr>k_scheduler_cursor := g\<rparr>) = nf lim k" "nf lim (k\<lparr>k_wakeup_count := h\<rparr>) = nf lim k"
  "nf lim (k\<lparr>k_focused_app_id := e\<rparr>) = nf lim k" "nf lim (k\<lparr>k_preemption_enabled := b'\<rparr>) = nf lim k"
  "nf lim (k\<lparr>k_process_self_test_passed := b'\<rparr>) = nf lim k" "nf lim (k\<lparr>k_current_process := c\<rparr>) = nf lim k"
  "nf lim (k\<lparr>k_context_switch_count := d\<rparr>) = nf lim k" "nf lim (k\<lparr>k_scheduler_ready := b'\<rparr>) = nf lim k"
  "nf lim (k\<lparr>k_address_spaces_isolated := b'\<rparr>) = nf lim k" "nf lim (k\<lparr>k_arch := ar\<rparr>) = nf lim k"
  by (simp_all add: nf_def)

lemma nf_configured [simp]: "nf lim k \<Longrightarrow> unat e \<le> lim \<Longrightarrow> nf lim (k\<lparr>k_configured_processes := e\<rparr>)"
  by (simp add: nf_def)

lemma nf_mono: "nf m k \<Longrightarrow> m \<le> lim \<Longrightarrow> nf lim k"
  by (simp add: nf_def)

lemma netfree_zero [simp]: "netfree zero_process"
  by (simp add: netfree_def netless_def zero_process_def empty_capability_table_def zero_capability_entry_def list_all_length)

lemma nf_release: "nf lim k \<Longrightarrow> nf lim (release_process i k)"
  unfolding release_process_def Let_def by (intro nf_set) (simp_all add: nf_def)

lemma nf_map_into: "nf lim k \<Longrightarrow> nf lim (snd (map_into i v p w x k))"
  unfolding map_into_def Let_def split_beta by (auto intro!: nf_set_keep)

lemma proc_map_into: "p_capabilities (proc (snd (map_into i v p w x k)) j) = p_capabilities (proc k j)"
  unfolding map_into_def Let_def split_beta
  by (cases "j = i"; cases "i < length (k_processes k)") (simp_all add: list_update_beyond)

lemma nf_map_surface: "nf lim k \<Longrightarrow> nf lim (snd (map_surface_pages i ps k))"
proof (induction ps arbitrary: k)
  case (Cons q qs)
  show ?case
    using Cons.prems by (auto simp: Let_def split_beta intro!: Cons.IH nf_map_into)
qed simp

lemma netless_grant:
  assumes "netless t" "type < 5" "capability_grant (Some t) type rights object = (h, t')"
  shows "\<exists>t2. t' = Some t2 \<and> netless t2"
proof -
  have "(ucast type :: u16) < 5"
    using assms(2) by (simp add: word_less_nat_alt unsigned_ucast_eq take_bit_nat_eq_self)
  then have "list_all (\<lambda>e. cap_type e < 5) ((cap_entries t)[s := (cap_entries t ! s)\<lparr>cap_object := object, cap_type := ucast type, cap_rights := rights\<rparr>])" for s
    using assms(1) by (cases "s < length (cap_entries t)") (auto simp: netless_def list_all_length nth_list_update list_update_beyond)
  then show ?thesis using assms by (auto simp: capability_grant_def netless_def Let_def split: if_splits option.splits)
qed

lemma netfree_grant: "netfree p \<Longrightarrow> type < 5 \<Longrightarrow> netfree (snd (grant_process_capability p type rights object))"
  using netless_grant [of "p_capabilities p" type rights object]
  by (auto simp: grant_process_capability_def netfree_def Let_def split: prod.splits)

lemma netfree_grant_all: "netfree p \<Longrightarrow> list_all (\<lambda>(type, _). type < 5) gs \<Longrightarrow> netfree (snd (grant_all gs p))"
proof (induction gs arbitrary: p)
  case (Cons g gs)
  obtain type rights object where g: "g = (type, rights, object)" by (cases g) auto
  then show ?case using Cons netfree_grant [of p type rights object] by (auto simp: Let_def split: prod.splits)
qed simp

lemma netfree_init: "netfree (init_process_capabilities pid p)"
  by (simp add: init_process_capabilities_def capability_table_init_def netfree_def netless_def list_all_length zero_capability_entry_def)

text \<open>
  Rules that follow the text of an operation: through conditions, results of other operations and local
  updates of the kernel, of a process and of everything else.
\<close>

definition nfp :: "nat \<Rightarrow> 'a \<times> kernel \<Rightarrow> bool" where "nfp lim r \<longleftrightarrow> nf lim (snd r)"
definition nfo :: "nat \<Rightarrow> ('a \<times> kernel) option \<Rightarrow> bool" where "nfo lim r \<longleftrightarrow> (\<forall>b k. r = Some (b, k) \<longrightarrow> nf lim k)"

lemma nfp_rules:
  "nf lim k \<Longrightarrow> nfp lim (b, k)"
  "nfp lim r \<Longrightarrow> nfp lim r' \<Longrightarrow> nfp lim (if g then r else r')"
  "nf lim e \<Longrightarrow> (\<And>k. nf lim k \<Longrightarrow> nfp lim (f1 k)) \<Longrightarrow> nfp lim (Let e f1)"
  "netfree pe \<Longrightarrow> (\<And>p. netfree p \<Longrightarrow> nfp lim (f2 p)) \<Longrightarrow> nfp lim (Let pe f2)"
  "nfp lim r0 \<Longrightarrow> (\<And>b k. nf lim k \<Longrightarrow> nfp lim (f0 b k)) \<Longrightarrow> nfp lim (Let r0 (\<lambda>(b, k). f0 b k))"
  "netfree (snd r9) \<Longrightarrow> (\<And>b p. netfree p \<Longrightarrow> nfp lim (f9 b p)) \<Longrightarrow> nfp lim (Let r9 (\<lambda>(b, p). f9 b p))"
  "(\<And>x. nfp lim (f3 x)) \<Longrightarrow> nfp lim (Let x3 f3)"
  "nfp lim r4 \<Longrightarrow> (\<And>b k. nf lim k \<Longrightarrow> nfp lim (f4 b k)) \<Longrightarrow> nfp lim (case r4 of (b, k) \<Rightarrow> f4 b k)"
  "netfree (snd r5) \<Longrightarrow> (\<And>b p. netfree p \<Longrightarrow> nfp lim (f5 b p)) \<Longrightarrow> nfp lim (case r5 of (b, p) \<Rightarrow> f5 b p)"
  "(\<And>a b. nfp lim (f6 a b)) \<Longrightarrow> nfp lim (case r6 of (a, b) \<Rightarrow> f6 a b)"
  by (auto simp: nfp_def Let_def split: prod.splits)

lemma nfo_rules:
  "nf lim k \<Longrightarrow> nfo lim (Some (b, k))"
  "nfp lim rp \<Longrightarrow> nfo lim (Some rp)"
  "nfo lim None"
  "nfo lim r \<Longrightarrow> nfo lim r' \<Longrightarrow> nfo lim (if g then r else r')"
  "nf lim e \<Longrightarrow> (\<And>k. nf lim k \<Longrightarrow> nfo lim (f1 k)) \<Longrightarrow> nfo lim (Let e f1)"
  "nfp lim r0 \<Longrightarrow> (\<And>b k. nf lim k \<Longrightarrow> nfo lim (f0 b k)) \<Longrightarrow> nfo lim (Let r0 (\<lambda>(b, k). f0 b k))"
  "(\<And>x. nfo lim (f3 x)) \<Longrightarrow> nfo lim (Let x3 f3)"
  "nfp lim r4 \<Longrightarrow> (\<And>b k. nf lim k \<Longrightarrow> nfo lim (f4 b k)) \<Longrightarrow> nfo lim (case r4 of (b, k) \<Rightarrow> f4 b k)"
  "(\<And>a b. nfo lim (f6 a b)) \<Longrightarrow> nfo lim (case r6 of (a, b) \<Rightarrow> f6 a b)"
  "nfo lim m \<Longrightarrow> (\<And>b k. nf lim k \<Longrightarrow> nfo lim (f7 (b, k))) \<Longrightarrow> nfo lim (Option.bind m f7)"
  "(\<And>k. mk = Some k \<Longrightarrow> nf lim k) \<Longrightarrow> (\<And>k. nf lim k \<Longrightarrow> nfo lim (f10 k)) \<Longrightarrow> nfo lim (Option.bind mk f10)"
  "nfo lim r11 \<Longrightarrow> nfo lim r12 \<Longrightarrow> nfo lim (case bb of True \<Rightarrow> r11 | False \<Rightarrow> r12)"
  "nfo lim r8 \<Longrightarrow> (\<And>x. nfo lim (f8 x)) \<Longrightarrow> nfo lim (case z of None \<Rightarrow> r8 | Some x \<Rightarrow> f8 x)"
  by (auto simp: nfo_def nfp_def Let_def bind_eq_Some_conv split: prod.splits option.splits bool.splits)

lemma nf_leaves:
  "nf lim k \<Longrightarrow> nf lim (release_process i k)"
  "nf lim k \<Longrightarrow> nfp lim (map_into i v x w e k)"
  "nf lim k \<Longrightarrow> nfp lim (map_surface_pages i ps k)"
  using nf_release nf_map_into nf_map_surface by (auto simp: nfp_def)

lemma nf_prepare: "nf lim k \<Longrightarrow> i < 8 \<Longrightarrow> nfp lim (prepare_process i pid app_id k)"
  unfolding prepare_process_def
  by (assumption | rule nfp_rules nf_leaves netfree_init netfree_grant_all nf_set |
    (simp add: app_grants_def nf_proc; fail))+

lemma nf_push: "nf lim k \<Longrightarrow> i < 8 \<Longrightarrow> push_image_page i x k = Some k' \<Longrightarrow> nf lim k'"
  unfolding push_image_page_def Let_def by (auto intro!: nf_set simp: nf_proc split: if_splits)

lemma nf_load_page: "nf lim k \<Longrightarrow> i < 8 \<Longrightarrow> nfo lim (load_page i v bs w x k)"
  unfolding load_page_def
  by (assumption | rule nfo_rules nf_leaves | (erule nf_push [rotated -1]; assumption) | (simp; fail))+

text \<open>A result that is examined for success.\<close>

lemma nfo_case: "nfo lim m \<Longrightarrow> (\<And>k. nf lim k \<Longrightarrow> nfo lim (f k)) \<Longrightarrow>
    nfo lim (case m of None \<Rightarrow> None | Some (True, k) \<Rightarrow> f k | Some (False, k) \<Rightarrow> Some (False, k))"
  by (auto simp: nfo_def split: option.splits bool.splits)

lemma nf_load_pages: "nf lim k \<Longrightarrow> i < 8 \<Longrightarrow> nfo lim (load_pages i v bs n w x k)"
proof (induction n arbitrary: k v bs)
  case 0
  then show ?case by (simp add: nfo_def)
next
  case (Suc n)
  show ?case unfolding load_pages.simps by (rule nfo_case [OF nf_load_page [OF Suc.prems]]) (rule Suc.IH [OF _ Suc.prems(2)])
qed

lemma nf_load_segments: "nf lim k \<Longrightarrow> i < 8 \<Longrightarrow> nfo lim (load_segments i file segs k)"
proof (induction segs arbitrary: k)
  case Nil
  then show ?case by (simp add: nfo_def)
next
  case (Cons s segs)
  show ?case unfolding load_segments.simps by (rule nfo_case [OF nf_load_pages [OF Cons.prems]]) (rule Cons.IH [OF _ Cons.prems(2)])
qed

lemma nf_initialize_context: "nf lim k \<Longrightarrow> nf lim (initialize_context i rip k)"
  unfolding initialize_context_def Let_def by (rule nf_set_keep) simp_all

lemma nf_load_flat: "nf lim k \<Longrightarrow> i < 8 \<Longrightarrow> nfo lim (load_flat_probe i pid bs k)"
  unfolding load_flat_probe_def
  by (assumption | rule nfo_case nfo_rules nf_leaves nf_prepare nf_load_pages nf_set nf_initialize_context | (simp add: nf_proc; fail))+

lemma nf_load_elf: "nf lim k \<Longrightarrow> i < 8 \<Longrightarrow> nfo lim (load_elf_app i pid app k)"
  unfolding load_elf_app_def
  by (assumption | rule nfo_case nfo_rules nf_leaves nf_prepare nf_load_segments nf_set nf_initialize_context | (simp add: nf_proc; fail))+

lemma nfo_bind: "nfo lim m \<Longrightarrow> (\<And>b k. nf lim k \<Longrightarrow> nfo lim' (f (b, k))) \<Longrightarrow> nfo lim' (Option.bind m f)"
  by (auto simp: nfo_def bind_eq_Some_conv)

lemma nf_load_probes: "nf lim k \<Longrightarrow> list_all (\<lambda>i. i < 8) xs \<Longrightarrow> lim + length xs \<le> 8 \<Longrightarrow> nfo 8 (load_probes env xs k)"
proof (induction xs arbitrary: k lim)
  case Nil
  then show ?case using nf_mono by (simp add: nfo_def)
next
  case (Cons i xs)
  have r: "nf lim k \<Longrightarrow> nf 8 (fold release_process ys k)" for ys k
    using Cons.prems(3) nf_mono [of lim _ 8] by (induction ys arbitrary: k) (simp_all add: nf_release)
  have next_: "nf (Suc lim) (k\<lparr>k_configured_processes := k_configured_processes k + 1\<rparr>)" if "nf lim k" for k
    using that Cons.prems(3) by (auto simp: nf_def unat_word_ariths)
  have load: "nfo lim (load_flat_probe i pid bs k)" if "nf lim k" for pid bs k
    using nf_load_flat [OF that] Cons.prems(2) by simp
  show ?case unfolding load_probes.simps Let_def
  proof (rule nfo_bind [OF load])
    show "nf lim (k\<lparr>k_next_pid := k_next_pid k + 1\<rparr>)" using Cons.prems(1) by simp
    fix b k assume "nf lim k"
    then show "nfo 8 (case (b, k) of (ok, k) \<Rightarrow> if ok then load_probes env xs (k\<lparr>k_configured_processes := k_configured_processes k + 1\<rparr>)
        else Some (False, fold release_process [0..<i + 1] k))"
      using Cons.IH [OF next_] r Cons.prems by (auto simp: nfo_def nf_release)
  qed
qed

lemma nf_zeroed: "nf lim k \<Longrightarrow> nf lim (k\<lparr>k_processes := fold (\<lambda>index ps. ps[index := zero_process]) [0..<8] (k_processes k)\<rparr>)"
  using fold_update_upt [of 8 "k_processes k" "\<lambda>_. zero_process"] by (simp add: nf_def list_all_length)

lemma nfo_let0: "nf 0 e \<Longrightarrow> (\<And>k. nf 0 k \<Longrightarrow> nfo 8 (f k)) \<Longrightarrow> nfo 8 (Let e f)"
  by (simp add: Let_def)

lemma nf_process_init: "nf 8 k \<Longrightarrow> nfo 8 (process_init env ks k)"
  unfolding process_init_def
  by (assumption | rule nfo_let0 nfo_rules nfp_rules(1) nf_load_probes nf_zeroed | (simp add: nf_def; fail) | (simp add: list_all_length; fail))+

text \<open>System calls, interrupts and runs keep every capability table.\<close>

lemma nf_standing:
  assumes "standing k' = standing k"
  shows "nf lim k' = nf lim k"
proof -
  have "nf lim k \<longleftrightarrow> length (fst (standing k)) = 8 \<and> list_all netless (fst (standing k)) \<and> unat (fst (snd (standing k))) \<le> lim" for k
    by (simp add: nf_def standing_def list_all_length netfree_def)
  then show ?thesis using assms by simp
qed

lemma nf_resume:
  assumes "handlers_quiet env" "nf lim k"
  shows "nfo lim (arch_resume_user env c k)"
  unfolding nfo_def
proof (intro allI impI)
  fix b k' assume "arch_resume_user env c k = Some (b, k')"
  then have "standing k' = standing k" using standing_run.resume_related assms(1) by fastforce
  then show "nf lim k'" using nf_standing assms(2) by blast
qed

lemma nf_dispatch: "handlers_quiet env \<Longrightarrow> nf lim k \<Longrightarrow> nfo lim (dispatch_process env index k)"
  unfolding dispatch_process_def
  by (assumption | rule nfo_rules nfp_rules(1) nf_resume nf_set_keep | (simp; fail))+

section \<open>Every state of the running system\<close>

lemma app_slot_less: "\<not> ARGUS_PROCESS_MAX \<le> app_slot env app_id \<Longrightarrow> unat (app_slot env app_id) < 8"
  by (simp add: not_le word_less_nat_alt)

lemma find_app_less: "find_app env app_id k = Some i \<Longrightarrow> i < 8"
  by (auto simp: find_app_def Let_def word_less_nat_alt not_le split: if_splits)

lemma nf_start_attempts: "handlers_quiet env \<Longrightarrow> nf 8 k \<Longrightarrow> nfo 8 (start_attempts env s n k)"
proof (induction n arbitrary: k)
  case 0
  then show ?case by (simp add: nfo_def)
next
  case (Suc n)
  show ?case unfolding start_attempts.simps
    using Suc.prems by - (assumption | rule nfo_rules nfp_rules(1) nf_dispatch Suc.IH)+
qed

lemma nf_start_app: "handlers_quiet env \<Longrightarrow> nf 8 k \<Longrightarrow> nfo 8 (start_app_internal env app_id k)"
proof -
  assume a: "handlers_quiet env" "nf 8 k"
  show ?thesis
  proof (cases "ARGUS_PROCESS_MAX \<le> app_slot env app_id \<or> find_catalog env app_id = None")
    case True
    then show ?thesis using a by (auto simp: start_app_internal_def nfo_def Let_def split: option.splits)
  next
    case False
    then have i: "unat (app_slot env app_id) < 8" using app_slot_less by blast
    then have e: "unat (app_slot env app_id + 1) \<le> 8" by (simp add: unat_word_ariths)
    show ?thesis unfolding start_app_internal_def Let_def
      using a i e by - (assumption | rule nfo_rules nfp_rules(1) nf_load_elf nf_start_attempts nf_release | (simp; fail) | (split if_split; intro conjI impI))+
  qed
qed

lemma nf_self_test_dispatches: "handlers_quiet env \<Longrightarrow> nf 8 k \<Longrightarrow> nfo 8 (self_test_dispatches env n c k)"
proof (induction n arbitrary: k c)
  case 0
  then show ?case by (simp add: nfo_def)
next
  case (Suc n)
  show ?case unfolding self_test_dispatches.simps
    using Suc.prems by - (assumption | rule nfo_rules nfp_rules(1) nf_dispatch Suc.IH)+
qed

lemma nf_test_slot_probe:
  assumes "handlers_quiet env" "nf 8 k" "\<And>k. nf 8 k \<Longrightarrow> nf 8 (before k)"
  shows "nfo 8 (test_slot_probe env bs before expected k)"
  unfolding test_slot_probe_def using assms
  by - (assumption | rule nfo_rules nfp_rules(1) nf_dispatch nf_load_flat assms(3) | (simp add: nf_release; fail))+

lemma nf_start_apps: "handlers_quiet env \<Longrightarrow> nf 8 k \<Longrightarrow> nfo 8 (start_apps env xs k)"
proof (induction xs arbitrary: k)
  case Nil
  then show ?case by (simp add: nfo_def)
next
  case (Cons x xs)
  show ?case unfolding start_apps.simps
    using Cons.prems by - (assumption | rule nfo_rules nfp_rules(1) nf_start_app Cons.IH)+
qed

lemma nf_self_test: "handlers_quiet env \<Longrightarrow> nf 8 k \<Longrightarrow> nfo 8 (process_run_self_test env k)"
  unfolding process_run_self_test_def
  by (assumption | rule nfo_rules nfp_rules(1) nf_self_test_dispatches nf_test_slot_probe nf_start_apps | (simp; fail))+

lemma nf_fold: "(\<And>x k. nf 8 k \<Longrightarrow> nf 8 (f x k)) \<Longrightarrow> nf 8 k \<Longrightarrow> nf 8 (fold f xs k)"
  by (induction xs arbitrary: k) simp_all

lemma nf_wake: "nf 8 k \<Longrightarrow> nf 8 (wake_blocked_processes k)"
  unfolding wake_blocked_processes_def Let_def by (rule nf_fold) (auto intro!: nf_set_keep)

lemma nf_run_ready: "handlers_quiet env \<Longrightarrow> nf 8 k \<Longrightarrow> nfo 8 (process_run_ready_once env k)"
  unfolding process_run_ready_once_def
  by (assumption | rule nfo_rules nf_wake nf_dispatch | (simp; fail))+

lemma nf_set_active: "nf 8 k \<Longrightarrow> nf 8 (process_app_set_active env app_id k)"
  unfolding process_app_set_active_def by (rule nf_fold) (auto intro!: nf_set_keep)

lemma nf_app_start: "handlers_quiet env \<Longrightarrow> nf 8 k \<Longrightarrow> nfo 8 (process_app_start env app_id k)"
  unfolding process_app_start_def
  by (assumption | rule nfo_rules nfp_rules(1) nf_start_app | (auto simp: nf_release nf_set_active split: option.splits; fail))+

lemma nf_app_restart: "handlers_quiet env \<Longrightarrow> nf 8 k \<Longrightarrow> nfo 8 (process_app_restart env app_id k)"
  unfolding process_app_restart_def
  by (assumption | rule nfo_rules nfp_rules(1) nf_start_app | (auto simp: nf_release nf_set_active split: option.splits; fail))+

lemma nf_app_stop: "nf 8 k \<Longrightarrow> nf 8 (snd (process_app_stop env app_id k))"
  by (auto simp: process_app_stop_def nf_release split: option.splits)

lemma nf_app_input: "nf 8 k \<Longrightarrow> nf 8 (snd (process_app_input env app_id key k))"
  by (auto simp: process_app_input_def Let_def intro!: nf_set_keep split: option.splits)

text \<open>
  The states of the system: the zeroed tables of the boot, then everything that the kernel, its shell
  and the desktop do with processes, in any order and with any outcome.
\<close>

inductive system_state :: "environment \<Rightarrow> kernel \<Rightarrow> bool" for env where
  boot: "k_processes k = replicate 8 zero_process \<Longrightarrow> k_configured_processes k = 0 \<Longrightarrow> system_state env k"
| init: "system_state env k \<Longrightarrow> process_init env space k = Some (ok, k') \<Longrightarrow> system_state env k'"
| self_test: "system_state env k \<Longrightarrow> process_run_self_test env k = Some (ok, k') \<Longrightarrow> system_state env k'"
| run: "system_state env k \<Longrightarrow> process_run_ready_once env k = Some (ok, k') \<Longrightarrow> system_state env k'"
| start: "system_state env k \<Longrightarrow> process_app_start env app_id k = Some (ok, k') \<Longrightarrow> system_state env k'"
| restart: "system_state env k \<Longrightarrow> process_app_restart env app_id k = Some (ok, k') \<Longrightarrow> system_state env k'"
| stop: "system_state env k \<Longrightarrow> process_app_stop env app_id k = (ok, k') \<Longrightarrow> system_state env k'"
| focus: "system_state env k \<Longrightarrow> system_state env (process_app_set_active env app_id k)"
| key: "system_state env k \<Longrightarrow> process_app_input env app_id c k = (ok, k') \<Longrightarrow> system_state env k'"

lemma nfoD: "nfo 8 m \<Longrightarrow> m = Some (b, k) \<Longrightarrow> nf 8 k"
  by (simp add: nfo_def)

lemma system_state_nf: "system_state env k \<Longrightarrow> handlers_quiet env \<Longrightarrow> nf 8 k"
proof (induction rule: system_state.induct)
  case (boot k)
  then show ?case by (simp add: nf_def list_all_length)
next
  case (stop k app_id ok k')
  then show ?case using nf_app_stop [of k env app_id] by simp
next
  case (key k app_id c ok k')
  then show ?case using nf_app_input [of k env app_id c] by simp
qed (blast intro: nfoD nf_process_init nf_self_test nf_run_ready nf_app_start nf_app_restart nf_set_active)+

lemma fold_constant: "(\<And>x. x \<in> set xs \<Longrightarrow> f x a = a) \<Longrightarrow> fold f xs a = a"
  by (induction xs) simp_all

lemma netless_count:
  assumes "netless t" "type \<in> {5, 6}"
  shows "capability_count_type (Some t) type = 0"
proof -
  have "ucast (cap_type (cap_entries t ! i)) \<noteq> type" if "i < 16" for i
  proof -
    have "cap_type (cap_entries t ! i) < 5" using assms(1) that by (simp add: netless_def list_all_length)
    then show ?thesis using assms(2) by (auto simp: word_less_nat_alt word_unat_eq_iff unsigned_ucast_eq take_bit_nat_eq_self)
  qed
  then show ?thesis unfolding capability_count_type_def option.case by (intro fold_constant) auto
qed

lemma nf_counts: "nf 8 k \<Longrightarrow> type \<in> {5, 6} \<Longrightarrow> capability_total type k = 0"
  unfolding capability_total_def
  by (rule fold_constant) (auto simp: netless_count nf_def list_all_length netfree_def)

text \<open>
  Claim C4. No process ever holds the network. Whatever sequence of boots, self tests, scheduler rounds,
  starts, restarts, stops and key presses the kernel goes through, and whatever the programs do in user
  mode, the counts of raw network and of anonymous stream capabilities, which the kernel
  checks after its self test, are zero.
\<close>

theorem no_process_holds_network:
  assumes "handlers_quiet env" "system_state env k"
  shows "process_raw_network_capability_count k = 0 \<and> process_anonymous_stream_capability_count k = 0"
  using system_state_nf [OF assms(2,1)]
  by (simp add: process_raw_network_capability_count_def process_anonymous_stream_capability_count_def nf_counts)

definition kernel_boot :: kernel where
  "kernel_boot = (kernel_demo zero_user_space vm_example)\<lparr>k_processes := replicate 8 zero_process, k_configured_processes := 0,
     k_process_self_test_passed := True\<rparr>"

theorem no_process_holds_network_witness:
  "\<exists>k. system_state environment_demo k \<and> process_app_start environment_demo 1 kernel_boot = Some (False, k) \<and>
     process_raw_network_capability_count k = 0 \<and> process_anonymous_stream_capability_count k = 0"
proof -
  have b: "system_state environment_demo kernel_boot" by (rule system_state.boot) (simp_all add: kernel_boot_def)
  obtain k where s: "process_app_start environment_demo 1 kernel_boot = Some (False, k)"
    by (simp add: process_app_start_def kernel_boot_def kernel_demo_def find_app_def app_slot_def app_catalog_def upt_rec zero_process_def
        start_app_internal_def find_catalog_def environment_demo_def load_elf_app_def Let_def)
  show ?thesis using no_process_holds_network [OF environment_demo_ok(1) system_state.start [OF b s]] system_state.start [OF b s] s
    by blast
qed

end
