(* ===== verification/Ramfs.thy ===== *)
theory Ramfs
  imports Argus_Prelude
begin

text \<open>
  The memory file system: the Rust module \<^verbatim>\<open>src/rust_ramfs.rs\<close>, which keeps sixteen bounded files in one
  block of memory, and the C side \<^verbatim>\<open>src/ramfs.c\<close>, which checks the descriptor of the module and calls
  it. A buffer handed over a pointer is the list of its bytes, a null pointer is \<^term>\<open>None\<close>.
\<close>

section \<open>The Rust module\<close>

abbreviation (input) NAME_CAPACITY :: nat where "NAME_CAPACITY \<equiv> 24"
abbreviation (input) FILE_CAPACITY :: nat where "FILE_CAPACITY \<equiv> 16"
abbreviation (input) PATH_CAPACITY :: nat where "PATH_CAPACITY \<equiv> 48"
abbreviation (input) DATA_CAPACITY :: nat where "DATA_CAPACITY \<equiv> 1024"
abbreviation (input) RAMFS_MAGIC :: u64 where "RAMFS_MAGIC \<equiv> 0x4152475553524653"
abbreviation (input) RAMFS_SIZE :: u64 where "RAMFS_SIZE \<equiv> 17232"
abbreviation (input) RAMFS_ALIGN :: u64 where "RAMFS_ALIGN \<equiv> 16"

abbreviation (input) RAMFS_OK :: int where "RAMFS_OK \<equiv> 0"
abbreviation (input) RAMFS_NOT_FOUND :: int where "RAMFS_NOT_FOUND \<equiv> - 1"
abbreviation (input) RAMFS_INVALID :: int where "RAMFS_INVALID \<equiv> - 2"
abbreviation (input) RAMFS_NO_SPACE :: int where "RAMFS_NO_SPACE \<equiv> - 3"
abbreviation (input) RAMFS_BUFFER_TOO_SMALL :: int where "RAMFS_BUFFER_TOO_SMALL \<equiv> - 4"

record file_entry =
  fe_used :: u8
  fe_path_length :: u8
  fe_data_length :: u16
  fe_path :: "u8 list"
  fe_data :: "u8 list"

record ramfs =
  rf_magic :: u64
  rf_file_count :: u32
  rf_reserved :: u32
  rf_files :: "file_entry list"

record ramfs_input =
  in_pointer :: "u8 list"
  in_length :: nat

definition zero_entry :: file_entry where
  "zero_entry = \<lparr>fe_used = 0, fe_path_length = 0, fe_data_length = 0,
     fe_path = replicate PATH_CAPACITY 0, fe_data = replicate DATA_CAPACITY 0\<rparr>"

definition zero_ramfs :: ramfs where
  "zero_ramfs = \<lparr>rf_magic = 0, rf_file_count = 0, rf_reserved = 0, rf_files = replicate FILE_CAPACITY zero_entry\<rparr>"

definition checked_input :: "u8 list option \<Rightarrow> u64 \<Rightarrow> nat \<Rightarrow> ramfs_input option" where
  "checked_input pointer len maximum =
    (if of_nat maximum < len \<or> (len \<noteq> 0 \<and> pointer = None) then None
     else Some \<lparr>in_pointer = (case pointer of None \<Rightarrow> [] | Some bs \<Rightarrow> bs), in_length = unat len\<rparr>)"

definition input_at :: "ramfs_input \<Rightarrow> nat \<Rightarrow> u8" where
  "input_at input index = in_pointer input ! index"

text \<open>The loop of \<^verbatim>\<open>valid_path\<close>: \<^verbatim>\<open>segment_start\<close> and \<^verbatim>\<open>index\<close> are its variables.\<close>

function valid_path_loop :: "ramfs_input \<Rightarrow> nat \<Rightarrow> nat \<Rightarrow> bool" where
  "valid_path_loop path segment_start index =
    (if in_length path < index then True
     else if index = in_length path \<or> input_at path index = 47 then
       let segment_length = index - segment_start in
       if segment_length = 0 \<or> (segment_length = 1 \<and> input_at path segment_start = 46) \<or>
          (segment_length = 2 \<and> input_at path segment_start = 46 \<and> input_at path (segment_start + 1) = 46)
       then False
       else valid_path_loop path (index + 1) (index + 1)
     else
       let byte = input_at path index in
       if \<not> (33 \<le> byte \<and> byte \<le> 126) \<or> byte = 92 then False
       else valid_path_loop path segment_start (index + 1))"
  by pat_completeness auto
termination by (relation "measure (\<lambda>(path, _, index). Suc (in_length path) - index)") auto

declare valid_path_loop.simps [simp del]

definition valid_path :: "ramfs_input \<Rightarrow> bool" where
  "valid_path path =
    (if in_length path < 2 \<or> input_at path 0 \<noteq> 47 \<or> input_at path (in_length path - 1) = 47 then False
     else valid_path_loop path 1 1)"

definition path_matches :: "file_entry \<Rightarrow> ramfs_input \<Rightarrow> bool" where
  "path_matches entry path =
    (let len = unat (fe_path_length entry) in
     if fe_used entry = 0 \<or> PATH_CAPACITY < len \<or> len \<noteq> in_length path then False
     else list_all (\<lambda>index. fe_path entry ! index = input_at path index) [0..<len])"

text \<open>One step of the loop of \<^verbatim>\<open>valid_filesystem\<close>: the count of live files, or the early return.\<close>

definition valid_entry :: "file_entry \<Rightarrow> u32 option \<Rightarrow> u32 option" where
  "valid_entry entry live =
    (case live of None \<Rightarrow> None
     | Some live \<Rightarrow>
       if fe_used entry \<noteq> 0 then
         if PATH_CAPACITY < unat (fe_path_length entry) \<or> DATA_CAPACITY < unat (fe_data_length entry) \<or>
            \<not> valid_path \<lparr>in_pointer = fe_path entry, in_length = unat (fe_path_length entry)\<rparr>
         then None else Some (live + 1)
       else if fe_path_length entry \<noteq> 0 \<or> fe_data_length entry \<noteq> 0 then None
       else Some live)"

definition valid_filesystem :: "ramfs \<Rightarrow> bool" where
  "valid_filesystem filesystem =
    (if of_nat FILE_CAPACITY < rf_file_count filesystem then False
     else fold (\<lambda>index. valid_entry (rf_files filesystem ! index)) [0..<FILE_CAPACITY] (Some 0) =
       Some (rf_file_count filesystem))"

text \<open>The state is an address and what is stored there. Readers and writers go through the same test.\<close>

type_synonym ramfs_state = "u64 \<times> ramfs"

definition state_mut :: "ramfs_state \<Rightarrow> ramfs option" where
  "state_mut state =
    (if fst state = 0 \<or> fst state AND (RAMFS_ALIGN - 1) \<noteq> 0 then None
     else if rf_magic (snd state) \<noteq> RAMFS_MAGIC \<or> \<not> valid_filesystem (snd state) then None
     else Some (snd state))"

definition state_ref :: "ramfs_state \<Rightarrow> ramfs option" where
  "state_ref state =
    (if fst state = 0 \<or> fst state AND (RAMFS_ALIGN - 1) \<noteq> 0 then None
     else if rf_magic (snd state) \<noteq> RAMFS_MAGIC \<or> \<not> valid_filesystem (snd state) then None
     else Some (snd state))"

definition ramfs_initialize :: "ramfs_state \<Rightarrow> u64 \<Rightarrow> int \<times> ramfs" where
  "ramfs_initialize state state_size =
    (if fst state = 0 \<or> state_size < RAMFS_SIZE \<or> fst state AND (RAMFS_ALIGN - 1) \<noteq> 0
     then (RAMFS_INVALID, snd state)
     else (RAMFS_OK, zero_ramfs\<lparr>rf_magic := RAMFS_MAGIC\<rparr>))"

text \<open>\<^verbatim>\<open>ptr::copy_nonoverlapping\<close>: the first bytes of a buffer replaced by those of another.\<close>

definition copy_nonoverlapping :: "u8 list \<Rightarrow> u8 list \<Rightarrow> nat \<Rightarrow> u8 list" where
  "copy_nonoverlapping source destination count = take count source @ drop count destination"

fun write_scan :: "file_entry list \<Rightarrow> ramfs_input \<Rightarrow> nat list \<Rightarrow> nat \<Rightarrow> nat \<times> nat" where
  "write_scan files path [] free = (FILE_CAPACITY, free)"
| "write_scan files path (index # rest) free =
    (if path_matches (files ! index) path then (index, free)
     else write_scan files path rest (if free = FILE_CAPACITY \<and> fe_used (files ! index) = 0 then index else free))"

definition store_file :: "ramfs_input \<Rightarrow> ramfs_input \<Rightarrow> file_entry \<Rightarrow> file_entry" where
  "store_file path data entry = entry\<lparr>fe_used := 1, fe_path_length := of_nat (in_length path),
     fe_data_length := of_nat (in_length data),
     fe_path := copy_nonoverlapping (in_pointer path) (replicate PATH_CAPACITY 0) (in_length path),
     fe_data := (if in_length data \<noteq> 0 then copy_nonoverlapping (in_pointer data) (replicate DATA_CAPACITY 0) (in_length data)
       else replicate DATA_CAPACITY 0)\<rparr>"

definition write_file :: "ramfs_state \<Rightarrow> u8 list option \<Rightarrow> u64 \<Rightarrow> u8 list option \<Rightarrow> u64 \<Rightarrow> int \<times> ramfs" where
  "write_file state path_pointer path_length data_pointer data_length =
    (case checked_input path_pointer path_length PATH_CAPACITY of None \<Rightarrow> (RAMFS_INVALID, snd state)
     | Some path \<Rightarrow>
       case checked_input data_pointer data_length DATA_CAPACITY of None \<Rightarrow> (RAMFS_NO_SPACE, snd state)
       | Some data \<Rightarrow>
         if \<not> valid_path path then (RAMFS_INVALID, snd state)
         else
           case state_mut state of None \<Rightarrow> (RAMFS_INVALID, snd state)
           | Some filesystem \<Rightarrow>
             let (existing, free) = write_scan (rf_files filesystem) path [0..<FILE_CAPACITY] FILE_CAPACITY;
                 chosen = (if existing < FILE_CAPACITY then existing else free) in
             if chosen = FILE_CAPACITY then (RAMFS_NO_SPACE, filesystem)
             else
               let entry = rf_files filesystem ! chosen;
                   filesystem = (if fe_used entry = 0 then filesystem\<lparr>rf_file_count := rf_file_count filesystem + 1\<rparr> else filesystem)
               in (RAMFS_OK, filesystem\<lparr>rf_files := (rf_files filesystem)[chosen := store_file path data entry]\<rparr>))"

text \<open>
  Readers return the status with the output buffer and the output length after the call. The pointer
  to the length is tested for null, so it is an option as well.
\<close>

definition read_file :: "ramfs_state \<Rightarrow> u8 list option \<Rightarrow> u64 \<Rightarrow> u8 list option \<Rightarrow> u64 \<Rightarrow> u64 option \<Rightarrow>
    int \<times> u8 list option \<times> u64 option" where
  "read_file state path_pointer path_length output output_capacity output_length =
    (case checked_input path_pointer path_length PATH_CAPACITY of None \<Rightarrow> (RAMFS_INVALID, output, output_length)
     | Some path \<Rightarrow>
       if \<not> valid_path path \<or> output_length = None then (RAMFS_INVALID, output, output_length)
       else
         case state_ref state of None \<Rightarrow> (RAMFS_INVALID, output, output_length)
         | Some filesystem \<Rightarrow>
           case find (\<lambda>index. path_matches (rf_files filesystem ! index) path) [0..<FILE_CAPACITY] of
             None \<Rightarrow> (RAMFS_NOT_FOUND, output, output_length)
           | Some index \<Rightarrow>
             let entry = rf_files filesystem ! index; len = unat (fe_data_length entry);
                 output_length = Some (of_nat len) in
             if output_capacity < of_nat len then (RAMFS_BUFFER_TOO_SMALL, output, output_length)
             else if len \<noteq> 0 then
               case output of None \<Rightarrow> (RAMFS_INVALID, output, output_length)
               | Some buffer \<Rightarrow> (RAMFS_OK, Some (copy_nonoverlapping (fe_data entry) buffer len), output_length)
             else (RAMFS_OK, output, output_length))"

text \<open>The file at an ordinal: the loop of \<^verbatim>\<open>entry_at\<close> up to its return.\<close>

fun entry_scan :: "file_entry list \<Rightarrow> u64 \<Rightarrow> nat list \<Rightarrow> u64 \<Rightarrow> nat option" where
  "entry_scan files requested [] ordinal = None"
| "entry_scan files requested (index # rest) ordinal =
    (if fe_used (files ! index) \<noteq> 0 then
       if ordinal = requested then Some index else entry_scan files requested rest (ordinal + 1)
     else entry_scan files requested rest ordinal)"

definition entry_at :: "ramfs_state \<Rightarrow> u64 \<Rightarrow> u8 list option \<Rightarrow> u64 \<Rightarrow> u64 option \<Rightarrow> u64 option \<Rightarrow>
    int \<times> u8 list option \<times> u64 option \<times> u64 option" where
  "entry_at state requested path_output path_capacity path_length data_length =
    (if path_length = None \<or> data_length = None then (RAMFS_INVALID, path_output, path_length, data_length)
     else
       case state_ref state of None \<Rightarrow> (RAMFS_INVALID, path_output, path_length, data_length)
       | Some filesystem \<Rightarrow>
         case entry_scan (rf_files filesystem) requested [0..<FILE_CAPACITY] 0 of
           None \<Rightarrow> (RAMFS_NOT_FOUND, path_output, path_length, data_length)
         | Some index \<Rightarrow>
           let entry = rf_files filesystem ! index; len = unat (fe_path_length entry);
               path_length = Some (of_nat len); data_length = Some (ucast (fe_data_length entry)) in
           if path_capacity < of_nat len then (RAMFS_BUFFER_TOO_SMALL, path_output, path_length, data_length)
           else if len \<noteq> 0 then
             case path_output of None \<Rightarrow> (RAMFS_INVALID, path_output, path_length, data_length)
             | Some buffer \<Rightarrow>
               (RAMFS_OK, Some (copy_nonoverlapping (fe_path entry) buffer len), path_length, data_length)
           else (RAMFS_OK, path_output, path_length, data_length))"

definition remove_file :: "ramfs_state \<Rightarrow> u8 list option \<Rightarrow> u64 \<Rightarrow> int \<times> ramfs" where
  "remove_file state path_pointer path_length =
    (case checked_input path_pointer path_length PATH_CAPACITY of None \<Rightarrow> (RAMFS_INVALID, snd state)
     | Some path \<Rightarrow>
       if \<not> valid_path path then (RAMFS_INVALID, snd state)
       else
         case state_mut state of None \<Rightarrow> (RAMFS_INVALID, snd state)
         | Some filesystem \<Rightarrow>
           case find (\<lambda>index. path_matches (rf_files filesystem ! index) path) [0..<FILE_CAPACITY] of
             None \<Rightarrow> (RAMFS_NOT_FOUND, filesystem)
           | Some index \<Rightarrow>
             (RAMFS_OK, filesystem\<lparr>rf_files := (rf_files filesystem)[index := (rf_files filesystem ! index)\<lparr>
                 fe_used := 0, fe_path_length := 0, fe_data_length := 0,
                 fe_path := replicate PATH_CAPACITY 0, fe_data := replicate DATA_CAPACITY 0\<rparr>],
               rf_file_count := rf_file_count filesystem - 1\<rparr>))"

section \<open>The C side\<close>

abbreviation (input) RAMFS_STATE_CAPACITY :: nat where "RAMFS_STATE_CAPACITY \<equiv> 32768"
abbreviation (input) RAMFS_STATE_ALIGNMENT :: u32 where "RAMFS_STATE_ALIGNMENT \<equiv> 16"

text \<open>The descriptor of a file system module: its layout, its limits and its functions, any of which may be null.\<close>

record argus_ramfs_v1 =
  rd_abi_version :: u32
  rd_struct_size :: u32
  rd_name :: "u8 list"
  rd_state_size :: u32
  rd_state_alignment :: u32
  rd_max_files :: u32
  rd_max_path :: u32
  rd_max_data :: u32
  rd_reserved :: u32
  rd_initialize :: "(ramfs_state \<Rightarrow> u64 \<Rightarrow> int \<times> ramfs) option"
  rd_write :: "(ramfs_state \<Rightarrow> u8 list option \<Rightarrow> u64 \<Rightarrow> u8 list option \<Rightarrow> u64 \<Rightarrow> int \<times> ramfs) option"
  rd_read :: "(ramfs_state \<Rightarrow> u8 list option \<Rightarrow> u64 \<Rightarrow> u8 list option \<Rightarrow> u64 \<Rightarrow> u64 option \<Rightarrow>
    int \<times> u8 list option \<times> u64 option) option"
  rd_entry :: "(ramfs_state \<Rightarrow> u64 \<Rightarrow> u8 list option \<Rightarrow> u64 \<Rightarrow> u64 option \<Rightarrow> u64 option \<Rightarrow>
    int \<times> u8 list option \<times> u64 option \<times> u64 option) option"
  rd_remove :: "(ramfs_state \<Rightarrow> u8 list option \<Rightarrow> u64 \<Rightarrow> int \<times> ramfs) option"

definition ramfs_module :: argus_ramfs_v1 where
  "ramfs_module = \<lparr>rd_abi_version = 1, rd_struct_size = 96,
     rd_name = [114, 117, 115, 116, 46, 114, 97, 109, 102, 115] @ replicate 14 0,
     rd_state_size = ucast RAMFS_SIZE, rd_state_alignment = ucast RAMFS_ALIGN,
     rd_max_files = of_nat FILE_CAPACITY, rd_max_path = of_nat PATH_CAPACITY, rd_max_data = of_nat DATA_CAPACITY,
     rd_reserved = 0, rd_initialize = Some ramfs_initialize, rd_write = Some write_file, rd_read = Some read_file,
     rd_entry = Some entry_at, rd_remove = Some remove_file\<rparr>"

text \<open>
  The static variables of \<^verbatim>\<open>ramfs.c\<close>: the storage, at the address the linker gives it, and the descriptor
  in use.
\<close>

record ramfs_globals =
  rg_address :: u64
  rg_storage :: ramfs
  rg_filesystem :: "argus_ramfs_v1 option"

fun valid_name_loop :: "u8 list \<Rightarrow> nat list \<Rightarrow> bool" where
  "valid_name_loop name [] = False"
| "valid_name_loop name (i # rest) =
    (let character = name ! i in
     if character = 0 then i \<noteq> 0
     else if character < 32 \<or> 126 < character then False
     else valid_name_loop name rest)"

definition valid_name :: "u8 list \<Rightarrow> bool" where
  "valid_name name = valid_name_loop name [0..<NAME_CAPACITY]"

definition valid_descriptor :: "argus_ramfs_v1 option \<Rightarrow> bool" where
  "valid_descriptor descriptor =
    (case descriptor of None \<Rightarrow> False
     | Some d \<Rightarrow> rd_abi_version d = 1 \<and> rd_struct_size d = 96 \<and> valid_name (rd_name d) \<and> rd_state_size d \<noteq> 0 \<and>
         rd_state_size d \<le> of_nat RAMFS_STATE_CAPACITY \<and> rd_state_alignment d \<noteq> 0 \<and>
         rd_state_alignment d AND (rd_state_alignment d - 1) = 0 \<and> rd_state_alignment d \<le> RAMFS_STATE_ALIGNMENT \<and>
         rd_max_files d = of_nat FILE_CAPACITY \<and> rd_max_path d = of_nat PATH_CAPACITY \<and>
         rd_max_data d = of_nat DATA_CAPACITY \<and> rd_reserved d = 0 \<and> rd_initialize d \<noteq> None \<and>
         rd_write d \<noteq> None \<and> rd_read d \<noteq> None \<and> rd_entry d \<noteq> None \<and> rd_remove d \<noteq> None)"

text \<open>
  A C string is the list of its bytes before the terminator, which is read at its length. The loop stops
  at the terminator or past the maximum, so no byte behind the terminator is read.
\<close>

function bounded_length_loop :: "u8 list \<Rightarrow> u64 \<Rightarrow> nat \<Rightarrow> nat" where
  "bounded_length_loop text maximum count =
    (if count \<le> unat maximum \<and> (text @ [0]) ! count \<noteq> 0 then bounded_length_loop text maximum (count + 1) else count)"
  by pat_completeness auto
termination by (relation "measure (\<lambda>(text, maximum, count). Suc (unat maximum) - count)") auto

declare bounded_length_loop.simps [simp del]

definition bounded_length :: "u8 list option \<Rightarrow> u64 \<Rightarrow> u64 option" where
  "bounded_length text maximum =
    (case text of None \<Rightarrow> None
     | Some text \<Rightarrow>
       let count = bounded_length_loop text maximum 0
       in if unat maximum < count then None else Some (of_nat count))"

text \<open>Calls through the descriptor. A null function is never called: \<^verbatim>\<open>ramfs_init\<close> tested the descriptor.\<close>

definition reset_filesystem :: "ramfs_globals \<Rightarrow> bool \<times> ramfs_globals" where
  "reset_filesystem g =
    (case rg_filesystem g of None \<Rightarrow> (False, g)
     | Some d \<Rightarrow>
       let (status, storage) = the (rd_initialize d) (rg_address g, rg_storage g) (of_nat RAMFS_STATE_CAPACITY)
       in (status = RAMFS_OK, g\<lparr>rg_storage := storage\<rparr>))"

definition ramfs_write :: "u8 list option \<Rightarrow> u8 list option \<Rightarrow> u64 \<Rightarrow> ramfs_globals \<Rightarrow> int \<times> ramfs_globals" where
  "ramfs_write path data len g =
    (case rg_filesystem g of None \<Rightarrow> (RAMFS_INVALID, g)
     | Some d \<Rightarrow>
       case bounded_length path (ucast (rd_max_path d)) of None \<Rightarrow> (RAMFS_INVALID, g)
       | Some path_length \<Rightarrow>
         let (status, storage) = the (rd_write d) (rg_address g, rg_storage g) path path_length data len
         in (status, g\<lparr>rg_storage := storage\<rparr>))"

definition ramfs_read :: "u8 list option \<Rightarrow> u8 list option \<Rightarrow> u64 \<Rightarrow> u64 option \<Rightarrow> ramfs_globals \<Rightarrow>
    int \<times> u8 list option \<times> u64 option" where
  "ramfs_read path output capacity len g =
    (case rg_filesystem g of None \<Rightarrow> (RAMFS_INVALID, output, len)
     | Some d \<Rightarrow>
       case bounded_length path (ucast (rd_max_path d)) of None \<Rightarrow> (RAMFS_INVALID, output, len)
       | Some path_length \<Rightarrow> the (rd_read d) (rg_address g, rg_storage g) path path_length output capacity len)"

definition ramfs_entry :: "u64 \<Rightarrow> u8 list option \<Rightarrow> u64 \<Rightarrow> u64 option \<Rightarrow> u64 option \<Rightarrow> ramfs_globals \<Rightarrow>
    int \<times> u8 list option \<times> u64 option \<times> u64 option" where
  "ramfs_entry index path capacity path_length data_length g =
    (case rg_filesystem g of None \<Rightarrow> (RAMFS_INVALID, path, path_length, data_length)
     | Some d \<Rightarrow>
       if path = None \<or> capacity = 0 \<or> path_length = None \<or> data_length = None
       then (RAMFS_INVALID, path, path_length, data_length)
       else
         let (status, path, path_length, data_length) =
               the (rd_entry d) (rg_address g, rg_storage g) index path (capacity - 1) path_length data_length in
         if status = RAMFS_OK then
           if capacity \<le> the path_length then (RAMFS_INVALID, path, path_length, data_length)
           else (status, Some ((the path)[unat (the path_length) := 0]), path_length, data_length)
         else (status, path, path_length, data_length))"

definition ramfs_remove :: "u8 list option \<Rightarrow> ramfs_globals \<Rightarrow> int \<times> ramfs_globals" where
  "ramfs_remove path g =
    (case rg_filesystem g of None \<Rightarrow> (RAMFS_INVALID, g)
     | Some d \<Rightarrow>
       case bounded_length path (ucast (rd_max_path d)) of None \<Rightarrow> (RAMFS_INVALID, g)
       | Some path_length \<Rightarrow>
         let (status, storage) = the (rd_remove d) (rg_address g, rg_storage g) path path_length
         in (status, g\<lparr>rg_storage := storage\<rparr>))"

text \<open>The counting loop asks for one ordinal after the other, into a buffer of its own.\<close>

function ramfs_count_loop :: "argus_ramfs_v1 \<Rightarrow> ramfs_state \<Rightarrow> u64 \<Rightarrow> u64" where
  "ramfs_count_loop d state count =
    (if count < ucast (rd_max_files d) \<and>
        fst (the (rd_entry d) state count (Some (replicate 48 0)) 48 (Some 0) (Some 0)) = RAMFS_OK
     then ramfs_count_loop d state (count + 1) else count)"
  by pat_completeness auto
termination
proof (relation "measure (\<lambda>(d, _, count). unat (rd_max_files d) - unat count)", goal_cases)
  case (2 d state count)
  then have "unat count < unat (rd_max_files d)" by (simp add: word_less_nat_alt)
  then show ?case using unat_u32_less [of "rd_max_files d"] by (simp add: unat_word_ariths)
qed simp

declare ramfs_count_loop.simps [simp del]

definition ramfs_file_count :: "ramfs_globals \<Rightarrow> u64" where
  "ramfs_file_count g =
    (case rg_filesystem g of None \<Rightarrow> 0 | Some d \<Rightarrow> ramfs_count_loop d (rg_address g, rg_storage g) 0)"

definition ramfs_capacity :: "ramfs_globals \<Rightarrow> u64" where
  "ramfs_capacity g = (case rg_filesystem g of None \<Rightarrow> 0 | Some d \<Rightarrow> ucast (rd_max_files d))"

definition ramfs_max_file_size :: "ramfs_globals \<Rightarrow> u64" where
  "ramfs_max_file_size g = (case rg_filesystem g of None \<Rightarrow> 0 | Some d \<Rightarrow> ucast (rd_max_data d))"

definition ramfs_init :: "ramfs_globals \<Rightarrow> bool \<times> ramfs_globals" where
  "ramfs_init g =
    (let g = g\<lparr>rg_filesystem := Some ramfs_module\<rparr> in
     if \<not> valid_descriptor (rg_filesystem g) then (False, g\<lparr>rg_filesystem := None\<rparr>)
     else reset_filesystem g)"

definition bytes :: "string \<Rightarrow> u8 list" where "bytes text = map of_char text"

text \<open>The C conjunction stops at its first failure, so does the chain of calls.\<close>

definition seed_filesystem :: "ramfs_globals \<Rightarrow> bool \<times> ramfs_globals" where
  "seed_filesystem g =
    (let readme = bytes (''ArgusOS Rust RAMFS'' @ [CHR 0x0A]);
         motd = bytes (''memory-safe files, bounded by design'' @ [CHR 0x0A]);
         (status, g) = ramfs_write (Some (bytes ''/README'')) (Some readme) (of_nat (length readme)) g in
     if status \<noteq> RAMFS_OK then (False, g)
     else
       let (status, g) = ramfs_write (Some (bytes ''/etc/motd'')) (Some motd) (of_nat (length motd)) g
       in (status = RAMFS_OK, g))"

text \<open>
  The self test: each line is one call, its state handed on, and its verdict. Where C evaluates the call
  before \<^verbatim>\<open>&& valid\<close> the call is made in any case; within one condition later calls depend on the earlier ones.
\<close>

definition write_expect :: "string \<Rightarrow> u8 list \<Rightarrow> int \<Rightarrow> ramfs_globals \<Rightarrow> bool \<times> ramfs_globals" where
  "write_expect path data expected g =
    (let (status, g) = ramfs_write (Some (bytes path)) (Some data) (of_nat (length data)) g in (status = expected, g))"

definition remove_expect :: "string \<Rightarrow> int \<Rightarrow> ramfs_globals \<Rightarrow> bool \<times> ramfs_globals" where
  "remove_expect path expected g =
    (let (status, g) = ramfs_remove (Some (bytes path)) g in (status = expected, g))"

definition test_rejects :: "ramfs_globals \<Rightarrow> bool \<times> ramfs_globals" where
  "test_rejects g =
    (let (ok, g) = write_expect ''relative'' (bytes ''x'') RAMFS_INVALID g in
     if \<not> ok then (False, g)
     else let (ok, g) = write_expect ''/bad//path'' (bytes ''x'') RAMFS_INVALID g in
     if \<not> ok then (False, g)
     else write_expect ''/../escape'' (bytes ''x'') RAMFS_INVALID g)"

fun test_fill :: "nat list \<Rightarrow> bool \<Rightarrow> ramfs_globals \<Rightarrow> bool \<times> ramfs_globals" where
  "test_fill [] valid g = (valid, g)"
| "test_fill (i # rest) valid g =
    (let path = [CHR ''/'', CHR ''f'', ''0123456789ABCDEF'' ! i];
         (ok, g) = write_expect path [0x40 + of_nat i] RAMFS_OK g
     in test_fill rest (ok \<and> valid) g)"

fun test_entries :: "nat list \<Rightarrow> bool \<Rightarrow> u8 list option \<Rightarrow> u64 option \<Rightarrow> u64 option \<Rightarrow> ramfs_globals \<Rightarrow>
    bool \<times> u8 list option \<times> u64 option \<times> u64 option" where
  "test_entries [] valid path path_length data_length g = (valid, path, path_length, data_length)"
| "test_entries (i # rest) valid path path_length data_length g =
    (let (status, path, path_length, data_length) = ramfs_entry (of_nat i) path 49 path_length data_length g
     in test_entries rest (status = RAMFS_OK \<and> path_length \<noteq> Some 0 \<and> valid) path path_length data_length g)"

definition test_reads :: "bool \<Rightarrow> ramfs_globals \<Rightarrow> bool" where
  "test_reads valid g =
    (let (status, output, len) = ramfs_read (Some (bytes ''/fA'')) (Some [0, 0]) 1 (Some 0) g;
         valid = (status = RAMFS_BUFFER_TOO_SMALL \<and> len = Some 2 \<and> valid);
         (status, output, len) = ramfs_read (Some (bytes ''/fA'')) output 2 len g
     in status = RAMFS_OK \<and> the output ! 0 = 0x4A \<and> the output ! 1 = 0x5A \<and> len = Some 2 \<and> valid)"

definition ramfs_self_test :: "ramfs_globals \<Rightarrow> bool \<times> ramfs_globals" where
  "ramfs_self_test g =
    (let (ok, g) = reset_filesystem g in
     if \<not> ok then (False, g)
     else
       let (valid, g) = test_rejects g;
           (valid, g) = test_fill [0..<16] valid g;
           valid = (ramfs_file_count g = 16 \<and> valid);
           (ok, g) = write_expect ''/overflow'' (bytes ''x'') RAMFS_NO_SPACE g;
           valid = (ok \<and> valid);
           (ok, g) = write_expect ''/fA'' [0x4A, 0x5A] RAMFS_OK g;
           valid = (ok \<and> ramfs_file_count g = 16 \<and> valid);
           valid = test_reads valid g;
           (ok, g) = remove_expect ''/f0'' RAMFS_OK g;
           (ok, g) = (if ok then remove_expect ''/f0'' RAMFS_NOT_FOUND g else (False, g));
           valid = (ok \<and> valid);
           (ok, g) = write_expect ''/replacement'' (bytes ''ok'') RAMFS_OK g;
           valid = (ok \<and> valid);
           (valid, path, path_length, data_length) = test_entries [0..<16] valid (Some (replicate 49 0)) (Some 0) (Some 0) g;
           (status, path, path_length, data_length) = ramfs_entry 16 path 49 path_length data_length g;
           valid = (status = RAMFS_NOT_FOUND \<and> valid);
           (ok, g) = reset_filesystem g;
           (seeded, g) = (if ok then seed_filesystem g else (False, g))
       in (valid \<and> seeded \<and> ramfs_file_count g = 2, g))"

end
