(* ===== verification/Simulation.thy ===== *)
theory Simulation
  imports Main
begin

text \<open>
  Functional refinement of an interface: a component whose every operation gives the reply and the next
  state of a specification does so over whole sequences of operations.
\<close>

fun run_all :: "('op \<Rightarrow> 's \<Rightarrow> 'r \<times> 's) \<Rightarrow> 'op list \<Rightarrow> 's \<Rightarrow> 'r list \<times> 's" where
  "run_all step [] s = ([], s)"
| "run_all step (op # ops) s = (let (r, s) = step op s; (rs, s) = run_all step ops s in (r # rs, s))"

locale simulation =
  fixes step :: "'op \<Rightarrow> 's \<Rightarrow> 'r \<times> 's" and spec :: "'op \<Rightarrow> 'a \<Rightarrow> 'r \<times> 'a"
    and allowed :: "'op \<Rightarrow> bool" and inv :: "'s \<Rightarrow> bool" and abs :: "'s \<Rightarrow> 'a"
  assumes simulates: "inv s \<Longrightarrow> allowed op \<Longrightarrow> step op s = (r, s') \<Longrightarrow> inv s' \<and> spec op (abs s) = (r, abs s')"
begin

lemma run_refines:
  "inv s \<Longrightarrow> list_all allowed ops \<Longrightarrow> run_all step ops s = (rs, s') \<Longrightarrow>
    inv s' \<and> run_all spec ops (abs s) = (rs, abs s')"
proof (induction ops arbitrary: s rs s')
  case (Cons op ops)
  obtain r s1 where s1: "step op s = (r, s1)" by fastforce
  obtain rs1 s2 where s2: "run_all step ops s1 = (rs1, s2)" by fastforce
  have "inv s1 \<and> spec op (abs s) = (r, abs s1)" using simulates [OF Cons.prems(1) _ s1] Cons.prems(2) by simp
  moreover from this have "inv s2 \<and> run_all spec ops (abs s1) = (rs1, abs s2)" using Cons.IH [OF _ _ s2] Cons.prems(2) by simp
  ultimately show ?case using Cons.prems(3) s1 s2 by simp
qed simp

lemma run_append:
  "run_all step (xs @ ys) s = (let (rs, s) = run_all step xs s; (qs, s) = run_all step ys s in (rs @ qs, s))"
  by (induction xs arbitrary: s) (simp_all add: Let_def split_beta)

end

end
