(* ===== verification/Ramfs_Files.thy ===== *)
theory Ramfs_Files
  imports Ramfs Simulation
begin

text \<open>
  The memory file system is a bounded map from paths to contents: the path check against its
  specification, the invariant of the state, what each operation does to the files, and the refinement
  of the C interface over sequences of calls.
\<close>

section \<open>Valid paths\<close>

fun split_path :: "u8 list \<Rightarrow> u8 list list" where
  "split_path [] = [[]]"
| "split_path (c # cs) = (if c = 47 then [] # split_path cs else (c # hd (split_path cs)) # tl (split_path cs))"

definition path_byte :: "u8 \<Rightarrow> bool" where "path_byte c \<longleftrightarrow> 33 \<le> c \<and> c \<le> 126 \<and> c \<noteq> 92"

definition segment_ok :: "u8 list \<Rightarrow> bool" where
  "segment_ok seg \<longleftrightarrow> seg \<noteq> [] \<and> seg \<noteq> [46] \<and> seg \<noteq> [46, 46] \<and> list_all path_byte seg"

definition path_ok :: "u8 list \<Rightarrow> bool" where
  "path_ok p \<longleftrightarrow> (case p of [] \<Rightarrow> False | c # rest \<Rightarrow> c = 47 \<and> list_all segment_ok (split_path rest))"

definition input_bytes :: "ramfs_input \<Rightarrow> u8 list" where
  "input_bytes input = take (in_length input) (in_pointer input)"

lemma split_path_nonempty [simp]: "split_path p \<noteq> []"
  by (induction p) simp_all

lemma split_path_all: "list_all P (split_path p) \<longleftrightarrow> P (hd (split_path p)) \<and> list_all P (tl (split_path p))"
  by (cases "split_path p") simp_all

lemma split_path_append: "split_path (p @ [47]) = split_path p @ [[]]"
  by (induction p) (simp_all add: hd_append)

lemma segment_ok_append: "list_all path_byte seg \<Longrightarrow> path_byte c \<Longrightarrow> list_all path_byte (seg @ [c])"
  by simp

text \<open>The bytes of the segment that the loop is in, from its start up to the index.\<close>

definition segment_at :: "ramfs_input \<Rightarrow> nat \<Rightarrow> nat \<Rightarrow> u8 list" where
  "segment_at path start index = take (index - start) (drop start (in_pointer path))"

lemma segment_test:
  assumes "s \<le> i" "i \<le> length (in_pointer path)"
  shows "(i - s = 0 \<or> (i - s = 1 \<and> input_at path s = 46) \<or> (i - s = 2 \<and> input_at path s = 46 \<and> input_at path (s + 1) = 46)) \<longleftrightarrow>
     (segment_at path s i = [] \<or> segment_at path s i = [46] \<or> segment_at path s i = [46, 46])"
proof -
  have l: "length (segment_at path s i) = i - s" using assms by (simp add: segment_at_def)
  have n: "segment_at path s i ! j = input_at path (s + j)" if "j < i - s" for j
    using assms that by (simp add: segment_at_def input_at_def)
  have "segment_at path s i = xs \<longleftrightarrow> i - s = length xs \<and> (\<forall>j < length xs. input_at path (s + j) = xs ! j)" for xs
    using l n by (auto simp: list_eq_iff_nth_eq)
  from this [of "[]"] this [of "[46]"] this [of "[46, 46]"] show ?thesis by (simp add: less_Suc_eq numeral_2_eq_2) blast
qed

lemma segment_at_step:
  assumes "s \<le> i" "i < length (in_pointer path)"
  shows "segment_at path s (i + 1) = segment_at path s i @ [input_at path i]"
  using assms by (simp add: segment_at_def input_at_def Suc_diff_le take_Suc_conv_app_nth)

lemma drop_input: "i < in_length path \<Longrightarrow> in_length path \<le> length (in_pointer path) \<Longrightarrow>
    drop i (input_bytes path) = input_at path i # drop (i + 1) (input_bytes path)"
  using Cons_nth_drop_Suc [of i "input_bytes path"] by (simp add: input_bytes_def input_at_def)

lemma valid_path_loop_segments:
  assumes "in_length path \<le> length (in_pointer path)"
  shows "s \<le> i \<Longrightarrow> i \<le> in_length path \<Longrightarrow> list_all path_byte (segment_at path s i) \<Longrightarrow>
    valid_path_loop path s i \<longleftrightarrow> segment_ok (segment_at path s i @ hd (split_path (drop i (input_bytes path)))) \<and>
      list_all segment_ok (tl (split_path (drop i (input_bytes path))))"
proof (induction "in_length path - i" arbitrary: s i)
  case 0
  then have i: "i = in_length path" "drop i (input_bytes path) = []" by (simp_all add: input_bytes_def)
  have "valid_path_loop path (i + 1) (i + 1)" using i(1) by (subst valid_path_loop.simps) simp
  then have "valid_path_loop path s i \<longleftrightarrow>
      \<not> (segment_at path s i = [] \<or> segment_at path s i = [46] \<or> segment_at path s i = [46, 46])"
    using segment_test [of s i path] 0 assms i(1) by (subst valid_path_loop.simps) (simp add: Let_def)
  then show ?case using 0 i(2) by (simp add: segment_ok_def)
next
  case (Suc n)
  then have i: "i < in_length path" "i < length (in_pointer path)" using assms by simp_all
  note d = drop_input [OF i(1) assms]
  show ?case
  proof (cases "input_at path i = 47")
    case True
    have "segment_at path (i + 1) (i + 1) = []" by (simp add: segment_at_def)
    then have "valid_path_loop path (i + 1) (i + 1) \<longleftrightarrow> list_all segment_ok (split_path (drop (i + 1) (input_bytes path)))"
      using Suc.hyps(1) [of "i + 1" "i + 1"] Suc.hyps(2) i by (simp add: split_path_all)
    then show ?thesis using segment_test [of s i path] Suc.prems True i d
      by (subst valid_path_loop.simps) (auto simp add: Let_def segment_ok_def)
  next
    case False
    show ?thesis
    proof (cases "path_byte (input_at path i)")
      case byte: True
      then have "valid_path_loop path s i = valid_path_loop path s (i + 1)"
        using i False by (subst valid_path_loop.simps) (simp add: path_byte_def Let_def)
      moreover have "n = in_length path - (i + 1)" using Suc.hyps(2) by simp
      ultimately show ?thesis using Suc.hyps(1) [of "i + 1" s] Suc.prems i False d byte segment_at_step [of s i path]
        by simp
    next
      case byte: False
      then have "\<not> valid_path_loop path s i"
        using i False by (subst valid_path_loop.simps) (auto simp: path_byte_def Let_def)
      then show ?thesis using d False byte by (simp add: segment_ok_def)
    qed
  qed
qed

lemma path_ok_ends:
  assumes "path_ok p"
  shows "2 \<le> length p" "p ! 0 = 47" "p ! (length p - 1) \<noteq> 47"
proof -
  obtain rest where r: "p = 47 # rest" "list_all segment_ok (split_path rest)"
    using assms by (auto simp: path_ok_def split: list.splits)
  have ne: "rest \<noteq> []" using r(2) by (auto simp: segment_ok_def)
  have "last rest \<noteq> 47"
  proof
    assume "last rest = 47"
    then have "split_path rest = split_path (butlast rest) @ [[]]"
      using ne split_path_append [of "butlast rest"] append_butlast_last_id [OF ne] by simp
    then show False using r(2) by (simp add: segment_ok_def)
  qed
  then show "2 \<le> length p" "p ! 0 = 47" "p ! (length p - 1) \<noteq> 47"
    using r(1) ne by (auto simp: last_conv_nth Suc_le_eq)
qed

lemma valid_path_iff:
  assumes "in_length path \<le> length (in_pointer path)"
  shows "valid_path path \<longleftrightarrow> path_ok (input_bytes path)"
proof -
  have len: "length (input_bytes path) = in_length path" using assms by (simp add: input_bytes_def)
  have at: "input_bytes path ! j = input_at path j" if "j < in_length path" for j
    using assms that by (simp add: input_bytes_def input_at_def)
  show ?thesis
  proof (cases "in_length path < 2 \<or> input_at path 0 \<noteq> 47 \<or> input_at path (in_length path - 1) = 47")
    case True
    then show ?thesis using path_ok_ends [of "input_bytes path"] len at by (auto simp: valid_path_def)
  next
    case False
    then have l: "0 < in_length path" "1 \<le> in_length path" by simp_all
    have e: "input_bytes path = 47 # drop 1 (input_bytes path)" using drop_input [OF l(1) assms] False by simp
    have "valid_path path \<longleftrightarrow> valid_path_loop path 1 1" using False by (simp add: valid_path_def)
    also have "\<dots> \<longleftrightarrow> list_all segment_ok (split_path (drop 1 (input_bytes path)))"
      using valid_path_loop_segments [OF assms le_refl l(2)]
      by (simp add: segment_at_def split_path_all)
    also have "\<dots> \<longleftrightarrow> path_ok (input_bytes path)" by (subst (2) e) (simp add: path_ok_def)
    finally show ?thesis .
  qed
qed

section \<open>The files a state holds\<close>

definition live :: "file_entry \<Rightarrow> bool" where "live e \<longleftrightarrow> fe_used e \<noteq> 0"

definition file_name :: "file_entry \<Rightarrow> u8 list" where
  "file_name e = take (unat (fe_path_length e)) (fe_path e)"

definition file_bytes :: "file_entry \<Rightarrow> u8 list" where
  "file_bytes e = take (unat (fe_data_length e)) (fe_data e)"

definition entry_ok :: "file_entry \<Rightarrow> bool" where
  "entry_ok e \<longleftrightarrow> length (fe_path e) = PATH_CAPACITY \<and> length (fe_data e) = DATA_CAPACITY \<and>
     (if live e then unat (fe_path_length e) \<le> PATH_CAPACITY \<and> unat (fe_data_length e) \<le> DATA_CAPACITY \<and> path_ok (file_name e)
      else fe_path_length e = 0 \<and> fe_data_length e = 0)"

definition listing :: "file_entry list \<Rightarrow> (u8 list \<times> u8 list) list" where
  "listing files = map (\<lambda>e. (file_name e, file_bytes e)) (filter live files)"

definition view :: "ramfs \<Rightarrow> u8 list \<rightharpoonup> u8 list" where
  "view fs = map_of (listing (rf_files fs))"

definition ramfs_ok :: "ramfs \<Rightarrow> bool" where
  "ramfs_ok fs \<longleftrightarrow> rf_magic fs = RAMFS_MAGIC \<and> length (rf_files fs) = FILE_CAPACITY \<and> list_all entry_ok (rf_files fs) \<and>
     distinct (map fst (listing (rf_files fs))) \<and> unat (rf_file_count fs) = length (listing (rf_files fs))"

lemma listing_simps [simp]:
  "listing [] = []" "listing (xs @ ys) = listing xs @ listing ys"
  "listing (e # xs) = (if live e then (file_name e, file_bytes e) # listing xs else listing xs)"
  by (simp_all add: listing_def)

lemma listing_length: "length (listing xs) \<le> length xs"
  by (simp add: listing_def)

lemma ramfs_okD:
  assumes "ramfs_ok fs"
  shows "rf_magic fs = RAMFS_MAGIC" "length (rf_files fs) = 16" "list_all entry_ok (rf_files fs)"
    "distinct (map fst (listing (rf_files fs)))" "unat (rf_file_count fs) = length (listing (rf_files fs))"
  using assms by (simp_all add: ramfs_ok_def)

lemma entry_okD:
  assumes "ramfs_ok fs" "i < 16"
  shows "entry_ok (rf_files fs ! i)"
  using assms by (simp add: ramfs_ok_def list_all_length)

lemma path_matches_iff:
  assumes "entry_ok e" "in_length path \<le> length (in_pointer path)"
  shows "path_matches e path \<longleftrightarrow> live e \<and> file_name e = input_bytes path"
proof -
  have "file_name e = input_bytes path \<longleftrightarrow> unat (fe_path_length e) = in_length path \<and>
      (\<forall>j < unat (fe_path_length e). fe_path e ! j = input_at path j)" if "unat (fe_path_length e) \<le> 48"
    using assms that by (auto simp: entry_ok_def file_name_def input_bytes_def input_at_def list_eq_iff_nth_eq)
  then show ?thesis using assms(1)
    by (auto simp: path_matches_def Let_def live_def list_all_iff entry_ok_def)
qed

lemma fold_nth: "fold (\<lambda>i. f (xs ! i)) [0..<length xs] = fold f xs"
  using fold_map [of f "nth xs" "[0..<length xs]"] by (simp add: map_nth comp_def)

lemma fold_valid_entry: "list_all entry_ok xs \<Longrightarrow> fold valid_entry xs (Some n) = Some (n + of_nat (length (listing xs)))"
proof (induction xs arbitrary: n)
  case (Cons e xs)
  have "valid_entry e (Some n) = Some (if live e then n + 1 else n)"
  proof (cases "live e")
    case True
    let ?in = "\<lparr>in_pointer = fe_path e, in_length = unat (fe_path_length e)\<rparr>"
    have "input_bytes ?in = file_name e" by (simp add: input_bytes_def file_name_def)
    then have "valid_path ?in" using valid_path_iff [of ?in] Cons.prems True by (simp add: entry_ok_def)
    then show ?thesis using Cons.prems True by (simp add: valid_entry_def entry_ok_def live_def)
  qed (use Cons.prems in \<open>simp add: valid_entry_def entry_ok_def live_def\<close>)
  then show ?case using Cons by (simp add: add.assoc)
qed simp

lemma valid_filesystem_ok:
  assumes "ramfs_ok fs"
  shows "valid_filesystem fs"
proof -
  have l: "unat (rf_file_count fs) \<le> 16" using assms listing_length [of "rf_files fs"] by (simp add: ramfs_ok_def)
  then have "\<not> of_nat 16 < rf_file_count fs" by (simp add: word_less_nat_alt)
  moreover have "fold valid_entry (rf_files fs) (Some 0) = Some (rf_file_count fs)"
    using fold_valid_entry [of "rf_files fs" 0] assms of_nat_unat_id [of "rf_file_count fs"] by (simp add: ramfs_ok_def)
  moreover have "fold (\<lambda>index. valid_entry (rf_files fs ! index)) [0..<16] (Some 0) = fold valid_entry (rf_files fs) (Some 0)"
    using fold_nth [of valid_entry "rf_files fs"] assms by (simp add: ramfs_ok_def)
  ultimately show ?thesis by (simp add: valid_filesystem_def)
qed

definition storage_ok :: "u64 \<Rightarrow> bool" where "storage_ok addr \<longleftrightarrow> addr \<noteq> 0 \<and> addr AND 15 = 0"

lemma state_ok:
  assumes "ramfs_ok fs" "storage_ok addr"
  shows "state_mut (addr, fs) = Some fs" "state_ref (addr, fs) = Some fs"
  using assms valid_filesystem_ok [OF assms(1)] by (simp_all add: state_mut_def state_ref_def storage_ok_def ramfs_ok_def)

text \<open>Which entry a scan for a path finds.\<close>

lemma split_at:
  assumes "length xs = 16" "i < 16"
  obtains ys zs where "xs = ys @ xs ! i # zs" "length ys = i" "\<And>e. xs[i := e] = ys @ e # zs"
  using that [of "take i xs" "drop (Suc i) xs"] assms id_take_nth_drop [of i xs] upd_conv_take_nth_drop [of i xs]
  by simp

lemma find_match_None:
  assumes "ramfs_ok fs" "in_length path \<le> length (in_pointer path)"
    and "find (\<lambda>index. path_matches (rf_files fs ! index) path) [0..<16] = None"
  shows "view fs (input_bytes path) = None"
proof -
  have "\<forall>i<16. \<not> (live (rf_files fs ! i) \<and> file_name (rf_files fs ! i) = input_bytes path)"
    using assms(3) path_matches_iff [OF entry_okD [OF assms(1)] assms(2)] unfolding find_upt_None by blast
  then have "list_all (\<lambda>e. \<not> (live e \<and> file_name e = input_bytes path)) (rf_files fs)"
    unfolding list_all_length ramfs_okD(2) [OF assms(1)] .
  then have "input_bytes path \<notin> fst ` set (listing (rf_files fs))"
    by (induction "rf_files fs") (auto simp: listing_def list_all_iff)
  then show ?thesis by (simp add: view_def map_of_eq_None_iff)
qed

lemma find_match_Some:
  assumes "ramfs_ok fs" "in_length path \<le> length (in_pointer path)"
    and "find (\<lambda>index. path_matches (rf_files fs ! index) path) [0..<16] = Some i"
  shows "i < 16" "live (rf_files fs ! i)" "file_name (rf_files fs ! i) = input_bytes path"
    "view fs (input_bytes path) = Some (file_bytes (rf_files fs ! i))"
proof -
  have i: "i < 16" "path_matches (rf_files fs ! i) path" using assms(3) unfolding find_upt_Some by auto
  then show m: "i < 16" "live (rf_files fs ! i)" "file_name (rf_files fs ! i) = input_bytes path"
    using path_matches_iff [OF entry_okD [OF assms(1) i(1)] assms(2)] by auto
  have "rf_files fs ! i \<in> set (rf_files fs)" using assms(1) i(1) by (simp add: ramfs_ok_def)
  then have "(input_bytes path, file_bytes (rf_files fs ! i)) \<in> set (listing (rf_files fs))"
    using m by (force simp: listing_def)
  then show "view fs (input_bytes path) = Some (file_bytes (rf_files fs ! i))"
    using assms(1) by (simp add: view_def ramfs_ok_def map_of_is_SomeI)
qed


section \<open>What the operations do to the files\<close>

text \<open>The specification: a map from paths to contents, with room for sixteen.\<close>

definition put_file :: "u8 list \<Rightarrow> u8 list \<Rightarrow> (u8 list \<rightharpoonup> u8 list) \<Rightarrow> int \<times> (u8 list \<rightharpoonup> u8 list)" where
  "put_file p d m =
    (if PATH_CAPACITY < length p then (RAMFS_INVALID, m)
     else if DATA_CAPACITY < length d then (RAMFS_NO_SPACE, m)
     else if \<not> path_ok p then (RAMFS_INVALID, m)
     else if p \<in> dom m \<or> card (dom m) < FILE_CAPACITY then (RAMFS_OK, m(p \<mapsto> d))
     else (RAMFS_NO_SPACE, m))"

definition drop_file :: "u8 list \<Rightarrow> (u8 list \<rightharpoonup> u8 list) \<Rightarrow> int \<times> (u8 list \<rightharpoonup> u8 list)" where
  "drop_file p m =
    (if PATH_CAPACITY < length p \<or> \<not> path_ok p then (RAMFS_INVALID, m)
     else if p \<in> dom m then (RAMFS_OK, m(p := None)) else (RAMFS_NOT_FOUND, m))"

lemma dom_view: "dom (view fs) = fst ` set (listing (rf_files fs))"
  by (simp add: view_def dom_map_of_conv_image_fst)

lemma card_view: "ramfs_ok fs \<Longrightarrow> card (dom (view fs)) = length (listing (rf_files fs))"
  using distinct_card [of "map fst (listing (rf_files fs))"] by (simp add: dom_view ramfs_ok_def)

lemma map_of_middle: "p \<notin> fst ` set xs \<Longrightarrow> map_of (xs @ (p, d) # ys) = (map_of (xs @ ys))(p \<mapsto> d)"
  by (induction xs) (auto simp: fun_upd_twist)

lemma checked_input_bytes:
  assumes "maximum < 2 ^ 64" "unat len \<le> length bs"
  shows "checked_input (Some bs) len maximum =
    (if maximum < unat len then None else Some \<lparr>in_pointer = bs, in_length = unat len\<rparr>)"
  using assms by (simp add: checked_input_def word_less_nat_alt unat_of_nat)

lemma write_scan_find:
  "write_scan files path is free = (case find (\<lambda>i. path_matches (files ! i) path) is of
      Some i \<Rightarrow> (i, snd (write_scan files path is free))
    | None \<Rightarrow> (16, if free \<noteq> 16 then free else case find (\<lambda>i. fe_used (files ! i) = 0) is of None \<Rightarrow> 16 | Some i \<Rightarrow> i))"
  if "\<forall>i\<in>set is. i \<noteq> 16"
  using that by (induction "is" arbitrary: free) (auto split: option.splits)

text \<open>Storing a file in an entry.\<close>

lemma store_file_entry:
  assumes "entry_ok e" "in_length path \<le> length (in_pointer path)" "in_length data \<le> length (in_pointer data)"
    "in_length path \<le> 48" "in_length data \<le> 1024" "path_ok (input_bytes path)"
  shows "live (store_file path data e)" "file_name (store_file path data e) = input_bytes path"
    "file_bytes (store_file path data e) = input_bytes data" "entry_ok (store_file path data e)"
proof -
  have u: "unat (of_nat (in_length path) :: u8) = in_length path" "unat (of_nat (in_length data) :: u16) = in_length data"
    using assms(4,5) by (simp_all add: unat_of_nat)
  show n: "live (store_file path data e)" "file_name (store_file path data e) = input_bytes path"
    "file_bytes (store_file path data e) = input_bytes data"
    using u assms by (simp_all add: live_def store_file_def file_name_def file_bytes_def input_bytes_def copy_nonoverlapping_def)
  show "entry_ok (store_file path data e)"
    using n u assms unfolding entry_ok_def by (simp add: store_file_def copy_nonoverlapping_def)
qed

lemma replace_entry:
  assumes "ramfs_ok fs" "i < 16" "entry_ok e" "live e"
    and "live (rf_files fs ! i) \<Longrightarrow> file_name (rf_files fs ! i) = file_name e"
    and "\<not> live (rf_files fs ! i) \<Longrightarrow> view fs (file_name e) = None"
    and "fs' = fs\<lparr>rf_file_count := (if live (rf_files fs ! i) then rf_file_count fs else rf_file_count fs + 1),
      rf_files := (rf_files fs)[i := e]\<rparr>"
  shows "ramfs_ok fs'" "view fs' = (view fs)(file_name e \<mapsto> file_bytes e)"
proof -
  have l: "length (rf_files fs) = 16" using assms(1) by (simp add: ramfs_ok_def)
  obtain ys zs where s: "rf_files fs = ys @ rf_files fs ! i # zs" "\<And>e. (rf_files fs)[i := e] = ys @ e # zs"
    using split_at [OF l assms(2)] by metis
  let ?f = "rf_files fs ! i"
  have d: "distinct (map fst (listing (ys @ ?f # zs)))" using assms(1) s(1) by (simp add: ramfs_ok_def)
  have new: "file_name e \<notin> fst ` set (listing ys)" "file_name e \<notin> fst ` set (listing zs)"
  proof -
    have "file_name e \<notin> fst ` set (listing ys) \<and> file_name e \<notin> fst ` set (listing zs)"
    proof (cases "live ?f")
      case True
      then show ?thesis using d assms(5) by auto
    next
      case False
      then have "map_of (listing ys @ listing zs) (file_name e) = None"
        using assms(6) [OF False] unfolding view_def by (subst (asm) s(1)) simp
      then show ?thesis by (auto simp: map_of_eq_None_iff)
    qed
    then show "file_name e \<notin> fst ` set (listing ys)" "file_name e \<notin> fst ` set (listing zs)" by auto
  qed
  have v: "view fs' = (map_of (listing ys @ listing zs))(file_name e \<mapsto> file_bytes e)"
    using assms(4,7) s(2) new(1) by (simp add: view_def map_of_middle del: map_of_append)
  have "view fs = (if live ?f then (map_of (listing ys @ listing zs))(file_name e \<mapsto> file_bytes ?f) else map_of (listing ys @ listing zs))"
    using assms(5) new(1) unfolding view_def by (subst s(1)) (simp add: map_of_middle del: map_of_append)
  then show "view fs' = (view fs)(file_name e \<mapsto> file_bytes e)" using v by simp
  have c: "unat (rf_file_count fs) = length (listing (ys @ ?f # zs))" "length (listing (ys @ ?f # zs)) \<le> 16"
    using assms(1) s(1) listing_length [of "rf_files fs"] by (simp_all add: ramfs_ok_def)
  have "unat (if live ?f then rf_file_count fs else rf_file_count fs + 1) = length (listing (ys @ e # zs))"
    using c assms(4) by (auto simp: unat_word_ariths split: if_splits)
  moreover have "list_all entry_ok (ys @ e # zs)"
    using ramfs_okD(3) [OF assms(1)] assms(3) by (subst (asm) s(1)) simp
  moreover have "distinct (map fst (listing (ys @ e # zs)))" using d new assms(4) by (auto split: if_splits)
  moreover have "length (ys @ e # zs) = 16" using l s(2) [of e] by (metis length_list_update)
  ultimately show "ramfs_ok fs'" using assms(1,7) s(2) by (simp add: ramfs_ok_def)
qed

lemma write_scan_cases:
  assumes "ramfs_ok fs" "in_length path \<le> length (in_pointer path)"
    and "write_scan (rf_files fs) path [0..<16] 16 = (existing, free)"
    and "chosen = (if existing < 16 then existing else free)"
  obtains (found) "chosen < 16" "live (rf_files fs ! chosen)" "file_name (rf_files fs ! chosen) = input_bytes path"
      "input_bytes path \<in> dom (view fs)"
  | (fresh) "chosen < 16" "\<not> live (rf_files fs ! chosen)" "view fs (input_bytes path) = None" "card (dom (view fs)) < 16"
  | (full) "chosen = 16" "view fs (input_bytes path) = None" "card (dom (view fs)) = 16"
proof -
  have 16: "\<forall>i\<in>set [0..<16]. i \<noteq> 16" by simp
  show thesis
  proof (cases "find (\<lambda>i. path_matches (rf_files fs ! i) path) [0..<16]")
    case (Some i)
    note m = find_match_Some [OF assms(1,2) Some]
    have "chosen = i" using write_scan_find [OF 16, of "rf_files fs" path 16] Some assms(3,4) m(1) by simp
    then show thesis using found m by auto
  next
    case None
    note m = find_match_None [OF assms(1,2) None]
    have c: "chosen = (case find (\<lambda>i. fe_used (rf_files fs ! i) = 0) [0..<16] of None \<Rightarrow> 16 | Some i \<Rightarrow> i)"
      using write_scan_find [OF 16, of "rf_files fs" path 16] None assms(3,4) by simp
    show thesis
    proof (cases "find (\<lambda>i. fe_used (rf_files fs ! i) = 0) [0..<16]")
      case None
      then have "\<forall>i<16. live (rf_files fs ! i)" unfolding find_upt_None live_def by blast
      then have "list_all live (rf_files fs)" unfolding list_all_length ramfs_okD(2) [OF assms(1)] .
      then have "filter live (rf_files fs) = rf_files fs" by (simp add: filter_id_conv list_all_iff)
      then have "length (listing (rf_files fs)) = 16" using ramfs_okD(2) [OF assms(1)] by (simp add: listing_def)
      then show thesis using full c None m card_view [OF assms(1)] by simp
    next
      case (Some i)
      then have i: "i < 16" "\<not> live (rf_files fs ! i)" unfolding find_upt_Some live_def by auto
      then have "length (filter live (rf_files fs)) < length (rf_files fs)"
        using ramfs_okD(2) [OF assms(1)] by (intro length_filter_less [of "rf_files fs ! i"]) simp_all
      then have "length (listing (rf_files fs)) < 16" using ramfs_okD(2) [OF assms(1)] by (simp add: listing_def)
      then show thesis using fresh c Some i m card_view [OF assms(1)] by simp
    qed
  qed
qed

lemma write_file_spec:
  assumes "ramfs_ok fs" "storage_ok addr" "unat plen \<le> length p" "unat dlen \<le> length d"
    and "write_file (addr, fs) (Some p) plen (Some d) dlen = (status, fs')"
  shows "ramfs_ok fs' \<and> put_file (take (unat plen) p) (take (unat dlen) d) (view fs) = (status, view fs')"
proof -
  let ?path = "\<lparr>in_pointer = p, in_length = unat plen\<rparr>" and ?data = "\<lparr>in_pointer = d, in_length = unat dlen\<rparr>"
  have b: "input_bytes ?path = take (unat plen) p" "input_bytes ?data = take (unat dlen) d" by (simp_all add: input_bytes_def)
  have c: "checked_input (Some p) plen 48 = (if 48 < unat plen then None else Some ?path)"
    "checked_input (Some d) dlen 1024 = (if 1024 < unat dlen then None else Some ?data)"
    using assms(3,4) by (simp_all add: checked_input_bytes)
  have v: "valid_path ?path \<longleftrightarrow> path_ok (take (unat plen) p)" using valid_path_iff [of ?path] assms(3) b by simp
  show ?thesis
  proof (cases "48 < unat plen \<or> 1024 < unat dlen \<or> \<not> path_ok (take (unat plen) p)")
    case True
    then consider "48 < unat plen" | "\<not> 48 < unat plen" "1024 < unat dlen" |
      "\<not> 48 < unat plen" "\<not> 1024 < unat dlen" "\<not> path_ok (take (unat plen) p)" by blast
    then show ?thesis using assms v by cases (simp_all add: write_file_def put_file_def c)
  next
    case False
    then have ok: "unat plen \<le> 48" "unat dlen \<le> 1024" "path_ok (take (unat plen) p)" by simp_all
    obtain existing free where e: "write_scan (rf_files fs) ?path [0..<16] 16 = (existing, free)" by fastforce
    define chosen where "chosen = (if existing < 16 then existing else free)"
    let ?e = "store_file ?path ?data (rf_files fs ! chosen)"
    let ?fs = "fs\<lparr>rf_file_count := (if live (rf_files fs ! chosen) then rf_file_count fs else rf_file_count fs + 1),
      rf_files := (rf_files fs)[chosen := ?e]\<rparr>"
    have w: "(status, fs') = (if chosen = 16 then (RAMFS_NO_SPACE, fs) else (RAMFS_OK, ?fs))"
      using assms(5) ok c v state_ok(1) [OF assms(1,2)] e
      by (auto simp: write_file_def chosen_def Let_def live_def)
    have s: "live ?e" "file_name ?e = take (unat plen) p" "file_bytes ?e = take (unat dlen) d" "entry_ok ?e" if "chosen < 16"
      using store_file_entry [OF entry_okD [OF assms(1) that], of ?path ?data] assms(3,4) ok b by simp_all
    have p: "in_length ?path \<le> length (in_pointer ?path)" using assms(3) by simp
    show ?thesis
    proof (cases rule: write_scan_cases [OF assms(1) p e chosen_def])
      case 1
      then have "ramfs_ok ?fs \<and> view ?fs = (view fs)(take (unat plen) p \<mapsto> take (unat dlen) d)"
        using replace_entry [OF assms(1) 1(1) s(4,1) _ _ refl] s b by simp
      then show ?thesis using w 1 ok b assms(3,4) by (simp add: put_file_def)
    next
      case 2
      then have "ramfs_ok ?fs \<and> view ?fs = (view fs)(take (unat plen) p \<mapsto> take (unat dlen) d)"
        using replace_entry [OF assms(1) 2(1) s(4,1) _ _ refl] s b by simp
      then show ?thesis using w 2 ok b assms(3,4) by (simp add: put_file_def)
    next
      case 3
      then show ?thesis using w ok b assms(1,3,4) by (auto simp: put_file_def)
    qed
  qed
qed

lemma erase_entry:
  assumes "ramfs_ok fs" "i < 16" "live (rf_files fs ! i)" "entry_ok e" "\<not> live e"
    and "fs' = fs\<lparr>rf_files := (rf_files fs)[i := e], rf_file_count := rf_file_count fs - 1\<rparr>"
  shows "ramfs_ok fs'" "view fs' = (view fs)(file_name (rf_files fs ! i) := None)"
proof -
  obtain ys zs where s: "rf_files fs = ys @ rf_files fs ! i # zs" "\<And>e. (rf_files fs)[i := e] = ys @ e # zs"
    using split_at [OF ramfs_okD(2) [OF assms(1)] assms(2)] by metis
  let ?f = "rf_files fs ! i"
  have l: "listing (rf_files fs) = listing ys @ (file_name ?f, file_bytes ?f) # listing zs"
    using assms(3) by (subst s(1)) simp
  have d: "distinct (map fst (listing ys @ (file_name ?f, file_bytes ?f) # listing zs))"
    using ramfs_okD(4) [OF assms(1)] l by simp
  have l': "listing (rf_files fs') = listing ys @ listing zs" using assms(5,6) s(2) by simp
  have n: "map_of (listing ys @ listing zs) (file_name ?f) = None" using d by (simp add: map_of_eq_None_iff image_Un del: map_of_append)
  have "view fs = (map_of (listing ys @ listing zs))(file_name ?f \<mapsto> file_bytes ?f)"
    using d l by (simp add: view_def map_of_middle del: map_of_append)
  then show "view fs' = (view fs)(file_name ?f := None)" using l' n by (simp add: view_def fun_upd_idem del: map_of_append)
  have "unat (rf_file_count fs) = Suc (length (listing ys @ listing zs))" using ramfs_okD(5) [OF assms(1)] l by simp
  moreover from this have "rf_file_count fs \<noteq> 0" by auto
  ultimately have "unat (rf_file_count fs - 1) = length (listing ys @ listing zs)" by (simp add: unat_minus_one)
  moreover have "list_all entry_ok (ys @ e # zs)"
    using ramfs_okD(3) [OF assms(1)] assms(4) by (subst (asm) s(1)) simp
  moreover have "length (ys @ e # zs) = 16" using ramfs_okD(2) [OF assms(1)] s(2) [of e] by (metis length_list_update)
  ultimately show "ramfs_ok fs'" using assms(1,6) s(2) d l' by (simp add: ramfs_ok_def)
qed

lemma remove_file_spec:
  assumes "ramfs_ok fs" "storage_ok addr" "unat plen \<le> length p"
    and "remove_file (addr, fs) (Some p) plen = (status, fs')"
  shows "ramfs_ok fs' \<and> drop_file (take (unat plen) p) (view fs) = (status, view fs')"
proof -
  let ?path = "\<lparr>in_pointer = p, in_length = unat plen\<rparr>"
  have b: "input_bytes ?path = take (unat plen) p" by (simp add: input_bytes_def)
  have c: "checked_input (Some p) plen 48 = (if 48 < unat plen then None else Some ?path)"
    using assms(3) by (simp add: checked_input_bytes)
  have le: "in_length ?path \<le> length (in_pointer ?path)" using assms(3) by simp
  have v: "valid_path ?path \<longleftrightarrow> path_ok (take (unat plen) p)" using valid_path_iff [OF le] b by simp
  consider "48 < unat plen" | "\<not> 48 < unat plen" "\<not> path_ok (take (unat plen) p)"
    | (ok) "\<not> 48 < unat plen" "path_ok (take (unat plen) p)" by blast
  then show ?thesis
  proof cases
    case ok
    show ?thesis
    proof (cases "find (\<lambda>i. path_matches (rf_files fs ! i) ?path) [0..<16]")
      case None
      then show ?thesis using assms ok v state_ok(1) [OF assms(1,2)] find_match_None [OF assms(1) le None] b
        by (auto simp: remove_file_def c drop_file_def)
    next
      case (Some i)
      let ?f = "rf_files fs ! i"
      let ?e = "?f\<lparr>fe_used := 0, fe_path_length := 0, fe_data_length := 0,
         fe_path := replicate PATH_CAPACITY 0, fe_data := replicate DATA_CAPACITY 0\<rparr>"
      let ?fs = "fs\<lparr>rf_files := (rf_files fs)[i := ?e], rf_file_count := rf_file_count fs - 1\<rparr>"
      note m = find_match_Some [OF assms(1) le Some]
      have "entry_ok ?e" "\<not> live ?e" by (simp_all add: entry_ok_def live_def)
      then have r: "ramfs_ok ?fs" "view ?fs = (view fs)(file_name ?f := None)"
        using erase_entry [OF assms(1) m(1,2) _ _ refl] by blast+
      have "status = RAMFS_OK" "fs' = ?fs"
        using assms(4) ok v state_ok(1) [OF assms(1,2)] Some by (auto simp: remove_file_def c)
      then show ?thesis using r m b ok assms(3) by (auto simp: drop_file_def)
    qed
  qed (use assms v in \<open>simp_all add: remove_file_def drop_file_def c\<close>)
qed

text \<open>What a read returns: status, buffer and length.\<close>

definition get_file :: "u8 list \<Rightarrow> u8 list \<Rightarrow> u64 \<Rightarrow> u64 \<Rightarrow> (u8 list \<rightharpoonup> u8 list) \<Rightarrow> int \<times> u8 list \<times> u64" where
  "get_file p buffer capacity len m =
    (if PATH_CAPACITY < length p \<or> \<not> path_ok p then (RAMFS_INVALID, buffer, len)
     else case m p of None \<Rightarrow> (RAMFS_NOT_FOUND, buffer, len)
       | Some d \<Rightarrow> if unat capacity < length d then (RAMFS_BUFFER_TOO_SMALL, buffer, of_nat (length d))
           else (RAMFS_OK, d @ drop (length d) buffer, of_nat (length d)))"

lemma file_bytes_length: "ramfs_ok fs \<Longrightarrow> i < 16 \<Longrightarrow> live (rf_files fs ! i) \<Longrightarrow>
    length (file_bytes (rf_files fs ! i)) = unat (fe_data_length (rf_files fs ! i)) \<and>
    length (file_name (rf_files fs ! i)) = unat (fe_path_length (rf_files fs ! i))"
  using entry_okD [of fs i] by (simp add: entry_ok_def file_bytes_def file_name_def)

lemma read_file_spec:
  assumes "ramfs_ok fs" "storage_ok addr" "unat plen \<le> length p"
    and "get_file (take (unat plen) p) buffer capacity len (view fs) = (status, buffer', len')"
  shows "read_file (addr, fs) (Some p) plen (Some buffer) capacity (Some len) = (status, Some buffer', Some len')"
proof -
  let ?path = "\<lparr>in_pointer = p, in_length = unat plen\<rparr>"
  have b: "input_bytes ?path = take (unat plen) p" by (simp add: input_bytes_def)
  have c: "checked_input (Some p) plen 48 = (if 48 < unat plen then None else Some ?path)"
    using assms(3) by (simp add: checked_input_bytes)
  have le: "in_length ?path \<le> length (in_pointer ?path)" using assms(3) by simp
  have v: "valid_path ?path \<longleftrightarrow> path_ok (take (unat plen) p)" using valid_path_iff [OF le] b by simp
  consider "48 < unat plen" | "\<not> 48 < unat plen" "\<not> path_ok (take (unat plen) p)"
    | (ok) "\<not> 48 < unat plen" "path_ok (take (unat plen) p)" by blast
  then show ?thesis
  proof cases
    case ok
    show ?thesis
    proof (cases "find (\<lambda>i. path_matches (rf_files fs ! i) ?path) [0..<16]")
      case None
      then show ?thesis using assms ok v state_ok(2) [OF assms(1,2)] find_match_None [OF assms(1) le None] b
        by (simp add: read_file_def c get_file_def)
    next
      case (Some i)
      note m = find_match_Some [OF assms(1) le Some]
      let ?n = "fe_data_length (rf_files fs ! i)"
      have l: "length (file_bytes (rf_files fs ! i)) = unat ?n" using file_bytes_length [OF assms(1) m(1,2)] by blast
      have u: "unat (of_nat (unat ?n) :: u64) = unat ?n" using unat_u16_less [of ?n] by (simp add: unat_of_nat)
      have f: "take (unat ?n) (fe_data (rf_files fs ! i)) = file_bytes (rf_files fs ! i)" by (simp add: file_bytes_def)
      have z: "unat ?n = 0 \<longleftrightarrow> ?n = 0" by (simp add: word_unat_eq_iff)
      have "unat ?n = 0 \<Longrightarrow> file_bytes (rf_files fs ! i) = []" using l by simp
      then show ?thesis using assms(3,4) ok v state_ok(2) [OF assms(1,2)] Some m(4) b l u f z
        by (auto simp: read_file_def c get_file_def Let_def copy_nonoverlapping_def word_less_nat_alt split: if_splits)
    qed
  qed (use assms v in \<open>simp_all add: read_file_def get_file_def c\<close>)
qed


text \<open>Listing the files: the ordinals count the live entries.\<close>

lemma entry_scan_live:
  assumes "n + length is < 2 ^ 64"
  shows "entry_scan files r is (of_nat n) =
    (if n \<le> unat r \<and> unat r < n + length (filter (\<lambda>i. live (files ! i)) is) then Some (filter (\<lambda>i. live (files ! i)) is ! (unat r - n)) else None)"
  using assms
proof (induction "is" arbitrary: n)
  case (Cons i rest)
  have e: "(of_nat n :: u64) = r \<longleftrightarrow> n = unat r" using Cons.prems by (auto simp: word_unat_eq_iff unat_of_nat)
  have s: "of_nat n + (1 :: u64) = of_nat (n + 1)" by simp
  show ?case using Cons.IH [of n] Cons.IH [of "n + 1"] Cons.prems e
    by (auto simp: live_def s nth_Cons' simp del: of_nat_Suc)
qed simp

lemma filter_nth: "filter P xs = map (nth xs) (filter (\<lambda>i. P (xs ! i)) [0..<length xs])"
  using filter_map [of P "nth xs" "[0..<length xs]"] by (simp add: map_nth comp_def)

definition live_slots :: "ramfs \<Rightarrow> nat list" where
  "live_slots fs = filter (\<lambda>i. live (rf_files fs ! i)) [0..<FILE_CAPACITY]"

definition names :: "ramfs \<Rightarrow> u8 list list" where "names fs = map fst (listing (rf_files fs))"

lemma names_slots: "ramfs_ok fs \<Longrightarrow> names fs = map (\<lambda>i. file_name (rf_files fs ! i)) (live_slots fs)"
  using filter_nth [of live "rf_files fs"] by (simp add: names_def listing_def live_slots_def ramfs_okD)

lemma entry_at_spec:
  assumes "ramfs_ok fs" "storage_ok addr"
  shows "if unat r < length (names fs)
    then entry_at (addr, fs) r (Some buffer) capacity (Some l) (Some n) =
      (let p = names fs ! unat r; d = the (view fs p) in
       if unat capacity < length p then (RAMFS_BUFFER_TOO_SMALL, Some buffer, Some (of_nat (length p)), Some (of_nat (length d)))
       else (RAMFS_OK, Some (p @ drop (length p) buffer), Some (of_nat (length p)), Some (of_nat (length d))))
    else entry_at (addr, fs) r (Some buffer) capacity (Some l) (Some n) = (RAMFS_NOT_FOUND, Some buffer, Some l, Some n)"
proof -
  have s: "entry_scan (rf_files fs) r [0..<16] 0 = (if unat r < length (names fs) then Some (live_slots fs ! unat r) else None)"
    using entry_scan_live [of 0 "[0..<16]" "rf_files fs" r] names_slots [OF assms(1)] by (simp add: live_slots_def del: upt_eq_Cons_conv)
  show ?thesis
  proof (cases "unat r < length (names fs)")
    case False
    then show ?thesis using s state_ok(2) [OF assms] by (simp add: entry_at_def)
  next
    case True
    let ?i = "live_slots fs ! unat r"
    have "?i \<in> set (live_slots fs)" using True names_slots [OF assms(1)] by simp
    then have i: "?i < 16" "live (rf_files fs ! ?i)" by (simp_all add: live_slots_def)
    have p: "names fs ! unat r = file_name (rf_files fs ! ?i)" using True names_slots [OF assms(1)] by simp
    let ?f = "rf_files fs ! ?i"
    have "?f \<in> set (rf_files fs)" using i(1) ramfs_okD(2) [OF assms(1)] by simp
    then have "(file_name ?f, file_bytes ?f) \<in> set (listing (rf_files fs))" using i(2) by (force simp: listing_def)
    then have d: "the (view fs (file_name ?f)) = file_bytes ?f"
      using ramfs_okD(4) [OF assms(1)] by (simp add: view_def map_of_is_SomeI)
    have l: "length (file_bytes ?f) = unat (fe_data_length ?f)" "length (file_name ?f) = unat (fe_path_length ?f)"
      using file_bytes_length [OF assms(1) i] by auto
    have pos: "unat (fe_path_length ?f) \<noteq> 0"
      using entry_okD [OF assms(1) i(1)] i(2) l(2) path_ok_ends(1) [of "file_name ?f"] by (auto simp: entry_ok_def)
    have u: "unat (of_nat (unat (fe_path_length ?f)) :: u64) = unat (fe_path_length ?f)"
      using unat_u8_less [of "fe_path_length ?f"] by (simp add: unat_of_nat)
    have c: "(ucast (fe_data_length ?f) :: u64) = of_nat (unat (fe_data_length ?f))"
      using unat_u16_less [of "fe_data_length ?f"] by (simp add: word_unat_eq_iff unat_of_nat)
    have t: "take (unat (fe_path_length ?f)) (fe_path ?f) = file_name ?f" by (simp add: file_name_def)
    show ?thesis using True s state_ok(2) [OF assms] p d l pos u c t
      by (simp add: entry_at_def Let_def word_less_nat_alt copy_nonoverlapping_def)
  qed
qed

section \<open>The C interface refines a map\<close>

datatype file_op = Write "u8 list" "u8 list" | Read "u8 list" | Remove "u8 list"

definition ramfs_call :: "file_op \<Rightarrow> ramfs_globals \<Rightarrow> (int \<times> u8 list) \<times> ramfs_globals" where
  "ramfs_call op g = (case op of
     Write p d \<Rightarrow> let (status, g) = ramfs_write (Some p) (Some d) (of_nat (length d)) g in ((status, []), g)
   | Read p \<Rightarrow> let (status, buffer, len) = ramfs_read (Some p) (Some (replicate DATA_CAPACITY 0)) 1024 (Some 0) g
       in ((status, take (unat (the len)) (the buffer)), g)
   | Remove p \<Rightarrow> let (status, g) = ramfs_remove (Some p) g in ((status, []), g))"

definition map_call :: "file_op \<Rightarrow> (u8 list \<rightharpoonup> u8 list) \<Rightarrow> (int \<times> u8 list) \<times> (u8 list \<rightharpoonup> u8 list)" where
  "map_call op m = (case op of
     Write p d \<Rightarrow> let (status, m) = put_file p d m in ((status, []), m)
   | Read p \<Rightarrow> (if PATH_CAPACITY < length p \<or> \<not> path_ok p then (RAMFS_INVALID, [])
       else case m p of None \<Rightarrow> (RAMFS_NOT_FOUND, []) | Some d \<Rightarrow> (RAMFS_OK, d), m)
   | Remove p \<Rightarrow> let (status, m) = drop_file p m in ((status, []), m))"

text \<open>A path is a C string: no byte of it is the terminator. A length is a 64-bit number.\<close>

definition op_ok :: "file_op \<Rightarrow> bool" where
  "op_ok op = (case op of Write p d \<Rightarrow> 0 \<notin> set p \<and> length d < 2 ^ 64 | Read p \<Rightarrow> 0 \<notin> set p | Remove p \<Rightarrow> 0 \<notin> set p)"

definition mounted :: "ramfs_globals \<Rightarrow> bool" where
  "mounted g \<longleftrightarrow> storage_ok (rg_address g) \<and> ramfs_ok (rg_storage g) \<and> rg_filesystem g = Some ramfs_module"

lemma bounded_length_loop_eq:
  assumes "0 \<notin> set text"
  shows "count \<le> length text \<Longrightarrow> count \<le> Suc (unat maximum) \<Longrightarrow>
    bounded_length_loop text maximum count = min (length text) (Suc (unat maximum))"
proof (induction "Suc (unat maximum) - count" arbitrary: count)
  case 0
  then show ?case by (subst bounded_length_loop.simps) simp
next
  case (Suc n)
  show ?case
  proof (cases "count = length text")
    case True
    then show ?thesis using Suc.prems by (subst bounded_length_loop.simps) simp
  next
    case False
    then have "text ! count \<noteq> 0" using assms Suc.prems by (metis le_neq_implies_less nth_mem)
    then show ?thesis using Suc.hyps(1) [of "count + 1"] Suc.hyps(2) Suc.prems False
      by (subst bounded_length_loop.simps) (simp add: nth_append)
  qed
qed

lemma bounded_length_eq:
  assumes "0 \<notin> set text"
  shows "bounded_length (Some text) maximum =
    (if unat maximum < length text then None else Some (of_nat (length text)))"
  using bounded_length_loop_eq [OF assms, of 0 maximum] by (simp add: bounded_length_def Let_def min_def)

lemma module_path: "unat (ucast (rd_max_path ramfs_module) :: u64) = 48"
  by (simp add: ramfs_module_def)

lemma ramfs_module_calls [simp]:
  "rd_write ramfs_module = Some write_file" "rd_read ramfs_module = Some read_file"
  "rd_remove ramfs_module = Some remove_file" "rd_entry ramfs_module = Some entry_at"
  "rd_initialize ramfs_module = Some ramfs_initialize" "rd_max_files ramfs_module = 16" "rd_max_path ramfs_module = 48"
  by (simp_all add: ramfs_module_def)

lemma view_bounded: "ramfs_ok fs \<Longrightarrow> view fs p = Some d \<Longrightarrow> length d \<le> 1024 \<and> length p \<le> 48 \<and> path_ok p"
proof -
  assume a: "ramfs_ok fs" "view fs p = Some d"
  then have "(p, d) \<in> set (listing (rf_files fs))" by (auto simp: view_def dest: map_of_SomeD)
  then obtain e where e: "e \<in> set (rf_files fs)" "live e" "p = file_name e" "d = file_bytes e" by (auto simp: listing_def)
  then have "entry_ok e" using ramfs_okD(3) [OF a(1)] by (simp add: list_all_iff)
  then show ?thesis using e by (simp add: entry_ok_def file_name_def file_bytes_def)
qed

lemma short_length: "length p \<le> 48 \<Longrightarrow> unat (of_nat (length p) :: u64) = length p"
  by (simp add: unat_of_nat)

lemma write_call:
  assumes "mounted g" "0 \<notin> set p" "length d < 2 ^ 64" "ramfs_write (Some p) (Some d) (of_nat (length d)) g = (status, g')"
  shows "mounted g' \<and> put_file p d (view (rg_storage g)) = (status, view (rg_storage g'))"
proof (cases "48 < length p")
  case True
  then show ?thesis using assms bounded_length_eq [OF assms(2), of 48] by (simp add: ramfs_write_def mounted_def put_file_def)
next
  case False
  obtain fs' where w: "write_file (rg_address g, rg_storage g) (Some p) (of_nat (length p)) (Some d) (of_nat (length d)) = (status, fs')"
      "g' = g\<lparr>rg_storage := fs'\<rparr>"
    using assms(1,4) False bounded_length_eq [OF assms(2), of 48] by (auto simp: ramfs_write_def mounted_def split: prod.splits)
  have l: "unat (of_nat (length p) :: u64) = length p" "unat (of_nat (length d) :: u64) = length d"
    using False assms(3) by (simp_all add: unat_of_nat)
  show ?thesis using write_file_spec [OF _ _ _ _ w(1)] assms(1) w(2) l by (simp add: mounted_def)
qed

lemma remove_call:
  assumes "mounted g" "0 \<notin> set p" "ramfs_remove (Some p) g = (status, g')"
  shows "mounted g' \<and> drop_file p (view (rg_storage g)) = (status, view (rg_storage g'))"
proof (cases "48 < length p")
  case True
  then show ?thesis using assms bounded_length_eq [OF assms(2), of 48] by (simp add: ramfs_remove_def mounted_def drop_file_def)
next
  case False
  obtain fs' where w: "remove_file (rg_address g, rg_storage g) (Some p) (of_nat (length p)) = (status, fs')"
      "g' = g\<lparr>rg_storage := fs'\<rparr>"
    using assms(1,3) False bounded_length_eq [OF assms(2), of 48] by (auto simp: ramfs_remove_def mounted_def split: prod.splits)
  show ?thesis using remove_file_spec [OF _ _ _ w(1)] assms(1) w(2) False short_length [of p] by (simp add: mounted_def)
qed

lemma read_call:
  assumes "mounted g" "0 \<notin> set p"
    and "get_file p buffer capacity len (view (rg_storage g)) = (status, buffer', len')"
  shows "ramfs_read (Some p) (Some buffer) capacity (Some len) g = (status, Some buffer', Some len')"
proof (cases "48 < length p")
  case True
  then show ?thesis using assms bounded_length_eq [OF assms(2), of 48] by (simp add: ramfs_read_def mounted_def get_file_def)
next
  case False
  then show ?thesis
    using read_file_spec [of "rg_storage g" "rg_address g" "of_nat (length p)" p buffer capacity len status buffer' len']
      assms bounded_length_eq [OF assms(2), of 48] short_length [of p] by (simp add: ramfs_read_def mounted_def)
qed

interpretation ramfs_sim: simulation ramfs_call map_call op_ok mounted "\<lambda>g. view (rg_storage g)"
proof (unfold_locales, goal_cases)
  case (1 g op r g')
  show ?case
  proof (cases op)
    case (Write p d)
    then show ?thesis using 1 write_call [of g p d] by (auto simp: ramfs_call_def map_call_def op_ok_def split: prod.splits)
  next
    case (Remove p)
    then show ?thesis using 1 remove_call [of g p] by (auto simp: ramfs_call_def map_call_def op_ok_def split: prod.splits)
  next
    case (Read p)
    obtain status buffer len where gf: "get_file p (replicate 1024 0) 1024 0 (view (rg_storage g)) = (status, buffer, len)"
      by (metis surj_pair)
    have "d = take (unat (of_nat (length d) :: u64)) (d @ drop (length d) (replicate 1024 0))"
      if "view (rg_storage g) p = Some d" for d
      using view_bounded [OF _ that] 1(1) by (simp add: mounted_def unat_of_nat)
    then show ?thesis using 1 Read read_call [OF 1(1) _ gf] gf view_bounded [of "rg_storage g" p]
      by (fastforce simp: ramfs_call_def map_call_def op_ok_def get_file_def mounted_def split: if_splits option.splits)
  qed
qed

lemma module_valid: "valid_descriptor (Some ramfs_module)"
  by (simp add: valid_descriptor_def ramfs_module_def valid_name_def upt_rec)

lemma listing_empty: "listing (replicate n zero_entry) = []"
  by (induction n) (simp_all add: live_def zero_entry_def)

lemma ramfs_ok_initial: "ramfs_ok (zero_ramfs\<lparr>rf_magic := RAMFS_MAGIC\<rparr>)" "view (zero_ramfs\<lparr>rf_magic := RAMFS_MAGIC\<rparr>) = Map.empty"
proof -
  have "entry_ok zero_entry" by (simp add: entry_ok_def zero_entry_def live_def)
  then show "ramfs_ok (zero_ramfs\<lparr>rf_magic := RAMFS_MAGIC\<rparr>)"
    by (simp add: ramfs_ok_def zero_ramfs_def listing_empty list_all_length)
  show "view (zero_ramfs\<lparr>rf_magic := RAMFS_MAGIC\<rparr>) = Map.empty" by (simp add: view_def zero_ramfs_def listing_empty)
qed

lemma reset_mounted:
  assumes "storage_ok (rg_address g)" "rg_filesystem g = Some ramfs_module"
  obtains g' where "reset_filesystem g = (True, g')" "mounted g'" "view (rg_storage g') = Map.empty"
  using that [of "g\<lparr>rg_storage := zero_ramfs\<lparr>rf_magic := RAMFS_MAGIC\<rparr>\<rparr>"] assms ramfs_ok_initial
  by (simp add: reset_filesystem_def ramfs_initialize_def storage_ok_def mounted_def)

lemma init_mounted:
  assumes "storage_ok (rg_address g)"
  obtains g' where "ramfs_init g = (True, g')" "mounted g'" "view (rg_storage g') = Map.empty"
  using reset_mounted [of "g\<lparr>rg_filesystem := Some ramfs_module\<rparr>"] assms module_valid by (auto simp: ramfs_init_def)

text \<open>The listing, through the C interface.\<close>

lemma names_ok:
  assumes "ramfs_ok fs"
  shows "distinct (names fs)" "set (names fs) = dom (view fs)" "length (names fs) \<le> 16"
    "\<And>i. i < length (names fs) \<Longrightarrow> 0 < length (names fs ! i) \<and> length (names fs ! i) \<le> 48"
proof -
  show "distinct (names fs)" using ramfs_okD(4) [OF assms] by (simp add: names_def)
  show n: "set (names fs) = dom (view fs)" by (simp add: dom_view names_def)
  show "length (names fs) \<le> 16" using listing_length [of "rf_files fs"] ramfs_okD(2) [OF assms] by (simp add: names_def)
  fix i assume "i < length (names fs)"
  then obtain d where "view fs (names fs ! i) = Some d" using n by (metis domD nth_mem)
  then show "0 < length (names fs ! i) \<and> length (names fs ! i) \<le> 48"
    using view_bounded [OF assms] path_ok_ends(1) [of "names fs ! i"] by force
qed

lemma entry_status:
  assumes "ramfs_ok fs" "storage_ok addr" "n \<le> 16"
  shows "fst (entry_at (addr, fs) (of_nat n) (Some (replicate 48 0)) 48 (Some 0) (Some 0)) = RAMFS_OK \<longleftrightarrow> n < length (names fs)"
proof -
  have u: "unat (of_nat n :: u64) = n" using assms(3) by (simp add: unat_of_nat)
  show ?thesis
    using entry_at_spec [OF assms(1,2), of "of_nat n" "replicate 48 0" 48 0 0] names_ok(4) [OF assms(1), of n] unfolding u
    by (cases "n < length (names fs)") (simp_all add: Let_def)
qed

lemma count_loop:
  assumes "ramfs_ok fs" "storage_ok addr"
  shows "n \<le> length (names fs) \<Longrightarrow> ramfs_count_loop ramfs_module (addr, fs) (of_nat n) = of_nat (length (names fs))"
proof (induction "length (names fs) - n" arbitrary: n)
  case 0
  then have n: "n = length (names fs)" "n \<le> 16" using names_ok(3) [OF assms(1)] by simp_all
  then have "\<not> fst (entry_at (addr, fs) (of_nat n) (Some (replicate 48 0)) 48 (Some 0) (Some 0)) = RAMFS_OK"
    using entry_status [OF assms n(2)] by blast
  then show ?case unfolding n(1) [symmetric] by (subst ramfs_count_loop.simps) (simp)
next
  case (Suc m)
  then have u: "n < length (names fs)" "n < 16" using names_ok(3) [OF assms(1)] by simp_all
  then have "(of_nat n :: u64) < 16" by (simp add: word_less_nat_alt unat_of_nat)
  moreover have "fst (entry_at (addr, fs) (of_nat n) (Some (replicate 48 0)) 48 (Some 0) (Some 0)) = RAMFS_OK"
    using entry_status [OF assms, of n] u by simp
  moreover have "ramfs_count_loop ramfs_module (addr, fs) (of_nat n + 1) = of_nat (length (names fs))"
    using Suc.hyps(1) [of "n + 1"] Suc.hyps(2) u(1) by (simp add: add.commute)
  ultimately show ?case by (subst ramfs_count_loop.simps) (simp)
qed

lemma file_count_names: "mounted g \<Longrightarrow> ramfs_file_count g = of_nat (length (names (rg_storage g)))"
  using count_loop [of "rg_storage g" "rg_address g" 0] by (simp add: ramfs_file_count_def mounted_def)

lemma ramfs_entry_names:
  assumes "mounted g" "length buffer = 49" "i \<le> 16"
  shows "ramfs_entry (of_nat i) (Some buffer) 49 (Some l) (Some n) g =
    (if i < length (names (rg_storage g)) then
       let p = names (rg_storage g) ! i in
       (RAMFS_OK, Some (p @ 0 # drop (Suc (length p)) buffer), Some (of_nat (length p)),
        Some (of_nat (length (the (view (rg_storage g) p)))))
     else (RAMFS_NOT_FOUND, Some buffer, Some l, Some n))"
proof -
  let ?fs = "rg_storage g"
  have ok: "ramfs_ok ?fs" "storage_ok (rg_address g)" using assms(1) by (simp_all add: mounted_def)
  have u: "unat (of_nat i :: u64) = i" using assms(3) by (simp add: unat_of_nat)
  have p: "unat (of_nat (length p) :: u64) = length p" "\<not> 49 \<le> (of_nat (length p) :: u64)"
      "(p @ drop (length p) buffer)[length p := 0] = p @ 0 # drop (Suc (length p)) buffer"
    if "length p \<le> 48" for p :: "u8 list"
  proof -
    show "unat (of_nat (length p) :: u64) = length p" "\<not> 49 \<le> (of_nat (length p) :: u64)"
      using that by (simp_all add: unat_of_nat word_le_nat_alt)
    have "drop (length p) buffer = buffer ! length p # drop (Suc (length p)) buffer"
      using that assms(2) by (intro Cons_nth_drop_Suc [symmetric]) simp
    then show "(p @ drop (length p) buffer)[length p := 0] = p @ 0 # drop (Suc (length p)) buffer" by simp
  qed
  show ?thesis using entry_at_spec [OF ok, of "of_nat i" buffer 48 l n] names_ok(4) [OF ok(1), of i] p assms(1) u
    by (auto simp: ramfs_entry_def mounted_def Let_def)
qed

section \<open>Properties\<close>

text \<open>
  Claim C14. The memory file system is a map from paths to contents with room for sixteen files. After
  \<^verbatim>\<open>ramfs_init\<close> every sequence of writes, reads and removals through the C interface gives reply for reply
  what the map gives: which paths and sizes are refused and with which code, when the space is exhausted,
  and that a read returns the bytes of the last write to that very path.
\<close>

theorem ramfs_refines_map:
  assumes "storage_ok (rg_address g)" "list_all op_ok ops"
  shows "\<exists>g0. ramfs_init g = (True, g0) \<and> fst (run_all ramfs_call ops g0) = fst (run_all map_call ops Map.empty)"
proof -
  obtain g0 where i: "ramfs_init g = (True, g0)" "mounted g0" "view (rg_storage g0) = Map.empty"
    using init_mounted [OF assms(1)] .
  obtain rs g' where r: "run_all ramfs_call ops g0 = (rs, g')" by fastforce
  show ?thesis using i r ramfs_sim.run_refines [OF i(2) assms(2) r] by simp
qed

definition ramfs_globals_demo :: ramfs_globals where
  "ramfs_globals_demo = \<lparr>rg_address = 0x10000, rg_storage = zero_ramfs, rg_filesystem = None\<rparr>"

theorem ramfs_refines_map_witness:
  "\<exists>g0. ramfs_init ramfs_globals_demo = (True, g0) \<and>
    fst (run_all ramfs_call [Write (bytes ''/a'') [7], Read (bytes ''/a''), Write (bytes ''/../b'') [8], Remove (bytes ''/a''), Read (bytes ''/a'')] g0) =
     [(RAMFS_OK, []), (RAMFS_OK, [7]), (RAMFS_INVALID, []), (RAMFS_OK, []), (RAMFS_NOT_FOUND, [])]"
proof -
  let ?ops = "[Write (bytes ''/a'') [7], Read (bytes ''/a''), Write (bytes ''/../b'') [8], Remove (bytes ''/a''), Read (bytes ''/a'')]"
  have s: "storage_ok (rg_address ramfs_globals_demo)" by (simp add: ramfs_globals_demo_def storage_ok_def)
  have o: "list_all op_ok ?ops" by (simp add: op_ok_def bytes_def)
  have "fst (run_all map_call ?ops Map.empty) =
      [(RAMFS_OK, []), (RAMFS_OK, [7]), (RAMFS_INVALID, []), (RAMFS_OK, []), (RAMFS_NOT_FOUND, [])]"
    by (simp add: map_call_def put_file_def drop_file_def bytes_def path_ok_def segment_ok_def path_byte_def)
  then show ?thesis using ramfs_refines_map [OF s o] by simp
qed

text \<open>
  Claim C34. \<^verbatim>\<open>valid_path\<close>, a single loop over the bytes with an early return, accepts exactly the paths of the
  documented form: a slash, then segments separated by single slashes, none of them empty, a dot or two dots, all
  bytes printable, no blank and no backslash.
\<close>

theorem valid_path_exact:
  "valid_path \<lparr>in_pointer = p @ rest, in_length = length p\<rparr> \<longleftrightarrow> path_ok p"
  using valid_path_iff [of "\<lparr>in_pointer = p @ rest, in_length = length p\<rparr>"] by (simp add: input_bytes_def)

text \<open>
  Claim C33. The listing is complete and without repetition. In every state reached, \<^verbatim>\<open>ramfs_file_count\<close> is the
  number of files of the map, and \<^verbatim>\<open>ramfs_entry\<close> at the ordinals below it gives each path of the map once,
  terminated, with its length and the length of its data; at the next ordinal it gives not found.
\<close>

theorem ramfs_lists_every_file:
  assumes "storage_ok (rg_address g)" "list_all op_ok ops" "ramfs_init g = (True, g0)"
    and "g' = snd (run_all ramfs_call ops g0)" "m = snd (run_all map_call ops Map.empty)" "length buffer = 49"
  shows "\<exists>paths. distinct paths \<and> set paths = dom m \<and> length paths \<le> 16 \<and> ramfs_file_count g' = of_nat (card (dom m)) \<and>
    (\<forall>i<length paths. ramfs_entry (of_nat i) (Some buffer) 49 (Some l) (Some n) g' =
       (RAMFS_OK, Some (paths ! i @ 0 # drop (Suc (length (paths ! i))) buffer), Some (of_nat (length (paths ! i))),
        Some (of_nat (length (the (m (paths ! i))))))) \<and>
    ramfs_entry (of_nat (length paths)) (Some buffer) 49 (Some l) (Some n) g' = (RAMFS_NOT_FOUND, Some buffer, Some l, Some n)"
proof -
  have i: "mounted g0" "view (rg_storage g0) = Map.empty" using init_mounted [OF assms(1)] assms(3) by auto
  obtain rs g1 where r: "run_all ramfs_call ops g0 = (rs, g1)" by fastforce
  have g: "mounted g'" "view (rg_storage g') = m"
    using ramfs_sim.run_refines [OF i(1) assms(2) r] r i(2) assms(4,5) by simp_all
  let ?ns = "names (rg_storage g')"
  have ok: "ramfs_ok (rg_storage g')" using g(1) by (simp add: mounted_def)
  have n: "distinct ?ns" "set ?ns = dom m" "length ?ns \<le> 16" using names_ok [OF ok] g(2) by simp_all
  have "card (dom m) = length ?ns" using distinct_card [OF n(1)] n(2) by simp
  then show ?thesis using n file_count_names [OF g(1)] ramfs_entry_names [OF g(1) assms(6)] g(2)
    by (intro exI [of _ ?ns]) (simp add: Let_def)
qed

theorem ramfs_lists_every_file_witness:
  "\<exists>g0 g' paths. ramfs_init ramfs_globals_demo = (True, g0) \<and> g' = snd (run_all ramfs_call [Write (bytes ''/a'') [7]] g0) \<and>
     ramfs_file_count g' = 1 \<and> set paths = {bytes ''/a''} \<and>
     fst (ramfs_entry (of_nat (length paths)) (Some (replicate 49 0)) 49 (Some 0) (Some 0) g') = RAMFS_NOT_FOUND"
proof -
  have s: "storage_ok (rg_address ramfs_globals_demo)" by (simp add: ramfs_globals_demo_def storage_ok_def)
  have o: "list_all op_ok [Write (bytes ''/a'') [7]]" by (simp add: op_ok_def bytes_def)
  obtain g0 where i: "ramfs_init ramfs_globals_demo = (True, g0)" using init_mounted [OF s] by blast
  have m: "dom (snd (run_all map_call [Write (bytes ''/a'') [7]] Map.empty)) = {bytes ''/a''}"
    by (simp add: map_call_def put_file_def bytes_def path_ok_def segment_ok_def path_byte_def)
  show ?thesis
    using ramfs_lists_every_file [OF s o i refl refl, of "replicate 49 0" 0 0] i m
    by (auto simp del: run_all.simps intro!: exI [of _ g0])
qed

end
