(* ===== verification/Ps2.thy ===== *)
theory Ps2
  imports Fifo Apic Ports Serial
begin

text \<open>
  The PS/2 controller, its keyboard and its pointer, \<^verbatim>\<open>src/ps2.c\<close>, and the input front end
  \<^verbatim>\<open>src/input.c\<close>. Every wait for the controller is bounded in the code and a recursion on its counter here.
  The atomic loads and stores of the queues are plain accesses: on the single processor each of the two
  sides, interrupt and reader, runs an operation of a queue as a whole.
\<close>

section \<open>State\<close>

abbreviation (input) PS2_DATA_PORT :: u16 where "PS2_DATA_PORT \<equiv> 0x60"
abbreviation (input) PS2_STATUS_PORT :: u16 where "PS2_STATUS_PORT \<equiv> 0x64"
abbreviation (input) PS2_KEY_QUEUE_CAPACITY :: u32 where "PS2_KEY_QUEUE_CAPACITY \<equiv> 64"
abbreviation (input) PS2_MOUSE_QUEUE_CAPACITY :: u32 where "PS2_MOUSE_QUEUE_CAPACITY \<equiv> 32"
abbreviation (input) ARGUS_PS2_KEYBOARD_VECTOR :: u8 where "ARGUS_PS2_KEYBOARD_VECTOR \<equiv> 0x41"
abbreviation (input) ARGUS_PS2_MOUSE_VECTOR :: u8 where "ARGUS_PS2_MOUSE_VECTOR \<equiv> 0x42"
abbreviation (input) ARGUS_KEY_UP :: int where "ARGUS_KEY_UP \<equiv> 0x80"
abbreviation (input) ARGUS_KEY_DOWN :: int where "ARGUS_KEY_DOWN \<equiv> 0x81"
abbreviation (input) ARGUS_KEY_LEFT :: int where "ARGUS_KEY_LEFT \<equiv> 0x82"
abbreviation (input) ARGUS_KEY_RIGHT :: int where "ARGUS_KEY_RIGHT \<equiv> 0x83"
abbreviation (input) ARGUS_KEY_ESCAPE :: int where "ARGUS_KEY_ESCAPE \<equiv> 0x84"

text \<open>The movement is a 16-bit signed number; its values stay within nine bits, so it is an integer here.\<close>

record ps2_mouse_event =
  mouse_dx :: int
  mouse_dy :: int
  mouse_buttons :: u8

record ps2 =
  controller_available :: bool
  keyboard_available :: bool
  keyboard_irq_online :: bool
  mouse_available :: bool
  mouse_irq_online :: bool
  left_shift :: bool
  right_shift :: bool
  caps_lock :: bool
  extended_prefix :: bool
  key_queue :: "u8 list"
  key_head :: u8
  key_tail :: u8
  dropped_keys :: u64
  mouse_queue :: "ps2_mouse_event list"
  mouse_head :: u8
  mouse_tail :: u8
  mouse_packet :: "u8 list"
  mouse_packet_index :: u8
  mouse_packets :: u64
  dropped_mouse_events :: u64
  ps2_ports :: ports

definition ps2_in :: "u16 \<Rightarrow> ps2 \<Rightarrow> u8 \<times> ps2" where
  "ps2_in port s = (let (v, io) = cpu_in8 port (ps2_ports s) in (v, s\<lparr>ps2_ports := io\<rparr>))"

definition ps2_out :: "u16 \<Rightarrow> u8 \<Rightarrow> ps2 \<Rightarrow> ps2" where
  "ps2_out port v s = s\<lparr>ps2_ports := cpu_out8 port v (ps2_ports s)\<rparr>"

section \<open>Keyboard\<close>

text \<open>Characters are their codes.\<close>

definition letters :: "u8 list" where
  "letters = replicate 16 0 @ [0x71, 0x77, 0x65, 0x72, 0x74, 0x79, 0x75, 0x69, 0x6F, 0x70] @ replicate 4 0 @
     [0x61, 0x73, 0x64, 0x66, 0x67, 0x68, 0x6A, 0x6B, 0x6C] @ replicate 5 0 @ [0x7A, 0x78, 0x63, 0x76, 0x62, 0x6E, 0x6D]"

definition translate_letter :: "u8 \<Rightarrow> bool \<Rightarrow> u8" where
  "translate_letter scan_code shifted =
    (if of_nat (length letters) \<le> scan_code \<or> letters ! unat scan_code = 0 then 0
     else let v = letters ! unat scan_code in if shifted then v - 0x61 + 0x41 else v)"

definition symbols_normal :: "u8 list" where
  "symbols_normal = [0, 0, 0x31, 0x32, 0x33, 0x34, 0x35, 0x36, 0x37, 0x38, 0x39, 0x30, 0x2D, 0x3D, 0, 0, 0]"

definition symbols_upper :: "u8 list" where
  "symbols_upper = [0, 0, 0x21, 0x40, 0x23, 0x24, 0x25, 0x5E, 0x26, 0x2A, 0x28, 0x29, 0x5F, 0x2B, 0, 0, 0]"

definition translate_symbol :: "u8 \<Rightarrow> bool \<Rightarrow> u8" where
  "translate_symbol scan_code shifted =
    (if of_nat (length symbols_normal) \<le> scan_code then 0
     else
       let v = (if shifted then symbols_upper ! unat scan_code else symbols_normal ! unat scan_code) in
       if v \<noteq> 0 then v
       else if scan_code = 0x1A then (if shifted then 0x7B else 0x5B)
       else if scan_code = 0x1B then (if shifted then 0x7D else 0x5D)
       else if scan_code = 0x27 then (if shifted then 0x3A else 0x3B)
       else if scan_code = 0x28 then (if shifted then 0x22 else 0x27)
       else if scan_code = 0x29 then (if shifted then 0x7E else 0x60)
       else if scan_code = 0x2B then (if shifted then 0x7C else 0x5C)
       else if scan_code = 0x33 then (if shifted then 0x3C else 0x2C)
       else if scan_code = 0x34 then (if shifted then 0x3E else 0x2E)
       else if scan_code = 0x35 then (if shifted then 0x3F else 0x2F)
       else 0)"

definition decode_scan_code :: "u8 \<Rightarrow> ps2 \<Rightarrow> int \<times> ps2" where
  "decode_scan_code scan_code s =
    (if scan_code = 0xE0 then (-1, s\<lparr>extended_prefix := True\<rparr>)
     else
       let released = (scan_code AND 0x80 \<noteq> 0); code = scan_code AND 0x7F in
       if extended_prefix s then
         let s = s\<lparr>extended_prefix := False\<rparr> in
         if released then (-1, s)
         else if code = 0x48 then (ARGUS_KEY_UP, s)
         else if code = 0x50 then (ARGUS_KEY_DOWN, s)
         else if code = 0x4B then (ARGUS_KEY_LEFT, s)
         else if code = 0x4D then (ARGUS_KEY_RIGHT, s)
         else (-1, s)
       else if code = 0x2A then (-1, s\<lparr>left_shift := \<not> released\<rparr>)
       else if code = 0x36 then (-1, s\<lparr>right_shift := \<not> released\<rparr>)
       else if released then (-1, s)
       else if code = 0x01 then (ARGUS_KEY_ESCAPE, s)
       else if code = 0x3A then (-1, s\<lparr>caps_lock := \<not> caps_lock s\<rparr>)
       else if code = 0x1C then (10, s)
       else if code = 0x0E then (8, s)
       else if code = 0x0F then (9, s)
       else if code = 0x39 then (32, s)
       else
         let shifted = (left_shift s \<or> right_shift s);
             letter = translate_letter code (shifted \<noteq> caps_lock s) in
         if letter \<noteq> 0 then (uint letter, s)
         else
           let symbol = translate_symbol code shifted
           in (if symbol \<noteq> 0 then uint symbol else -1, s))"

definition queue_key :: "u8 \<Rightarrow> ps2 \<Rightarrow> ps2" where
  "queue_key character s =
    (let head = key_head s; next = ucast ((ucast head + 1) AND (PS2_KEY_QUEUE_CAPACITY - 1)) in
     if next = key_tail s then s\<lparr>dropped_keys := dropped_keys s + 1\<rparr>
     else s\<lparr>key_queue := (key_queue s)[unat head := character], key_head := next\<rparr>)"

definition dequeue_key :: "ps2 \<Rightarrow> int \<times> ps2" where
  "dequeue_key s =
    (let tail = key_tail s in
     if tail = key_head s then (-1, s)
     else (uint (key_queue s ! unat tail),
       s\<lparr>key_tail := ucast ((ucast tail + 1) AND (PS2_KEY_QUEUE_CAPACITY - 1))\<rparr>))"

section \<open>Pointer\<close>

definition queue_mouse_event :: "ps2_mouse_event \<Rightarrow> ps2 \<Rightarrow> ps2" where
  "queue_mouse_event event s =
    (let head = mouse_head s; next = ucast ((ucast head + 1) AND (PS2_MOUSE_QUEUE_CAPACITY - 1)) in
     if next = mouse_tail s then s\<lparr>dropped_mouse_events := dropped_mouse_events s + 1\<rparr>
     else s\<lparr>mouse_queue := (mouse_queue s)[unat head := event], mouse_head := next\<rparr>)"

text \<open>The event goes to the caller's variable; its value is \<^term>\<open>None\<close> when nothing is stored there.\<close>

definition dequeue_mouse_event :: "ps2 \<Rightarrow> ps2_mouse_event option \<times> ps2" where
  "dequeue_mouse_event s =
    (let tail = mouse_tail s in
     if tail = mouse_head s then (None, s)
     else (Some (mouse_queue s ! unat tail),
       s\<lparr>mouse_tail := ucast ((ucast tail + 1) AND (PS2_MOUSE_QUEUE_CAPACITY - 1))\<rparr>))"

definition decode_mouse_byte :: "u8 \<Rightarrow> ps2 \<Rightarrow> ps2" where
  "decode_mouse_byte v s =
    (if mouse_packet_index s = 0 \<and> v AND 0x08 = 0 then s
     else
       let s = s\<lparr>mouse_packet := (mouse_packet s)[unat (mouse_packet_index s) := v],
             mouse_packet_index := mouse_packet_index s + 1\<rparr> in
       if mouse_packet_index s < 3 then s
       else
         let s = s\<lparr>mouse_packet_index := 0, mouse_packets := mouse_packets s + 1\<rparr>;
             flags = mouse_packet s ! 0 in
         if flags AND 0xC0 \<noteq> 0 then s
         else
           let dx = uint (mouse_packet s ! 1); raw_dy = uint (mouse_packet s ! 2);
               dx = (if flags AND 0x10 \<noteq> 0 then dx - 256 else dx);
               raw_dy = (if flags AND 0x20 \<noteq> 0 then raw_dy - 256 else raw_dy)
           in queue_mouse_event \<lparr>mouse_dx = dx, mouse_dy = - raw_dy, mouse_buttons = flags AND 0x07\<rparr> s)"

section \<open>Controller\<close>

definition route_data_byte :: "u8 \<Rightarrow> u8 \<Rightarrow> ps2 \<Rightarrow> ps2" where
  "route_data_byte status v s =
    (if status AND 0x20 \<noteq> 0 then if mouse_available s then decode_mouse_byte v s else s
     else if \<not> keyboard_available s then s
     else
       let (character, s) = decode_scan_code v s
       in if 0 \<le> character then queue_key (word_of_int character) s else s)"

fun drain_loop :: "nat \<Rightarrow> ps2 \<Rightarrow> ps2" where
  "drain_loop 0 s = s"
| "drain_loop (Suc n) s =
    (let (status, s) = ps2_in PS2_STATUS_PORT s in
     if status AND 1 = 0 then s
     else let (v, s) = ps2_in PS2_DATA_PORT s in drain_loop n (route_data_byte status v s))"

definition drain_controller :: "ps2 \<Rightarrow> ps2" where
  "drain_controller s = drain_loop 64 s"

fun wait_input_loop :: "nat \<Rightarrow> ps2 \<Rightarrow> bool \<times> ps2" where
  "wait_input_loop 0 s = (False, s)"
| "wait_input_loop (Suc n) s =
    (let (status, s) = ps2_in PS2_STATUS_PORT s in if status AND 2 = 0 then (True, s) else wait_input_loop n s)"

definition wait_input_empty :: "ps2 \<Rightarrow> bool \<times> ps2" where
  "wait_input_empty s = wait_input_loop 100000 s"

fun wait_output_loop :: "nat \<Rightarrow> ps2 \<Rightarrow> bool \<times> ps2" where
  "wait_output_loop 0 s = (False, s)"
| "wait_output_loop (Suc n) s =
    (let (status, s) = ps2_in PS2_STATUS_PORT s in if status AND 1 \<noteq> 0 then (True, s) else wait_output_loop n s)"

definition wait_output_full :: "ps2 \<Rightarrow> bool \<times> ps2" where
  "wait_output_full s = wait_output_loop 100000 s"

definition controller_command :: "u8 \<Rightarrow> ps2 \<Rightarrow> bool \<times> ps2" where
  "controller_command command s =
    (let (ok, s) = wait_input_empty s in if \<not> ok then (False, s) else (True, ps2_out PS2_STATUS_PORT command s))"

definition controller_read_byte :: "ps2 \<Rightarrow> u8 option \<times> ps2" where
  "controller_read_byte s =
    (let (ok, s) = wait_output_full s in
     if \<not> ok then (None, s) else let (v, s) = ps2_in PS2_DATA_PORT s in (Some v, s))"

definition controller_read_config :: "ps2 \<Rightarrow> u8 option \<times> ps2" where
  "controller_read_config s =
    (let (ok, s) = controller_command 0x20 s in if ok then controller_read_byte s else (None, s))"

definition controller_write_config :: "u8 \<Rightarrow> ps2 \<Rightarrow> bool \<times> ps2" where
  "controller_write_config configuration s =
    (let (ok, s) = controller_command 0x60 s in
     if \<not> ok then (False, s)
     else
       let (ok, s) = wait_input_empty s in
       if \<not> ok then (False, s) else (True, ps2_out PS2_DATA_PORT configuration s))"

definition configure_keyboard_port :: "ps2 \<Rightarrow> bool \<times> ps2" where
  "configure_keyboard_port s =
    (let (ok, s) = controller_command 0xAE s in
     if \<not> ok then (False, s)
     else
       let (configuration, s) = controller_read_config s in
       case configuration of None \<Rightarrow> (False, s)
       | Some v \<Rightarrow> controller_write_config ((v OR (1 OR push_bit 6 1)) AND NOT (push_bit 4 1)) s)"

fun mouse_response_loop :: "nat \<Rightarrow> ps2 \<Rightarrow> u8 option \<times> ps2" where
  "mouse_response_loop 0 s = (None, s)"
| "mouse_response_loop (Suc n) s =
    (let (status, s) = ps2_in PS2_STATUS_PORT s in
     if status AND 1 = 0 then mouse_response_loop n s
     else
       let (v, s) = ps2_in PS2_DATA_PORT s in
       if status AND 0x20 \<noteq> 0 then (Some v, s)
       else mouse_response_loop n (route_data_byte status v s))"

definition read_mouse_response :: "ps2 \<Rightarrow> u8 option \<times> ps2" where
  "read_mouse_response s = mouse_response_loop 200000 s"

fun mouse_command_loop :: "nat \<Rightarrow> u8 \<Rightarrow> ps2 \<Rightarrow> bool \<times> ps2" where
  "mouse_command_loop 0 command s = (False, s)"
| "mouse_command_loop (Suc n) command s =
    (let (ok, s) = controller_command 0xD4 s in
     if \<not> ok then (False, s)
     else
       let (ok, s) = wait_input_empty s in
       if \<not> ok then (False, s)
       else
         let (response, s) = read_mouse_response (ps2_out PS2_DATA_PORT command s) in
         case response of None \<Rightarrow> (False, s)
         | Some v \<Rightarrow> if v = 0xFA then (True, s) else if v \<noteq> 0xFE then (False, s) else mouse_command_loop n command s)"

definition send_mouse_command :: "u8 \<Rightarrow> ps2 \<Rightarrow> bool \<times> ps2" where
  "send_mouse_command command s = mouse_command_loop 3 command s"

definition configure_mouse_port :: "ps2 \<Rightarrow> bool \<times> ps2" where
  "configure_mouse_port s =
    (let (ok, s) = controller_command 0xA8 s in
     if \<not> ok then (False, s)
     else let (ok, s) = controller_command 0xA9 s in
     if \<not> ok then (False, s)
     else let (response, s) = controller_read_byte s in
     if response \<noteq> Some 0 then (False, s)
     else let (configuration, s) = controller_read_config s in
     case configuration of None \<Rightarrow> (False, s)
     | Some v \<Rightarrow>
       let (ok, s) = controller_write_config ((v OR push_bit 1 1) AND NOT (push_bit 5 1)) s in
       if \<not> ok then (False, s)
       else let (ok, s) = send_mouse_command 0xF6 s in
       if \<not> ok then (False, s) else send_mouse_command 0xF4 s)"

definition ps2_interrupt :: "ps2 \<Rightarrow> apic \<Rightarrow> vm \<Rightarrow> ps2 \<times> apic \<times> vm" where
  "ps2_interrupt s a v = (let s = drain_controller s; (a, v) = apic_eoi a v in (s, a, v))"

section \<open>Initialisation\<close>

fun flush_loop :: "nat \<Rightarrow> ps2 \<Rightarrow> ps2" where
  "flush_loop 0 s = s"
| "flush_loop (Suc n) s =
    (let (status, s) = ps2_in PS2_STATUS_PORT s in
     if status AND 1 = 0 then s else flush_loop n (snd (ps2_in PS2_DATA_PORT s)))"

text \<open>
  The tail of both initialisations: register the handler, then route the interrupt, and take the
  registration back when that fails. \<^verbatim>\<open>handler\<close> is the address of \<^verbatim>\<open>ps2_interrupt\<close>.
\<close>

definition ps2_keyboard_init :: "u64 \<Rightarrow> acpi_info option \<Rightarrow> ps2 \<Rightarrow> arch \<Rightarrow> apic \<Rightarrow> vm \<Rightarrow> bool \<times> ps2 \<times> arch \<times> apic" where
  "ps2_keyboard_init handler acpi s a ap v =
    (let s = s\<lparr>controller_available := False, keyboard_available := False, keyboard_irq_online := False\<rparr>;
         (status, s) = ps2_in PS2_STATUS_PORT s in
     if status = 0xFF then (False, s, a, ap)
     else
       let s = flush_loop 32 s;
           s = s\<lparr>left_shift := False, right_shift := False, caps_lock := False, extended_prefix := False,
             key_head := 0, key_tail := 0, dropped_keys := 0, controller_available := True, keyboard_available := True\<rparr> in
       case acpi of None \<Rightarrow> (True, s, a, ap)
       | Some info \<Rightarrow>
         let (ok, a) = interrupt_register ARGUS_PS2_KEYBOARD_VECTOR handler a in
         if \<not> ok then (True, s, a, ap)
         else
           let (ok, s) = configure_keyboard_port s;
               (routed, ap) = (if ok then apic_route_gsi acpi (keyboard_gsi info) (keyboard_flags info) ARGUS_PS2_KEYBOARD_VECTOR ap v
                 else (False, ap)) in
           if routed then (True, s\<lparr>keyboard_irq_online := True\<rparr>, a, ap)
           else (True, s, snd (interrupt_unregister ARGUS_PS2_KEYBOARD_VECTOR handler a), ap))"

definition ps2_mouse_init :: "u64 \<Rightarrow> acpi_info option \<Rightarrow> ps2 \<Rightarrow> arch \<Rightarrow> apic \<Rightarrow> vm \<Rightarrow> bool \<times> ps2 \<times> arch \<times> apic" where
  "ps2_mouse_init handler acpi s a ap v =
    (let s = s\<lparr>mouse_available := False, mouse_irq_online := False, mouse_packet_index := 0, mouse_head := 0,
           mouse_tail := 0, mouse_packets := 0, dropped_mouse_events := 0\<rparr> in
     if \<not> controller_available s then (False, s, a, ap)
     else
       let (ok, s) = configure_mouse_port s in
       if \<not> ok then (False, s, a, ap)
       else
         let s = s\<lparr>mouse_available := True\<rparr> in
         case acpi of None \<Rightarrow> (True, s, a, ap)
         | Some info \<Rightarrow>
           let (ok, a) = interrupt_register ARGUS_PS2_MOUSE_VECTOR handler a in
           if \<not> ok then (True, s, a, ap)
           else
             let (routed, ap) = apic_route_gsi acpi (mouse_gsi info) (mouse_flags info) ARGUS_PS2_MOUSE_VECTOR ap v in
             if routed then (True, s\<lparr>mouse_irq_online := True\<rparr>, a, ap)
             else (True, s, snd (interrupt_unregister ARGUS_PS2_MOUSE_VECTOR handler a), ap))"

section \<open>Readers\<close>

definition ps2_getc_nonblocking :: "ps2 \<Rightarrow> int \<times> ps2" where
  "ps2_getc_nonblocking s =
    (if \<not> keyboard_available s then (-1, s)
     else dequeue_key (if keyboard_irq_online s then s else drain_controller s))"

definition ps2_mouse_get_event :: "ps2 \<Rightarrow> ps2_mouse_event option \<times> ps2" where
  "ps2_mouse_get_event s =
    (if \<not> mouse_available s then (None, s)
     else dequeue_mouse_event (if mouse_irq_online s then s else drain_controller s))"

text \<open>\<^verbatim>\<open>input.c\<close>: the serial line has precedence over the keyboard; pointer events are copied field by field.\<close>

definition input_init :: "u64 \<Rightarrow> acpi_info option \<Rightarrow> ps2 \<Rightarrow> arch \<Rightarrow> apic \<Rightarrow> vm \<Rightarrow> ps2 \<times> arch \<times> apic" where
  "input_init handler acpi s a ap v =
    (let (ok, s, a, ap) = ps2_keyboard_init handler acpi s a ap v; (ok, s, a, ap) = ps2_mouse_init handler acpi s a ap v
     in (s, a, ap))"

definition input_getc_nonblocking :: "serial \<Rightarrow> ps2 \<Rightarrow> int \<times> serial \<times> ps2" where
  "input_getc_nonblocking u s =
    (let (v, u) = serial_getc_nonblocking u in
     if 0 \<le> v then (v, u, s) else let (v, s) = ps2_getc_nonblocking s in (v, u, s))"

record input_pointer_event =
  pointer_dx :: int
  pointer_dy :: int
  pointer_buttons :: u8

definition input_pointer_event_nonblocking :: "ps2 \<Rightarrow> input_pointer_event option \<times> ps2" where
  "input_pointer_event_nonblocking s =
    (let (event, s) = ps2_mouse_get_event s in
     case event of None \<Rightarrow> (None, s)
     | Some e \<Rightarrow> (Some \<lparr>pointer_dx = mouse_dx e, pointer_dy = mouse_dy e, pointer_buttons = mouse_buttons e\<rparr>, s))"

end
