(* ===== verification/Ring.thy ===== *)
theory Ring
  imports Fifo
begin

text \<open>
  Queues in an array with a head and a tail index and no count, of which one place stays free to tell
  full from empty. The two laws of such a ring give the contract of a bounded queue.
\<close>

section \<open>Rings without a count\<close>

text \<open>The number of elements between the tail and the head of a ring of \<open>n\<close> places, one of which stays free.\<close>

definition span :: "nat \<Rightarrow> nat \<Rightarrow> nat \<Rightarrow> nat" where "span n head tail = (head + n - tail) mod n"

lemma span_bounds:
  assumes "head < n" "tail < n"
  shows "span n head tail < n" "(tail + span n head tail) mod n = head" "span n head tail = 0 \<longleftrightarrow> head = tail"
    "(head + 1) mod n = tail \<longleftrightarrow> span n head tail = n - 1"
  using assms by (cases "tail \<le> head"; auto simp: span_def mod_if)+

lemma span_push:
  assumes "head < n" "tail < n" "(head + 1) mod n \<noteq> tail"
  shows "span n ((head + 1) mod n) tail = Suc (span n head tail)"
  using assms by (cases "tail \<le> head"; cases "head + 1 = n") (auto simp: span_def mod_if)

lemma span_pop:
  assumes "head < n" "tail < n" "head \<noteq> tail"
  shows "span n head ((tail + 1) mod n) = span n head tail - 1"
  using assms by (cases "tail \<le> head"; cases "tail + 1 = n") (auto simp: span_def mod_if)

definition ring_queue :: "'a list \<Rightarrow> nat \<Rightarrow> nat \<Rightarrow> 'a list" where
  "ring_queue xs head tail = ring_list xs tail (span (length xs) head tail)"

lemma ring_queue_push:
  assumes "head < length xs" "tail < length xs" "(head + 1) mod length xs \<noteq> tail"
  shows "ring_queue (xs[head := x]) ((head + 1) mod length xs) tail = ring_queue xs head tail @ [x]"
  using ring_list_enqueue [OF span_bounds(1) [OF assms(1,2)], of tail x] span_bounds(2) [OF assms(1,2)] span_push [OF assms]
  by (simp add: ring_queue_def)

lemma ring_queue_pop:
  assumes "head < length xs" "tail < length xs" "head \<noteq> tail"
  shows "ring_queue xs head tail = xs ! tail # ring_queue xs head ((tail + 1) mod length xs)"
  using ring_list_dequeue [of "span (length xs) head tail" xs tail] span_pop [OF assms] span_bounds(3) [OF assms(1,2)] assms
  by (simp add: ring_queue_def)

lemma ring_queue_length:
  assumes "head < length xs" "tail < length xs"
  shows "length (ring_queue xs head tail) < length xs" "ring_queue xs head tail = [] \<longleftrightarrow> head = tail"
    "(head + 1) mod length xs = tail \<longleftrightarrow> length (ring_queue xs head tail) = length xs - 1"
  using span_bounds [OF assms] length_0_conv [of "ring_queue xs head tail"] by (simp_all add: ring_queue_def)

locale ring_buffer =
  fixes n :: nat
    and cells :: "'s \<Rightarrow> 'a list" and head :: "'s \<Rightarrow> nat" and tail :: "'s \<Rightarrow> nat"
    and enq :: "'a \<Rightarrow> 's \<Rightarrow> bool \<times> 's" and deq :: "'s \<Rightarrow> 'a option \<times> 's"
  assumes push: "length (cells s) = n \<Longrightarrow> head s < n \<Longrightarrow> tail s < n \<Longrightarrow>
      (fst (enq x s) \<longleftrightarrow> (head s + 1) mod n \<noteq> tail s) \<and> tail (snd (enq x s)) = tail s \<and>
      cells (snd (enq x s)) = (if fst (enq x s) then (cells s)[head s := x] else cells s) \<and>
      head (snd (enq x s)) = (if fst (enq x s) then (head s + 1) mod n else head s)"
    and pop_empty: "head s = tail s \<Longrightarrow> deq s = (None, s)"
    and pop: "length (cells s) = n \<Longrightarrow> head s < n \<Longrightarrow> tail s < n \<Longrightarrow> head s \<noteq> tail s \<Longrightarrow>
      fst (deq s) = Some (cells s ! tail s) \<and> cells (snd (deq s)) = cells s \<and> head (snd (deq s)) = head s \<and>
      tail (snd (deq s)) = (tail s + 1) mod n"

sublocale ring_buffer \<subseteq> bounded_fifo "\<lambda>s. length (cells s) = n \<and> head s < n \<and> tail s < n"
  "\<lambda>s. ring_queue (cells s) (head s) (tail s)" enq deq "\<lambda>_. True" "n - 1"
proof (unfold_locales, goal_cases)
  case (1 s x)
  then show ?case using push [of s x] by auto
next
  case (2 s)
  then show ?case using pop [of s] pop_empty [of s] by (cases "head s = tail s") auto
next
  case (3 s x)
  then show ?case using push [of s x] ring_queue_length [of "head s" "cells s" "tail s"] by auto
next
  case (4 s x)
  then show ?case using push [of s x] ring_queue_push [of "head s" "cells s" "tail s" x] by auto
next
  case (5 s)
  then show ?case using pop_empty [of s] ring_queue_length(2) [of "head s" "cells s" "tail s"] by auto
next
  case (6 s x xs)
  then have "head s \<noteq> tail s" using ring_queue_length(2) [of "head s" "cells s" "tail s"] by auto
  then show ?case using 6 pop [of s] ring_queue_pop [of "head s" "cells s" "tail s"] by auto
next
  case (7 s)
  then show ?case using ring_queue_length(1) [of "head s" "cells s" "tail s"] by simp
qed

end
