(* ===== verification/Ps2_Input.thy ===== *)
theory Ps2_Input
  imports Ps2 Ring
begin

text \<open>
  The queues of the PS/2 driver as bounded queues, the way from scan codes to the characters that the
  kernel reads, pointer packets, and the initialisation of the keyboard.
\<close>

section \<open>Queues\<close>

lemma ring_step:
  "unat (ucast ((ucast (h :: u8) + 1 :: u32) AND 63) :: u8) = (unat h + 1) mod 64"
  "unat (ucast ((ucast (h :: u8) + 1 :: u32) AND 31) :: u8) = (unat h + 1) mod 32"
proof -
  have m: "(63 :: u32) = mask 6" "(31 :: u32) = mask 5" by (simp_all add: mask_eq_exp_minus_1)
  have u: "unat (ucast h + 1 :: u32) = unat h + 1" using unat_u8_less [of h] by (simp add: unat_word_ariths)
  have "(unat h + 1) mod 64 < 64" "(unat h + 1) mod 32 < 32" by simp_all
  then have "(unat h + 1) mod 64 mod 256 = (unat h + 1) mod 64" "(unat h + 1) mod 32 mod 256 = (unat h + 1) mod 32" by simp_all
  then show "unat (ucast ((ucast h + 1 :: u32) AND 63) :: u8) = (unat h + 1) mod 64"
    "unat (ucast ((ucast h + 1 :: u32) AND 31) :: u8) = (unat h + 1) mod 32"
    unfolding m by (simp_all add: unat_ucast_narrow word_and_mask_mod u del: mod_mod_trivial)
qed

definition key_enq :: "u8 \<Rightarrow> ps2 \<Rightarrow> bool \<times> ps2" where
  "key_enq c s = (let t = queue_key c s in (dropped_keys t = dropped_keys s, t))"

definition key_deq :: "ps2 \<Rightarrow> u8 option \<times> ps2" where
  "key_deq s = (let (v, s) = dequeue_key s in (if 0 \<le> v then Some (word_of_int v) else None, s))"

definition event_enq :: "ps2_mouse_event \<Rightarrow> ps2 \<Rightarrow> bool \<times> ps2" where
  "event_enq e s = (let t = queue_mouse_event e s in (dropped_mouse_events t = dropped_mouse_events s, t))"

interpretation key_ring: ring_buffer 64 key_queue "\<lambda>s. unat (key_head s)" "\<lambda>s. unat (key_tail s)" key_enq key_deq
proof (unfold_locales, goal_cases)
  case (1 s x)
  have "ucast ((ucast (key_head s) + 1) AND (63 :: u32)) = key_tail s \<longleftrightarrow> (unat (key_head s) + 1) mod 64 = unat (key_tail s)"
    unfolding word_unat_eq_iff ring_step by simp
  then show ?case using ring_step(1) [of "key_head s"] by (simp add: key_enq_def queue_key_def Let_def)
next
  case (2 s)
  then show ?case by (simp add: key_deq_def dequeue_key_def Let_def word_unat_eq_iff)
next
  case (3 s)
  then show ?case using ring_step(1) [of "key_tail s"] by (auto simp: key_deq_def dequeue_key_def Let_def)
qed

interpretation event_ring: ring_buffer 32 mouse_queue "\<lambda>s. unat (mouse_head s)" "\<lambda>s. unat (mouse_tail s)" event_enq dequeue_mouse_event
proof (unfold_locales, goal_cases)
  case (1 s x)
  have "ucast ((ucast (mouse_head s) + 1) AND (31 :: u32)) = mouse_tail s \<longleftrightarrow> (unat (mouse_head s) + 1) mod 32 = unat (mouse_tail s)"
    unfolding word_unat_eq_iff ring_step by simp
  then show ?case using ring_step(2) [of "mouse_head s"] by (simp add: event_enq_def queue_mouse_event_def Let_def)
next
  case (2 s)
  then show ?case by (simp add: dequeue_mouse_event_def Let_def word_unat_eq_iff)
next
  case (3 s)
  then show ?case using ring_step(2) [of "mouse_tail s"] by (auto simp: dequeue_mouse_event_def Let_def)
qed

section \<open>From scan codes to characters\<close>

datatype key_op = Scan u8 | Getc

text \<open>What the operations mean: characters that arrive, by the decoder, and reads in between.\<close>

datatype stroke = Key u8 | Read

fun strokes :: "key_op list \<Rightarrow> ps2 \<Rightarrow> stroke list" where
  "strokes [] s = []"
| "strokes (Scan b # ops) s =
    (let (c, s) = decode_scan_code b s in (if 0 \<le> c then [Key (word_of_int c)] else []) @ strokes ops s)"
| "strokes (Getc # ops) s = Read # strokes ops s"

text \<open>
  The specification of the keyboard: a list of at most 63 characters. A character that arrives is appended
  unless 63 are waiting, and is lost and counted only then; a read takes the oldest one. The result is what
  was read, what is still waiting, and how many were lost.
\<close>

fun bounded_keys :: "stroke list \<Rightarrow> u8 list \<Rightarrow> u8 list \<times> u8 list \<times> nat" where
  "bounded_keys [] q = ([], q, 0)"
| "bounded_keys (Key c # es) q =
    (if length q < 63 then bounded_keys es (q @ [c])
     else let (out, r, lost) = bounded_keys es q in (out, r, Suc lost))"
| "bounded_keys (Read # es) [] = bounded_keys es []"
| "bounded_keys (Read # es) (c # q) = (let (out, r, lost) = bounded_keys es q in (c # out, r, lost))"

text \<open>
  Scan codes arrive with the interrupt, from the keyboard half of the controller, and the kernel reads
  characters in between.
\<close>

fun keyboard_run :: "key_op list \<Rightarrow> ps2 \<Rightarrow> u8 list \<times> ps2" where
  "keyboard_run [] s = ([], s)"
| "keyboard_run (Scan b # ops) s = keyboard_run ops (route_data_byte 0 b s)"
| "keyboard_run (Getc # ops) s =
    (let (v, s) = ps2_getc_nonblocking s; (out, s) = keyboard_run ops s
     in (if 0 \<le> v then word_of_int v # out else out, s))"

definition keys :: "ps2 \<Rightarrow> u8 list" where
  "keys s = ring_queue (key_queue s) (unat (key_head s)) (unat (key_tail s))"

definition keyboard_ok :: "ps2 \<Rightarrow> bool" where
  "keyboard_ok s \<longleftrightarrow> keyboard_available s \<and> keyboard_irq_online s \<and>
     length (key_queue s) = 64 \<and> unat (key_head s) < 64 \<and> unat (key_tail s) < 64"

definition modifiers :: "ps2 \<Rightarrow> bool \<times> bool \<times> bool \<times> bool" where
  "modifiers s = (left_shift s, right_shift s, caps_lock s, extended_prefix s)"

lemma decode_modifiers:
  "modifiers s = modifiers t \<Longrightarrow> fst (decode_scan_code b s) = fst (decode_scan_code b t) \<and>
     modifiers (snd (decode_scan_code b s)) = modifiers (snd (decode_scan_code b t))"
  by (simp add: modifiers_def decode_scan_code_def Let_def if_distrib [of fst] if_distrib [of snd] cong: if_cong)

lemma strokes_modifiers: "modifiers s = modifiers t \<Longrightarrow> strokes ops s = strokes ops t"
proof (induction ops arbitrary: s t)
  case (Cons op ops)
  show ?case
  proof (cases op)
    case (Scan b)
    note d = decode_modifiers [OF Cons.prems, of b]
    have "strokes ops (snd (decode_scan_code b s)) = strokes ops (snd (decode_scan_code b t))" by (rule Cons.IH [OF conjunct2 [OF d]])
    then show ?thesis using conjunct1 [OF d] Scan by (simp only: strokes.simps split_beta Let_def)
  next
    case Getc
    then show ?thesis using Cons.IH [OF Cons.prems] by simp
  qed
qed simp

lemma decode_same:
  assumes "decode_scan_code b s = (c, s')"
  shows "keyboard_ok s' = keyboard_ok s" "keys s' = keys s" "dropped_keys s' = dropped_keys s"
proof -
  have "key_queue s' = key_queue s \<and> key_head s' = key_head s \<and> key_tail s' = key_tail s \<and> dropped_keys s' = dropped_keys s \<and>
      keyboard_available s' = keyboard_available s \<and> keyboard_irq_online s' = keyboard_irq_online s"
    using assms by (auto simp: decode_scan_code_def Let_def split: if_splits)
  then show "keyboard_ok s' = keyboard_ok s" "keys s' = keys s" "dropped_keys s' = dropped_keys s"
    by (simp_all add: keyboard_ok_def keys_def)
qed

lemma queue_key_effect:
  assumes "keyboard_ok s"
  shows "keyboard_ok (queue_key c s) \<and> modifiers (queue_key c s) = modifiers s \<and>
    (if length (keys s) < 63 then keys (queue_key c s) = keys s @ [c] \<and> dropped_keys (queue_key c s) = dropped_keys s
     else keys (queue_key c s) = keys s \<and> dropped_keys (queue_key c s) = dropped_keys s + 1)"
proof -
  have i: "length (key_queue s) = 64 \<and> unat (key_head s) < 64 \<and> unat (key_tail s) < 64" using assms by (simp add: keyboard_ok_def)
  have e: "snd (key_enq c s) = queue_key c s" "fst (key_enq c s) \<longleftrightarrow> dropped_keys (queue_key c s) = dropped_keys s"
    by (simp_all add: key_enq_def Let_def)
  have d: "dropped_keys (queue_key c s) = dropped_keys s \<or> dropped_keys (queue_key c s) = dropped_keys s + 1"
    by (simp add: queue_key_def Let_def)
  have m: "keyboard_available (queue_key c s) = keyboard_available s" "keyboard_irq_online (queue_key c s) = keyboard_irq_online s"
      "modifiers (queue_key c s) = modifiers s"
    by (simp_all add: queue_key_def Let_def modifiers_def)
  have "keyboard_ok (queue_key c s)" using key_ring.inv_enq [OF i, of c] e(1) m assms by (simp add: keyboard_ok_def)
  then show ?thesis
    using key_ring.enq_queue [OF i, of c] key_ring.enq_accepts [OF i, of c] key_ring.queue_cap [OF i] e d m
    by (auto simp: keys_def)
qed

lemma getc_effect:
  assumes "keyboard_ok s" "ps2_getc_nonblocking s = (v, s')"
  shows "keyboard_ok s' \<and> modifiers s' = modifiers s \<and> dropped_keys s' = dropped_keys s \<and>
    (if 0 \<le> v then keys s = word_of_int v # keys s' else keys s = [] \<and> keys s' = [])"
proof -
  have i: "length (key_queue s) = 64 \<and> unat (key_head s) < 64 \<and> unat (key_tail s) < 64" using assms by (simp add: keyboard_ok_def)
  have d: "dequeue_key s = (v, s')" using assms by (simp add: ps2_getc_nonblocking_def keyboard_ok_def)
  then have e: "key_deq s = (if 0 \<le> v then Some (word_of_int v) else None, s')" by (simp add: key_deq_def)
  have m: "keyboard_available s' = keyboard_available s" "keyboard_irq_online s' = keyboard_irq_online s"
      "modifiers s' = modifiers s" "dropped_keys s' = dropped_keys s"
    using d by (auto simp: dequeue_key_def Let_def modifiers_def split: if_splits)
  have "keyboard_ok s'" using key_ring.inv_deq [OF i] e m assms(1) by (simp add: keyboard_ok_def)
  moreover have "if 0 \<le> v then keys s = word_of_int v # keys s' else keys s = [] \<and> keys s' = []"
  proof (cases "keys s")
    case Nil
    then show ?thesis using key_ring.deq_empty [OF i] e by (auto simp: keys_def split: if_splits)
  next
    case (Cons x xs)
    then show ?thesis using key_ring.deq_queue [OF i, of x xs] e by (auto simp: keys_def split: if_splits)
  qed
  ultimately show ?thesis using m by simp
qed

lemma keyboard_run_refines:
  assumes "keyboard_ok s" "keyboard_run ops s = (out, t)"
  shows "\<exists>lost. bounded_keys (strokes ops s) (keys s) = (out, keys t, lost) \<and> dropped_keys t = dropped_keys s + of_nat lost"
  using assms
proof (induction ops arbitrary: s out)
  case Nil
  then show ?case by simp
next
  case (Cons op ops)
  show ?case
  proof (cases op)
    case Getc
    obtain v s1 where g: "ps2_getc_nonblocking s = (v, s1)" by fastforce
    obtain out1 where r: "keyboard_run ops s1 = (out1, t)" "out = (if 0 \<le> v then word_of_int v # out1 else out1)"
      using Cons.prems(2) Getc g by (auto split: prod.splits)
    note e = getc_effect [OF Cons.prems(1) g]
    show ?thesis using Cons.IH [OF _ r(1)] e r(2) strokes_modifiers [of s1 s ops] Getc
      by (cases "0 \<le> v"; cases "keys s1") auto
  next
    case (Scan b)
    obtain c s1 where d: "decode_scan_code b s = (c, s1)" by fastforce
    note same = decode_same [OF d]
    have k: "keyboard_ok s1" "keyboard_available s" using same Cons.prems(1) by (simp_all add: keyboard_ok_def)
    show ?thesis
    proof (cases "0 \<le> c")
      case False
      then have "keyboard_run ops s1 = (out, t)" using Cons.prems(2) Scan d k(2) by (simp add: route_data_byte_def)
      then show ?thesis using Cons.IH [OF k(1)] Scan False d same by simp
    next
      case True
      let ?s2 = "queue_key (word_of_int c) s1"
      have r: "keyboard_run ops ?s2 = (out, t)" using Cons.prems(2) Scan d k(2) True by (simp add: route_data_byte_def)
      note q = queue_key_effect [OF k(1), of "word_of_int c"]
      have "strokes ops ?s2 = strokes ops s1" using q strokes_modifiers by blast
      then show ?thesis using Cons.IH [OF _ r] q Scan d same True by (auto split: if_splits)
    qed
  qed
qed

section \<open>Pointer packets\<close>

text \<open>The three bytes by which a PS/2 pointer reports a movement and its buttons.\<close>

definition pointer_packet :: "int \<Rightarrow> int \<Rightarrow> u8 \<Rightarrow> u8 list" where
  "pointer_packet dx dy buttons =
    [0x08 OR buttons OR (if dx < 0 then 0x10 else 0) OR (if dy < 0 then 0x20 else 0), word_of_int dx, word_of_int dy]"

lemma nine_bits:
  assumes "-256 \<le> dx" "dx \<le> 255"
  shows "(if dx < 0 then uint (word_of_int dx :: u8) - 256 else uint (word_of_int dx :: u8)) = dx"
proof -
  have u: "uint (word_of_int dx :: u8) = dx mod 256" by (simp add: uint_word_of_int)
  show ?thesis
  proof (cases "dx < 0")
    case True
    then have "dx mod 256 = (dx + 256) mod 256" by simp
    also have "\<dots> = dx + 256" using True assms by (intro mod_pos_pos_trivial) simp_all
    finally show ?thesis using u True by simp
  qed (use u assms in simp)
qed

definition packet_flags :: "u8 \<Rightarrow> bool \<Rightarrow> bool \<Rightarrow> u8" where
  "packet_flags buttons x y = 0x08 OR buttons OR (if x then 0x10 else 0) OR (if y then 0x20 else 0)"

lemma packet_flags_all:
  "list_all (\<lambda>b. list_all (\<lambda>x. list_all (\<lambda>y. packet_flags b x y AND 0x08 \<noteq> 0 \<and> packet_flags b x y AND 0xC0 = 0 \<and>
     (packet_flags b x y AND 0x10 \<noteq> 0 \<longleftrightarrow> x) \<and> (packet_flags b x y AND 0x20 \<noteq> 0 \<longleftrightarrow> y) \<and> packet_flags b x y AND 0x07 = b)
     [False, True]) [False, True]) [0, 1, 2, 3, 4, 5, 6, 7]"
  by (simp add: packet_flags_def)

lemma packet_flags_bits:
  assumes "buttons < 8"
  shows "packet_flags buttons x y AND 0x08 \<noteq> 0 \<and> packet_flags buttons x y AND 0xC0 = 0 \<and>
     (packet_flags buttons x y AND 0x10 \<noteq> 0 \<longleftrightarrow> x) \<and> (packet_flags buttons x y AND 0x20 \<noteq> 0 \<longleftrightarrow> y) \<and>
     packet_flags buttons x y AND 0x07 = buttons"
proof -
  have "unat buttons \<in> {0, 1, 2, 3, 4, 5, 6, 7}" using assms by (auto simp: word_less_nat_alt)
  then have "buttons \<in> set [0, 1, 2, 3, 4, 5, 6, 7]" by (simp add: word_unat_eq_iff)
  moreover have "x \<in> set [False, True]" "y \<in> set [False, True]" by (cases x; cases y; simp)+
  ultimately show ?thesis using packet_flags_all unfolding list_all_iff by blast
qed

text \<open>
  Claim C32. A pointer packet of three bytes, read from the start of a packet, becomes exactly one event with the
  movement it encodes, to the right and downwards positive, and its buttons, over the whole nine-bit range of
  movements; the driver is then at the start of the next packet.
\<close>

theorem pointer_packet_roundtrip:
  assumes "-256 \<le> dx" "dx \<le> 255" "-256 \<le> dy" "dy \<le> 255" "buttons < 8"
    and "mouse_packet_index s = 0" "length (mouse_packet s) = 3"
  shows "fold decode_mouse_byte (pointer_packet dx dy buttons) s =
    queue_mouse_event \<lparr>mouse_dx = dx, mouse_dy = - dy, mouse_buttons = buttons\<rparr>
      (s\<lparr>mouse_packet := pointer_packet dx dy buttons, mouse_packet_index := 0, mouse_packets := mouse_packets s + 1\<rparr>)"
proof -
  obtain a b c where p: "mouse_packet s = [a, b, c]" using assms(7) by (auto simp: length_Suc_conv numeral_3_eq_3)
  let ?f = "packet_flags buttons (dx < 0) (dy < 0)"
  note f = packet_flags_bits [OF assms(5), of "dx < 0" "dy < 0"]
  have e: "pointer_packet dx dy buttons = [?f, word_of_int dx, word_of_int dy]" by (simp add: pointer_packet_def packet_flags_def)
  note m = nine_bits [OF assms(1,2)] nine_bits [OF assms(3,4)]
  show ?thesis using f m p assms(6) by (simp add: e decode_mouse_byte_def Let_def)
qed

definition ps2_demo :: ps2 where
  "ps2_demo = \<lparr>controller_available = True, keyboard_available = True, keyboard_irq_online = True, mouse_available = True,
     mouse_irq_online = True, left_shift = False, right_shift = False, caps_lock = False, extended_prefix = False,
     key_queue = replicate 64 0, key_head = 0, key_tail = 0, dropped_keys = 0,
     mouse_queue = replicate 32 \<lparr>mouse_dx = 0, mouse_dy = 0, mouse_buttons = 0\<rparr>, mouse_head = 0, mouse_tail = 0,
     mouse_packet = [0, 0, 0], mouse_packet_index = 0, mouse_packets = 0, dropped_mouse_events = 0,
     ps2_ports = \<lparr>port_device = (\<lambda>_ _. 0), port_history = []\<rparr>\<rparr>"

theorem pointer_packet_roundtrip_witness:
  "fst (dequeue_mouse_event (fold decode_mouse_byte (pointer_packet (-200) 7 1) ps2_demo)) =
     Some \<lparr>mouse_dx = -200, mouse_dy = -7, mouse_buttons = 1\<rparr>"
  using pointer_packet_roundtrip [of "-200" 7 1 ps2_demo]
  by (simp add: ps2_demo_def queue_mouse_event_def dequeue_mouse_event_def Let_def word_less_nat_alt)

text \<open>
  Claim C31. What is typed is what is read. Over any interleaving of scan codes from the keyboard and reads by
  the kernel, the driver behaves exactly as a list of at most 63 characters: every character that the scan
  codes stand for is read once and in order, a character is lost exactly when 63 are already waiting, and
  the counter of lost characters grows by one for each of those.
\<close>

theorem keyboard_refines_bounded_queue:
  assumes "keyboard_ok s" "keyboard_run ops s = (out, t)"
  shows "\<exists>lost. bounded_keys (strokes ops s) (keys s) = (out, keys t, lost) \<and> dropped_keys t = dropped_keys s + of_nat lost"
  by (rule keyboard_run_refines [OF assms])

lemma keyboard_demo: "keyboard_ok ps2_demo" "keys ps2_demo = []"
  by (simp_all add: keyboard_ok_def keys_def ps2_demo_def ring_queue_def span_def)

theorem keyboard_refines_bounded_queue_witness:
  "\<exists>out t. keyboard_run [Scan 0x2A, Scan 0x1E, Getc, Scan 0xAA, Scan 0x1E] ps2_demo = (out, t) \<and>
     out = [0x41] \<and> keys t = [0x61] \<and> dropped_keys t = 0"
proof -
  let ?ops = "[Scan 0x2A, Scan 0x1E, Getc, Scan 0xAA, Scan 0x1E]"
  have st: "strokes ?ops ps2_demo = [Key 0x41, Read, Key 0x61]"
    by (simp add: decode_scan_code_def ps2_demo_def translate_letter_def letters_def nth_append)
  obtain out t where r: "keyboard_run ?ops ps2_demo = (out, t)" by fastforce
  have "dropped_keys ps2_demo = 0" by (simp add: ps2_demo_def)
  then show ?thesis using keyboard_refines_bounded_queue [OF keyboard_demo(1) r] r unfolding st by (auto simp: keyboard_demo(2))
qed

text \<open>
  The characters of the keyboard: letters, digits, the signs above the digits and at the end of their row,
  blank, backspace, tabulator, newline, and the codes of the arrow keys and of escape.
\<close>

definition keyboard_alphabet :: "u8 list" where
  "keyboard_alphabet =
    map of_char ''abcdefghijklmnopqrstuvwxyzABCDEFGHIJKLMNOPQRSTUVWXYZ0123456789-=!@#$%^&*()_+ '' @
    [8, 9, 10, 0x80, 0x81, 0x82, 0x83, 0x84]"

text \<open>Scan codes that give them, in the same order.\<close>

definition keystrokes :: "u8 list list" where
  "keystrokes =
   [[0x1E], [0x30], [0x2E], [0x20], [0x12], [0x21], [0x22], [0x23], [0x17], [0x24], [0x25], [0x26], [0x32],
    [0x31], [0x18], [0x19], [0x10], [0x13], [0x1F], [0x14], [0x16], [0x2F], [0x11], [0x2D], [0x15], [0x2C],
    [0x2A, 0x1E], [0x2A, 0x30], [0x2A, 0x2E], [0x2A, 0x20], [0x2A, 0x12], [0x2A, 0x21], [0x2A, 0x22], [0x2A,
    0x23], [0x2A, 0x17], [0x2A, 0x24], [0x2A, 0x25], [0x2A, 0x26], [0x2A, 0x32], [0x2A, 0x31], [0x2A, 0x18],
    [0x2A, 0x19], [0x2A, 0x10], [0x2A, 0x13], [0x2A, 0x1F], [0x2A, 0x14], [0x2A, 0x16], [0x2A, 0x2F], [0x2A,
    0x11], [0x2A, 0x2D], [0x2A, 0x15], [0x2A, 0x2C], [0x0B], [0x02], [0x03], [0x04], [0x05], [0x06], [0x07],
    [0x08], [0x09], [0x0A], [0x0C], [0x0D], [0x2A, 0x02], [0x2A, 0x03], [0x2A, 0x04], [0x2A, 0x05], [0x2A,
    0x06], [0x2A, 0x07], [0x2A, 0x08], [0x2A, 0x09], [0x2A, 0x0A], [0x2A, 0x0B], [0x2A, 0x0C], [0x2A, 0x0D],
    [0x39], [0x0E], [0x0F], [0x1C], [0xE0, 0x48], [0xE0, 0x50], [0xE0, 0x4B], [0xE0, 0x4D], [0x01]]"

lemma keystrokes_alphabet:
  "list_all (\<lambda>(bs, c). strokes (map Scan bs @ [Getc]) ps2_demo = [Key c, Read]) (zip keystrokes keyboard_alphabet) \<and>
    length keystrokes = length keyboard_alphabet"
  by code_simp

lemma translate_alphabet:
  "translate_letter code shifted \<noteq> 0 \<Longrightarrow> translate_letter code shifted \<in> set keyboard_alphabet"
  "translate_symbol code shifted \<noteq> 0 \<Longrightarrow> translate_symbol code shifted \<in> set keyboard_alphabet"
proof -
  have l: "list_all (\<lambda>v. v = 0 \<or> v \<in> set keyboard_alphabet \<and> v - 0x61 + 0x41 \<in> set keyboard_alphabet) letters"
    by code_simp
  have n: "length letters = 51" "length symbols_normal = 17" "length symbols_upper = 17"
    by (simp_all add: letters_def symbols_normal_def symbols_upper_def)
  show "translate_letter code shifted \<in> set keyboard_alphabet" if "translate_letter code shifted \<noteq> 0"
  proof -
    have c: "unat code < 51" "letters ! unat code \<noteq> 0"
      using that by (auto simp: translate_letter_def n word_le_nat_alt split: if_splits)
    then have "letters ! unat code \<in> set keyboard_alphabet" "letters ! unat code - 0x61 + 0x41 \<in> set keyboard_alphabet"
      using l unfolding list_all_length n by blast+
    then show ?thesis using that unfolding translate_letter_def Let_def by (simp only: split: if_splits) simp_all
  qed
  have y: "list_all (\<lambda>v. v = 0 \<or> v \<in> set keyboard_alphabet) symbols_normal" "list_all (\<lambda>v. v = 0 \<or> v \<in> set keyboard_alphabet) symbols_upper"
    by code_simp+
  show "translate_symbol code shifted \<in> set keyboard_alphabet" if "translate_symbol code shifted \<noteq> 0"
  proof -
    let ?v = "if shifted then symbols_upper ! unat code else symbols_normal ! unat code"
    have c: "unat code < 17" using that by (auto simp: translate_symbol_def n word_le_nat_alt split: if_splits)
    then have "translate_symbol code shifted = ?v" by (auto simp: translate_symbol_def n word_le_nat_alt Let_def)
    then show ?thesis using y c that unfolding list_all_length n by (auto split: if_splits)
  qed
qed

lemma decode_alphabet:
  assumes "decode_scan_code b s = (c, s')" "0 \<le> c"
  shows "word_of_int c \<in> set keyboard_alphabet"
proof -
  have f: "list_all (\<lambda>v. v \<in> set keyboard_alphabet) [8, 9, 10, 32, 0x80, 0x81, 0x82, 0x83, 0x84]" by code_simp
  show ?thesis using assms f translate_alphabet
    by (auto simp: decode_scan_code_def Let_def split: if_splits)
qed

lemma strokes_alphabet: "Key c \<in> set (strokes ops s) \<Longrightarrow> c \<in> set keyboard_alphabet"
  by (induction ops s rule: strokes.induct) (auto split: prod.splits if_splits dest: decode_alphabet [OF sym])

lemma bounded_keys_set:
  "bounded_keys es q = (out, r, lost) \<Longrightarrow> c \<in> set out \<Longrightarrow> c \<in> set q \<or> Key c \<in> set es"
  by (induction es q arbitrary: out lost rule: bounded_keys.induct) (auto split: if_splits prod.splits)

text \<open>
  Claim C39. What can be typed. Starting with nothing queued and no modifier held, there is a sequence of scan codes
  after which the kernel reads a character exactly when it is one of \<^const>\<open>keyboard_alphabet\<close>. Both directions
  hold for the shifted keys too; in particular the brackets, semicolon, quotes, grave, backslash, comma,
  period and slash, shifted or not, can never be read, although \<^verbatim>\<open>translate_symbol\<close> lists them in its switch.
\<close>

theorem keyboard_alphabet_exact:
  assumes "keyboard_ok s" "keys s = []" "modifiers s = (False, False, False, False)"
  shows "(\<exists>ops out t. keyboard_run ops s = (out, t) \<and> c \<in> set out) \<longleftrightarrow> c \<in> set keyboard_alphabet"
proof
  assume "\<exists>ops out t. keyboard_run ops s = (out, t) \<and> c \<in> set out"
  then obtain ops out t where r: "keyboard_run ops s = (out, t)" "c \<in> set out" by blast
  obtain lost where "bounded_keys (strokes ops s) [] = (out, keys t, lost)"
    using keyboard_run_refines [OF assms(1) r(1)] assms(2) by auto
  then show "c \<in> set keyboard_alphabet" using bounded_keys_set [OF _ r(2)] strokes_alphabet by fastforce
next
  assume "c \<in> set keyboard_alphabet"
  then obtain i where "i < length keyboard_alphabet" "keyboard_alphabet ! i = c" by (auto simp: in_set_conv_nth)
  then have "strokes (map Scan (keystrokes ! i) @ [Getc]) ps2_demo = [Key c, Read]"
    using keystrokes_alphabet by (auto simp: list_all_length)
  moreover have "modifiers ps2_demo = modifiers s" using assms(3) by (simp add: modifiers_def ps2_demo_def)
  ultimately have st: "strokes (map Scan (keystrokes ! i) @ [Getc]) s = [Key c, Read]" using strokes_modifiers by metis
  obtain out t where r: "keyboard_run (map Scan (keystrokes ! i) @ [Getc]) s = (out, t)" by fastforce
  then have "out = [c]" using keyboard_run_refines [OF assms(1) r] assms(2) st by auto
  then have "c \<in> set out" by simp
  with r show "\<exists>ops out t. keyboard_run ops s = (out, t) \<and> c \<in> set out" by blast
qed

theorem keyboard_alphabet_exact_witness:
  "(\<exists>ops out t. keyboard_run ops ps2_demo = (out, t) \<and> 0x41 \<in> set out) \<and>
   \<not> (\<exists>ops out t. keyboard_run ops ps2_demo = (out, t) \<and> 0x2F \<in> set out)"
proof -
  have "modifiers ps2_demo = (False, False, False, False)" by (simp add: modifiers_def ps2_demo_def)
  note e = keyboard_alphabet_exact [OF keyboard_demo this]
  have "0x41 \<in> set keyboard_alphabet" "0x2F \<notin> set keyboard_alphabet" by code_simp+
  then show ?thesis unfolding e by blast
qed

text \<open>Talking to the controller changes nothing but the ports.\<close>

definition ports_only :: "ps2 \<Rightarrow> ps2 \<Rightarrow> bool" where "ports_only s s' \<longleftrightarrow> (\<exists>io. s' = s\<lparr>ps2_ports := io\<rparr>)"

lemma ports_only_refl: "ports_only s s"
  unfolding ports_only_def by (rule exI [of _ "ps2_ports s"]) simp

lemma ports_only_trans: "ports_only s t \<Longrightarrow> ports_only t u \<Longrightarrow> ports_only s u"
  by (auto simp: ports_only_def)

lemma ports_only_access: "ps2_in port s = (v, s') \<Longrightarrow> ports_only s s'" "ports_only s (ps2_out port w s)"
  by (auto simp: ports_only_def ps2_in_def ps2_out_def split: prod.splits)

lemma wait_input_ports: "wait_input_loop n s = (b, s') \<Longrightarrow> ports_only s s'"
proof (induction n arbitrary: s)
  case (Suc n)
  obtain v t where i: "ps2_in PS2_STATUS_PORT s = (v, t)" by fastforce
  show ?case using Suc.prems i ports_only_trans [OF ports_only_access(1) [OF i]] Suc.IH [of t] ports_only_access(1) [OF i]
    by (auto split: if_splits)
qed (simp add: ports_only_refl)

lemma wait_output_ports: "wait_output_loop n s = (b, s') \<Longrightarrow> ports_only s s'"
proof (induction n arbitrary: s)
  case (Suc n)
  obtain v t where i: "ps2_in PS2_STATUS_PORT s = (v, t)" by fastforce
  show ?case using Suc.prems i ports_only_trans [OF ports_only_access(1) [OF i]] Suc.IH [of t] ports_only_access(1) [OF i]
    by (auto split: if_splits)
qed (simp add: ports_only_refl)

lemma flush_ports: "ports_only s (flush_loop n s)"
proof (induction n arbitrary: s)
  case (Suc n)
  obtain v t where i: "ps2_in PS2_STATUS_PORT s = (v, t)" by fastforce
  obtain w u where j: "ps2_in PS2_DATA_PORT t = (w, u)" by fastforce
  show ?case using i j ports_only_trans [OF ports_only_access(1) [OF i]] ports_only_trans [OF ports_only_access(1) [OF j] Suc.IH [of u]]
      ports_only_access(1) [OF i] by simp
qed (simp add: ports_only_refl)

lemma command_ports:
  "controller_command c s = (b, s') \<Longrightarrow> ports_only s s'"
  "controller_read_byte s = (r, s') \<Longrightarrow> ports_only s s'"
  by (auto simp: controller_command_def controller_read_byte_def wait_input_empty_def wait_output_full_def
      split: prod.splits if_splits dest!: wait_input_ports wait_output_ports ports_only_access(1)
      intro: ports_only_trans ports_only_access(2))

lemma config_ports:
  "controller_read_config s = (r, s') \<Longrightarrow> ports_only s s'"
  "controller_write_config c s = (b, s') \<Longrightarrow> ports_only s s'"
  by (auto simp: controller_read_config_def controller_write_config_def wait_input_empty_def
      split: prod.splits if_splits dest!: wait_input_ports command_ports intro: ports_only_trans ports_only_access(2))

lemma configure_ports: "configure_keyboard_port s = (b, s') \<Longrightarrow> ports_only s s'"
  by (auto simp: configure_keyboard_port_def split: prod.splits if_splits option.splits dest!: config_ports command_ports(1)
      intro: ports_only_trans)

text \<open>
  Claim C38. The handler of the keyboard stays registered exactly when its interrupt is routed. Whatever step of the
  initialisation fails, no handler is left behind on the vector.
\<close>

theorem keyboard_handler_iff_online:
  assumes "ps2_keyboard_init handler acpi s a ap v = (ok, s', a', ap')" "handler \<noteq> 0"
    and "length (interrupt_handlers a) = 256" "interrupt_handlers a ! 0x41 = 0"
  shows "(keyboard_irq_online s' \<longleftrightarrow> interrupt_handlers a' ! 0x41 = handler) \<and>
    (\<not> keyboard_irq_online s' \<longrightarrow> interrupt_handlers a' = interrupt_handlers a) \<and> (keyboard_irq_online s' \<longrightarrow> ok \<and> keyboard_available s')"
proof -
  define s0 where "s0 = s\<lparr>controller_available := False, keyboard_available := False, keyboard_irq_online := False\<rparr>"
  obtain status s1 where i: "ps2_in PS2_STATUS_PORT s0 = (status, s1)" by fastforce
  have f1: "\<not> keyboard_irq_online s1" using ports_only_access(1) [OF i] by (auto simp: ports_only_def s0_def)
  define s2 where "s2 = (flush_loop 32 s1)\<lparr>left_shift := False, right_shift := False, caps_lock := False, extended_prefix := False,
     key_head := 0, key_tail := 0, dropped_keys := 0, controller_available := True, keyboard_available := True\<rparr>"
  have f2: "\<not> keyboard_irq_online s2" "keyboard_available s2"
    using flush_ports [of s1 32] f1 by (auto simp: ports_only_def s2_def)
  obtain c s3 where c: "configure_keyboard_port s2 = (c, s3)" by fastforce
  have f3: "\<not> keyboard_irq_online s3" "keyboard_available s3" using configure_ports [OF c] f2 by (auto simp: ports_only_def)
  have restore: "(interrupt_handlers a)[65 := 0] = interrupt_handlers a" using assms(4) by (metis list_update_id)
  show ?thesis
    using assms i c f1 f2 f3 restore
    by (auto simp: ps2_keyboard_init_def s0_def [symmetric] s2_def [symmetric] interrupt_register_def interrupt_unregister_def Let_def
        split: if_splits option.splits prod.splits)
qed

definition arch_demo :: arch where
  "arch_demo = \<lparr>gdt = replicate 7 0, idt = replicate 256 zero_gate, interrupt_handlers = replicate 256 0,
     tss = \<lparr>tss_rsp = replicate 3 0, tss_ist = replicate 7 0, io_map_base = 104\<rparr>, loaded_gdt = (0, 0),
     loaded_idt = (0, 0), task_register = 0, pic_masks = (0, 0), syscall_kernel_rsp = 0\<rparr>"

theorem keyboard_handler_iff_online_witness:
  "\<forall>v. \<exists>ok s' a' ap'. ps2_keyboard_init 5 (Some acpi_defaults) ps2_demo arch_demo apic_example v = (ok, s', a', ap') \<and>
     (keyboard_irq_online s' \<longleftrightarrow> interrupt_handlers a' ! 0x41 = 5)"
proof
  fix v
  obtain ok s' a' ap' where r: "ps2_keyboard_init 5 (Some acpi_defaults) ps2_demo arch_demo apic_example v = (ok, s', a', ap')"
    by (metis surj_pair)
  show "\<exists>ok s' a' ap'. ps2_keyboard_init 5 (Some acpi_defaults) ps2_demo arch_demo apic_example v = (ok, s', a', ap') \<and>
     (keyboard_irq_online s' \<longleftrightarrow> interrupt_handlers a' ! 0x41 = 5)"
    using keyboard_handler_iff_online [OF r] r by (simp add: arch_demo_def)
qed

end
