(* ===== verification/Net.thy ===== *)
theory Net
  imports Argus_Prelude
begin

text \<open>
  The packet core, the Rust module \<^verbatim>\<open>src/rust_net.rs\<close>: checksums, the inspection of Ethernet frames with
  IPv4 and UDP or TCP, two bounded packet queues and the TCP states. A slice is the list of its bytes; a raw
  pointer is an address, together with the bytes behind it where the code reads them.
\<close>

section \<open>Constants and data\<close>

abbreviation (input) MAX_FRAME :: nat where "MAX_FRAME \<equiv> 1514"
abbreviation (input) QUEUE_CAPACITY :: nat where "QUEUE_CAPACITY \<equiv> 8"
abbreviation (input) STATE_MAGIC :: u64 where "STATE_MAGIC \<equiv> 0x41524755534E4554"
abbreviation (input) NET_STATE_SIZE :: u64 where "NET_STATE_SIZE \<equiv> 24288"
abbreviation (input) NET_STATE_ALIGN :: u64 where "NET_STATE_ALIGN \<equiv> 16"
abbreviation (input) SUMMARY_SIZE :: u64 where "SUMMARY_SIZE \<equiv> 24"
abbreviation (input) QUEUE_INGRESS :: u32 where "QUEUE_INGRESS \<equiv> 0"
abbreviation (input) QUEUE_EGRESS :: u32 where "QUEUE_EGRESS \<equiv> 1"

abbreviation (input) NET_OK :: int where "NET_OK \<equiv> 0"
abbreviation (input) NET_INVALID :: int where "NET_INVALID \<equiv> - 1"
abbreviation (input) NET_UNSUPPORTED :: int where "NET_UNSUPPORTED \<equiv> - 2"
abbreviation (input) NET_CHECKSUM :: int where "NET_CHECKSUM \<equiv> - 3"
abbreviation (input) NET_FRAGMENT :: int where "NET_FRAGMENT \<equiv> - 4"
abbreviation (input) NET_QUEUE_FULL :: int where "NET_QUEUE_FULL \<equiv> - 5"
abbreviation (input) NET_BUFFER_TOO_SMALL :: int where "NET_BUFFER_TOO_SMALL \<equiv> - 6"
abbreviation (input) NET_QUEUE_EMPTY :: int where "NET_QUEUE_EMPTY \<equiv> - 7"
abbreviation (input) NET_STATE_ERROR :: int where "NET_STATE_ERROR \<equiv> - 8"

abbreviation (input) TCP_CLOSED :: u32 where "TCP_CLOSED \<equiv> 0"
abbreviation (input) TCP_SYN_SENT :: u32 where "TCP_SYN_SENT \<equiv> 1"
abbreviation (input) TCP_ESTABLISHED :: u32 where "TCP_ESTABLISHED \<equiv> 2"
abbreviation (input) TCP_FIN_WAIT :: u32 where "TCP_FIN_WAIT \<equiv> 3"
abbreviation (input) TCP_CLOSE_WAIT :: u32 where "TCP_CLOSE_WAIT \<equiv> 4"
abbreviation (input) TCP_LAST_ACK :: u32 where "TCP_LAST_ACK \<equiv> 5"
abbreviation (input) TCP_ACTIVE_OPEN :: u32 where "TCP_ACTIVE_OPEN \<equiv> 1"
abbreviation (input) TCP_SYN_ACK :: u32 where "TCP_SYN_ACK \<equiv> 2"
abbreviation (input) TCP_DATA :: u32 where "TCP_DATA \<equiv> 3"
abbreviation (input) TCP_ACTIVE_CLOSE :: u32 where "TCP_ACTIVE_CLOSE \<equiv> 4"
abbreviation (input) TCP_PEER_FIN :: u32 where "TCP_PEER_FIN \<equiv> 5"
abbreviation (input) TCP_ACK :: u32 where "TCP_ACK \<equiv> 6"
abbreviation (input) TCP_RESET :: u32 where "TCP_RESET \<equiv> 7"
abbreviation (input) TCP_TIMEOUT :: u32 where "TCP_TIMEOUT \<equiv> 8"

record packet_summary =
  ps_ether_type :: u16
  ps_ip_total_length :: u16
  ps_protocol :: u8
  ps_tcp_flags :: u8
  ps_transport_header_length :: u16
  ps_source_ipv4 :: u32
  ps_destination_ipv4 :: u32
  ps_source_port :: u16
  ps_destination_port :: u16
  ps_payload_length :: u16
  ps_reserved :: u16

record packet =
  pk_length :: u16
  pk_bytes :: "u8 list"

record packet_queue =
  pq_packets :: "packet list"
  pq_head :: u8
  pq_tail :: u8
  pq_count :: u8

record net_state =
  ns_magic :: u64
  ns_ingress :: packet_queue
  ns_egress :: packet_queue

section \<open>Bytes and checksums\<close>

definition slice_get :: "u8 list \<Rightarrow> nat \<Rightarrow> nat \<Rightarrow> u8 list option" where
  "slice_get bs from to = (if from \<le> to \<and> to \<le> length bs then Some (take (to - from) (drop from bs)) else None)"

definition byte_get :: "u8 list \<Rightarrow> nat \<Rightarrow> u8 option" where
  "byte_get bs i = (if i < length bs then Some (bs ! i) else None)"

definition be16 :: "u8 \<Rightarrow> u8 \<Rightarrow> u16" where
  "be16 high low = push_bit 8 (ucast high) OR ucast low"

definition read_be16 :: "u8 list \<Rightarrow> nat \<Rightarrow> u16 option" where
  "read_be16 bs offset = (case slice_get bs offset (offset + 2) of Some [high, low] \<Rightarrow> Some (be16 high low) | _ \<Rightarrow> None)"

definition read_be32 :: "u8 list \<Rightarrow> nat \<Rightarrow> u32 option" where
  "read_be32 bs offset =
    (case slice_get bs offset (offset + 4) of
       Some [first, second, third, fourth] \<Rightarrow>
         Some (push_bit 24 (ucast first) OR push_bit 16 (ucast second) OR push_bit 8 (ucast third) OR ucast fourth)
     | _ \<Rightarrow> None)"

text \<open>Whether the two bytes fitted is a result that no caller looks at.\<close>

definition write_be16 :: "u8 list \<Rightarrow> nat \<Rightarrow> u16 \<Rightarrow> u8 list" where
  "write_be16 bs offset v =
    (if offset + 2 \<le> length bs then bs[offset := ucast (drop_bit 8 v), offset + 1 := ucast v] else bs)"

fun checksum_add :: "u32 \<Rightarrow> u8 list \<Rightarrow> u32" where
  "checksum_add acc (high # low # rest) = checksum_add (acc + (push_bit 8 (ucast high) OR ucast low)) rest"
| "checksum_add acc [final] = acc + push_bit 8 (ucast final)"
| "checksum_add acc [] = acc"

lemma fold_step_unat: "unat ((acc AND 0xFFFF) + drop_bit 16 acc :: u32) = unat acc mod 2 ^ 16 + unat acc div 2 ^ 16"
proof -
  have "(0xFFFF :: u32) = mask 16" by (simp add: mask_eq_exp_minus_1)
  then have lo: "unat (acc AND 0xFFFF) = unat acc mod 2 ^ 16" using word_and_mask_mod [of acc 16] by simp
  have hi: "unat (drop_bit 16 acc) = unat acc div 2 ^ 16" unfolding unat_drop_bit_eq by (rule drop_bit_eq_div)
  show ?thesis unfolding unat_word_ariths lo hi using unat_u32_less [of acc] by simp
qed

function checksum_fold :: "u32 \<Rightarrow> u16" where
  "checksum_fold acc = (if drop_bit 16 acc \<noteq> 0 then checksum_fold ((acc AND 0xFFFF) + drop_bit 16 acc) else ucast acc)"
  by pat_completeness auto
termination
proof (relation "measure unat", goal_cases)
  case (2 acc)
  then have "unat (drop_bit 16 acc) \<noteq> 0" by (simp add: unat_eq_0)
  then have "1 \<le> unat acc div 2 ^ 16" unfolding unat_drop_bit_eq by (simp add: drop_bit_eq_div Suc_le_eq)
  then have "unat acc div 2 ^ 16 < unat acc div 2 ^ 16 * 2 ^ 16" by simp
  moreover have "unat acc = unat acc div 2 ^ 16 * 2 ^ 16 + unat acc mod 2 ^ 16" by (rule div_mult_mod_eq [symmetric])
  ultimately show ?case unfolding in_measure fold_step_unat by linarith
qed simp

declare checksum_fold.simps [simp del]

definition checksum_valid :: "u8 list \<Rightarrow> bool" where
  "checksum_valid bs \<longleftrightarrow> checksum_fold (checksum_add 0 bs) = 0xFFFF"

definition checksum_value :: "u8 list \<Rightarrow> u16" where
  "checksum_value bs = NOT (checksum_fold (checksum_add 0 bs))"

definition transport_checksum_valid :: "u8 list \<Rightarrow> u8 list \<Rightarrow> u8 \<Rightarrow> u8 list \<Rightarrow> bool" where
  "transport_checksum_valid source destination protocol segment =
    (if length source \<noteq> 4 \<or> length destination \<noteq> 4 \<or> (0xFFFF :: u64) < of_nat (length segment) then False
     else
       let acc = checksum_add 0 source; acc = checksum_add acc destination; acc = acc + ucast protocol;
           acc = acc + of_nat (length segment)
       in checksum_fold (checksum_add acc segment) = 0xFFFF)"

definition transport_checksum_value :: "u8 list \<Rightarrow> u8 list \<Rightarrow> u8 \<Rightarrow> u8 list \<Rightarrow> u16" where
  "transport_checksum_value source destination protocol segment =
    (let acc = checksum_add 0 source; acc = checksum_add acc destination; acc = acc + ucast protocol;
         acc = acc + of_nat (length segment); v = NOT (checksum_fold (checksum_add acc segment))
     in if v = 0 then 0xFFFF else v)"

section \<open>Inspection\<close>

text \<open>The results of the code: an error code or a value. A missing byte is the error \<^verbatim>\<open>INVALID\<close>.\<close>

definition or_invalid :: "'a option \<Rightarrow> ('a \<Rightarrow> int + 'b) \<Rightarrow> int + 'b" where
  "or_invalid r f = (case r of None \<Rightarrow> Inl NET_INVALID | Some v \<Rightarrow> f v)"

definition inspect_ports :: "packet_summary \<Rightarrow> int + packet_summary" where
  "inspect_ports summary =
    (if ps_source_port summary = 0 \<or> ps_destination_port summary = 0 then Inl NET_INVALID else Inr summary)"

definition inspect_udp :: "u8 list \<Rightarrow> u8 list \<Rightarrow> u8 list \<Rightarrow> packet_summary \<Rightarrow> int + packet_summary" where
  "inspect_udp source destination transport summary =
    (if length transport < 8 then Inl NET_INVALID
     else or_invalid (read_be16 transport 4) (\<lambda>udp_length.
       if unat udp_length \<noteq> length transport \<or> unat udp_length < 8 then Inl NET_INVALID
       else or_invalid (read_be16 transport 6) (\<lambda>checksum.
         if checksum = 0 \<or> \<not> transport_checksum_valid source destination 17 transport then Inl NET_CHECKSUM
         else or_invalid (read_be16 transport 0) (\<lambda>source_port. or_invalid (read_be16 transport 2) (\<lambda>destination_port.
           inspect_ports (summary\<lparr>ps_transport_header_length := 8, ps_source_port := source_port,
             ps_destination_port := destination_port, ps_payload_length := udp_length - 8\<rparr>))))))"

definition inspect_tcp :: "u8 list \<Rightarrow> u8 list \<Rightarrow> u8 list \<Rightarrow> packet_summary \<Rightarrow> int + packet_summary" where
  "inspect_tcp source destination transport summary =
    (if length transport < 20 then Inl NET_INVALID
     else or_invalid (byte_get transport 12) (\<lambda>offset_byte.
       let header_length = unat (drop_bit 4 offset_byte) * 4 in
       if header_length < 20 \<or> 60 < header_length \<or> length transport < header_length then Inl NET_INVALID
       else if offset_byte AND 0x0E \<noteq> 0 then Inl NET_INVALID
       else or_invalid (byte_get transport 13) (\<lambda>flags.
         let syn = (flags AND 0x02 \<noteq> 0); rst = (flags AND 0x04 \<noteq> 0); fin = (flags AND 0x01 \<noteq> 0) in
         if flags = 0 \<or> (syn \<and> (rst \<or> fin)) \<or> (rst \<and> fin) then Inl NET_INVALID
         else or_invalid (read_be16 transport 16) (\<lambda>checksum.
           if checksum = 0 \<or> \<not> transport_checksum_valid source destination 6 transport then Inl NET_CHECKSUM
           else or_invalid (read_be16 transport 0) (\<lambda>source_port. or_invalid (read_be16 transport 2) (\<lambda>destination_port.
             inspect_ports (summary\<lparr>ps_tcp_flags := flags, ps_transport_header_length := of_nat header_length,
               ps_source_port := source_port, ps_destination_port := destination_port,
               ps_payload_length := of_nat (length transport - header_length)\<rparr>)))))))"

definition inspect_ip :: "u16 \<Rightarrow> u8 list \<Rightarrow> int + packet_summary" where
  "inspect_ip ether_type ip =
    (if byte_get ip 0 \<noteq> Some 0x45 then Inl NET_UNSUPPORTED
     else or_invalid (read_be16 ip 2) (\<lambda>total_length.
       if unat total_length < 20 \<or> length ip < unat total_length then Inl NET_INVALID
       else or_invalid (slice_get ip 0 20) (\<lambda>ip_header.
         if \<not> checksum_valid ip_header then Inl NET_CHECKSUM
         else or_invalid (read_be16 ip 6) (\<lambda>fragmentation.
           if fragmentation AND 0xBFFF \<noteq> 0 then Inl NET_FRAGMENT
           else or_invalid (byte_get ip 8) (\<lambda>ttl.
             if ttl = 0 then Inl NET_INVALID
             else or_invalid (byte_get ip 9) (\<lambda>protocol. or_invalid (slice_get ip 20 (unat total_length)) (\<lambda>transport.
               or_invalid (slice_get ip 12 16) (\<lambda>source. or_invalid (slice_get ip 16 20) (\<lambda>destination.
                 or_invalid (read_be32 ip 12) (\<lambda>source_ipv4. or_invalid (read_be32 ip 16) (\<lambda>destination_ipv4.
                   let summary = \<lparr>ps_ether_type = ether_type, ps_ip_total_length = total_length, ps_protocol = protocol,
                         ps_tcp_flags = 0, ps_transport_header_length = 0, ps_source_ipv4 = source_ipv4,
                         ps_destination_ipv4 = destination_ipv4, ps_source_port = 0, ps_destination_port = 0,
                         ps_payload_length = 0, ps_reserved = 0\<rparr> in
                   if protocol = 17 then inspect_udp source destination transport summary
                   else if protocol = 6 then inspect_tcp source destination transport summary
                   else Inl NET_UNSUPPORTED)))))))))))"

definition inspect_slice :: "u8 list \<Rightarrow> int + packet_summary" where
  "inspect_slice frame =
    (if length frame < 34 \<or> MAX_FRAME < length frame then Inl NET_INVALID
     else or_invalid (read_be16 frame 12) (\<lambda>ether_type.
       if ether_type \<noteq> 0x0800 then Inl NET_UNSUPPORTED
       else or_invalid (slice_get frame 14 (length frame)) (inspect_ip ether_type)))"

section \<open>Queues\<close>

definition net_checked_add :: "u64 \<Rightarrow> u64 \<Rightarrow> u64 option" where
  "net_checked_add a b = (if a + b < a then None else Some (a + b))"

definition valid_state_pointer :: "u64 \<Rightarrow> bool" where
  "valid_state_pointer state \<longleftrightarrow>
     state \<noteq> 0 \<and> state AND (NET_STATE_ALIGN - 1) = 0 \<and> net_checked_add state NET_STATE_SIZE \<noteq> None"

definition net_ranges_overlap :: "u64 \<Rightarrow> u64 \<Rightarrow> u64 \<Rightarrow> u64 \<Rightarrow> bool" where
  "net_ranges_overlap first first_length second second_length =
    (case net_checked_add first first_length of None \<Rightarrow> True
     | Some first_end \<Rightarrow>
       case net_checked_add second second_length of None \<Rightarrow> True
       | Some second_end \<Rightarrow> first < second_end \<and> second < first_end)"

text \<open>The state is an address and what is stored there.\<close>

type_synonym net_pointer = "u64 \<times> net_state"

definition net_state_mut :: "net_pointer \<Rightarrow> net_state option" where
  "net_state_mut state =
    (if \<not> valid_state_pointer (fst state) then None
     else if ns_magic (snd state) \<noteq> STATE_MAGIC then None else Some (snd state))"

definition select_queue :: "net_state \<Rightarrow> u32 \<Rightarrow> packet_queue option" where
  "select_queue state queue =
    (if queue = QUEUE_INGRESS then Some (ns_ingress state)
     else if queue = QUEUE_EGRESS then Some (ns_egress state) else None)"

definition put_queue :: "u32 \<Rightarrow> packet_queue \<Rightarrow> net_state \<Rightarrow> net_state" where
  "put_queue queue q state = (if queue = QUEUE_INGRESS then state\<lparr>ns_ingress := q\<rparr> else state\<lparr>ns_egress := q\<rparr>)"

definition zero_packet :: packet where "zero_packet = \<lparr>pk_length = 0, pk_bytes = replicate MAX_FRAME 0\<rparr>"

definition zero_packet_queue :: packet_queue where
  "zero_packet_queue = \<lparr>pq_packets = replicate QUEUE_CAPACITY zero_packet, pq_head = 0, pq_tail = 0, pq_count = 0\<rparr>"

definition initialize_impl :: "net_pointer \<Rightarrow> u64 \<Rightarrow> int \<times> net_state" where
  "initialize_impl state capacity =
    (if \<not> valid_state_pointer (fst state) \<or> capacity < NET_STATE_SIZE then (NET_INVALID, snd state)
     else (NET_OK, \<lparr>ns_magic = STATE_MAGIC, ns_ingress = zero_packet_queue, ns_egress = zero_packet_queue\<rparr>))"

text \<open>The summary is written to an address; what is written there is the second part of the result.\<close>

definition inspect :: "u64 \<times> u8 list \<Rightarrow> u64 \<Rightarrow> u64 \<Rightarrow> int \<times> packet_summary option" where
  "inspect frame len summary =
    (if fst frame = 0 \<or> summary = 0 \<or> len = 0 \<or> of_nat MAX_FRAME < len then (NET_INVALID, None)
     else if net_ranges_overlap (fst frame) len summary SUMMARY_SIZE then (NET_INVALID, None)
     else case inspect_slice (take (unat len) (snd frame)) of
       Inr parsed \<Rightarrow> (NET_OK, Some parsed) | Inl status \<Rightarrow> (status, None))"

definition enqueue :: "net_pointer \<Rightarrow> u32 \<Rightarrow> u64 \<times> u8 list \<Rightarrow> u64 \<Rightarrow> int \<times> net_state" where
  "enqueue state queue frame len =
    (if fst frame = 0 \<or> len = 0 \<or> of_nat MAX_FRAME < len then (NET_INVALID, snd state)
     else if \<not> valid_state_pointer (fst state) \<or> net_ranges_overlap (fst state) NET_STATE_SIZE (fst frame) len
     then (NET_INVALID, snd state)
     else
       let bytes = take (unat len) (snd frame) in
       case inspect_slice bytes of Inl status \<Rightarrow> (status, snd state)
       | Inr _ \<Rightarrow>
         case net_state_mut state of None \<Rightarrow> (NET_INVALID, snd state)
         | Some network \<Rightarrow>
           case select_queue network queue of None \<Rightarrow> (NET_INVALID, network)
           | Some selected \<Rightarrow>
             if QUEUE_CAPACITY \<le> unat (pq_count selected) then (NET_QUEUE_FULL, network)
             else
               let i = unat (pq_head selected) in
               if length (pq_packets selected) \<le> i then (NET_STATE_ERROR, network)
               else
                 let packet = pq_packets selected ! i in
                 if length (pk_bytes packet) < length bytes then (NET_STATE_ERROR, network)
                 else
                   let packet = \<lparr>pk_length = of_nat (length bytes),
                         pk_bytes = bytes @ drop (length bytes) (pk_bytes packet)\<rparr>
                   in (NET_OK, put_queue queue (selected\<lparr>pq_packets := (pq_packets selected)[i := packet],
                         pq_head := of_nat ((i + 1) mod QUEUE_CAPACITY), pq_count := pq_count selected + 1\<rparr>) network))"

text \<open>The output and its length are addresses; what is written to both is the second part of the result.\<close>

definition dequeue :: "net_pointer \<Rightarrow> u32 \<Rightarrow> u64 \<Rightarrow> u64 \<Rightarrow> u64 \<Rightarrow> int \<times> u8 list option \<times> net_state" where
  "dequeue state queue output capacity len =
    (if output = 0 \<or> len = 0 then (NET_INVALID, None, snd state)
     else if \<not> valid_state_pointer (fst state) \<or> net_ranges_overlap (fst state) NET_STATE_SIZE len 8
     then (NET_INVALID, None, snd state)
     else
       case net_state_mut state of None \<Rightarrow> (NET_INVALID, None, snd state)
       | Some network \<Rightarrow>
         case select_queue network queue of None \<Rightarrow> (NET_INVALID, None, network)
         | Some selected \<Rightarrow>
           if pq_count selected = 0 then (NET_QUEUE_EMPTY, None, network)
           else
             let i = unat (pq_tail selected) in
             if length (pq_packets selected) \<le> i then (NET_STATE_ERROR, None, network)
             else
               let packet = pq_packets selected ! i; packet_length = unat (pk_length packet) in
               if packet_length = 0 \<or> MAX_FRAME < packet_length then (NET_STATE_ERROR, None, network)
               else if capacity < of_nat packet_length then (NET_BUFFER_TOO_SMALL, None, network)
               else if net_ranges_overlap (fst state) NET_STATE_SIZE output (of_nat packet_length) \<or>
                  net_ranges_overlap output (of_nat packet_length) len 8
               then (NET_INVALID, None, network)
               else (NET_OK, Some (take packet_length (pk_bytes packet)),
                 put_queue queue (selected\<lparr>pq_packets := (pq_packets selected)[i := packet\<lparr>pk_length := 0\<rparr>],
                   pq_tail := of_nat ((i + 1) mod QUEUE_CAPACITY), pq_count := pq_count selected - 1\<rparr>) network))"

section \<open>TCP states\<close>

definition tcp_transition_impl :: "u32 \<Rightarrow> u32 \<Rightarrow> int + u32" where
  "tcp_transition_impl state event =
    (if TCP_LAST_ACK < state \<or> event = 0 \<or> TCP_TIMEOUT < event then Inl NET_INVALID
     else if event = TCP_RESET then Inr TCP_CLOSED
     else if state = TCP_CLOSED \<and> event = TCP_ACTIVE_OPEN then Inr TCP_SYN_SENT
     else if state = TCP_SYN_SENT \<and> event = TCP_SYN_ACK then Inr TCP_ESTABLISHED
     else if state = TCP_SYN_SENT \<and> event = TCP_TIMEOUT then Inr TCP_CLOSED
     else if state = TCP_ESTABLISHED \<and> (event = TCP_DATA \<or> event = TCP_ACK) then Inr TCP_ESTABLISHED
     else if state = TCP_ESTABLISHED \<and> event = TCP_ACTIVE_CLOSE then Inr TCP_FIN_WAIT
     else if state = TCP_ESTABLISHED \<and> event = TCP_PEER_FIN then Inr TCP_CLOSE_WAIT
     else if state = TCP_FIN_WAIT \<and> (event = TCP_ACK \<or> event = TCP_PEER_FIN) then Inr TCP_CLOSED
     else if state = TCP_CLOSE_WAIT \<and> event = TCP_ACTIVE_CLOSE then Inr TCP_LAST_ACK
     else if state = TCP_LAST_ACK \<and> event = TCP_ACK then Inr TCP_CLOSED
     else Inl NET_STATE_ERROR)"

definition tcp_transition :: "u32 \<Rightarrow> u32 \<Rightarrow> u32 option \<Rightarrow> int \<times> u32 option" where
  "tcp_transition state event next_state =
    (if next_state = None then (NET_INVALID, None)
     else case tcp_transition_impl state event of
       Inr next \<Rightarrow> (NET_OK, Some next) | Inl status \<Rightarrow> (status, next_state))"

section \<open>Self tests\<close>

definition copy_from_slice :: "u8 list \<Rightarrow> nat \<Rightarrow> u8 list \<Rightarrow> u8 list" where
  "copy_from_slice bs offset xs = take offset bs @ xs @ drop (offset + length xs) bs"

definition subslice :: "u8 list \<Rightarrow> nat \<Rightarrow> nat \<Rightarrow> u8 list" where
  "subslice bs from to = take (to - from) (drop from bs)"

definition build_ipv4_header :: "u8 list \<Rightarrow> u8 \<Rightarrow> nat \<Rightarrow> u8 list" where
  "build_ipv4_header frame protocol transport_length =
    (let frame = (list_update frame 14 0x45); frame = (list_update frame 15 0);
         frame = write_be16 frame 16 (of_nat (20 + transport_length));
         frame = write_be16 frame 18 0x1234; frame = write_be16 frame 20 0x4000;
         frame = (list_update frame 22 64); frame = (list_update frame 23 protocol);
         frame = copy_from_slice frame 26 [10, 0, 0, 1]; frame = copy_from_slice frame 30 [10, 0, 0, 2];
         header_checksum = checksum_value (subslice frame 14 34)
     in write_be16 frame 24 header_checksum)"

definition build_udp_fixture :: "u8 list \<Rightarrow> u8 list" where
  "build_udp_fixture frame =
    (let frame = copy_from_slice frame 0 [0x52, 0x54, 0, 0x41, 0x52, 0x47];
         frame = copy_from_slice frame 6 [0x52, 0x54, 0, 0x53, 0x45, 0x43];
         frame = write_be16 frame 12 0x0800;
         frame = build_ipv4_header frame 17 12;
         frame = write_be16 frame 34 41000; frame = write_be16 frame 36 443; frame = write_be16 frame 38 12;
         frame = copy_from_slice frame 42 [0x4E, 0x45, 0x54, 0x31];
         checksum = transport_checksum_value (subslice frame 26 30) (subslice frame 30 34) 17 (drop 34 frame)
     in write_be16 frame 40 checksum)"

definition build_tcp_fixture :: "u8 list \<Rightarrow> u8 list" where
  "build_tcp_fixture frame =
    (let frame = copy_from_slice frame 0 [0x52, 0x54, 0, 0x41, 0x52, 0x47];
         frame = copy_from_slice frame 6 [0x52, 0x54, 0, 0x53, 0x45, 0x43];
         frame = write_be16 frame 12 0x0800;
         frame = build_ipv4_header frame 6 20;
         frame = write_be16 frame 34 42000; frame = write_be16 frame 36 443;
         frame = copy_from_slice frame 38 [0, 0, 0, 1];
         frame = (list_update frame 46 0x50); frame = (list_update frame 47 0x02);
         frame = write_be16 frame 48 4096;
         checksum = transport_checksum_value (subslice frame 26 30) (subslice frame 30 34) 6 (drop 34 frame)
     in write_be16 frame 50 checksum)"

text \<open>\<^verbatim>\<open>tcp_address\<close> is where the frame is on the stack; the overlap test only needs that it is not null.\<close>

definition parser_self_test :: "u64 \<Rightarrow> bool" where
  "parser_self_test tcp_address =
    (let udp = build_udp_fixture (replicate 46 0) in
     case inspect_slice udp of Inl _ \<Rightarrow> False
     | Inr summary \<Rightarrow>
       if ps_protocol summary \<noteq> 17 \<or> ps_source_port summary \<noteq> 41000 \<or> ps_destination_port summary \<noteq> 443 \<or>
          ps_payload_length summary \<noteq> 4 then False
       else if inspect_slice (list_update udp 24 (udp ! 24 XOR 1)) \<noteq> Inl NET_CHECKSUM then False
       else
         let fragmented = (list_update (list_update (list_update (list_update udp 20 0x20) 21 0) 24 0) 25 0);
             fragmented = write_be16 fragmented 24 (checksum_value (subslice fragmented 14 34)) in
         if inspect_slice fragmented \<noteq> Inl NET_FRAGMENT then False
         else if inspect_slice (list_update udp 45 (udp ! 45 XOR 1)) \<noteq> Inl NET_CHECKSUM then False
         else if inspect_slice (list_update (list_update udp 40 0) 41 0) \<noteq> Inl NET_CHECKSUM then False
         else if inspect_slice (list_update (list_update udp 12 0x08) 13 0x06) \<noteq> Inl NET_UNSUPPORTED then False
         else if inspect_slice (take 33 udp) \<noteq> Inl NET_INVALID then False
         else
           let tcp = build_tcp_fixture (replicate 54 0) in
           case inspect_slice tcp of Inl _ \<Rightarrow> False
           | Inr tcp_summary \<Rightarrow>
             if ps_protocol tcp_summary \<noteq> 6 \<or> ps_tcp_flags tcp_summary \<noteq> 0x02 \<or>
                ps_transport_header_length tcp_summary \<noteq> 20 \<or> ps_payload_length tcp_summary \<noteq> 0 then False
             else if fst (inspect (tcp_address, tcp) (of_nat (length tcp)) tcp_address) \<noteq> NET_INVALID then False
             else
               let invalid_flags = (list_update (list_update (list_update tcp 47 0x03) 50 0) 51 0);
                   tcp_checksum = transport_checksum_value (subslice invalid_flags 26 30) (subslice invalid_flags 30 34) 6
                     (drop 34 invalid_flags);
                   invalid_flags = write_be16 invalid_flags 50 tcp_checksum
               in inspect_slice invalid_flags = Inl NET_INVALID)"

fun fill_queue :: "nat \<Rightarrow> u64 \<times> u8 list \<Rightarrow> net_pointer \<Rightarrow> bool \<times> net_state" where
  "fill_queue 0 frame state = (True, snd state)"
| "fill_queue (Suc n) frame state =
    (let (status, network) = enqueue state QUEUE_INGRESS frame (of_nat (length (snd frame)))
     in if status \<noteq> NET_OK then (False, network) else fill_queue n frame (fst state, network))"

text \<open>The addresses of the static storage and of the three variables on the stack are parameters.\<close>

definition queue_self_test :: "net_pointer \<Rightarrow> u64 \<Rightarrow> u64 \<Rightarrow> u64 \<Rightarrow> bool \<times> net_state" where
  "queue_self_test storage frame_address output_address length_address =
    (let at = fst storage; (status, network) = initialize_impl storage NET_STATE_SIZE in
     if status \<noteq> NET_OK then (False, network)
     else
       let frame = (frame_address, build_udp_fixture (replicate 46 0));
           (ok, network) = fill_queue QUEUE_CAPACITY frame (at, network) in
       if \<not> ok then (False, network)
       else
         let (status, network) = enqueue (at, network) QUEUE_INGRESS frame 46 in
         if status \<noteq> NET_QUEUE_FULL then (False, network)
         else
           let (status, written, network) = dequeue (at, network) QUEUE_INGRESS at (of_nat MAX_FRAME) length_address in
           if status \<noteq> NET_INVALID then (False, network)
           else
             let (status, written, network) = dequeue (at, network) QUEUE_INGRESS output_address 12 length_address in
             if status \<noteq> NET_BUFFER_TOO_SMALL then (False, network)
             else
               let (status, written, network) = dequeue (at, network) QUEUE_INGRESS output_address 46 length_address in
               if status \<noteq> NET_OK \<or> written \<noteq> Some (snd frame) then (False, network)
               else
                 let (status, network) = enqueue (at, network) 7 frame 46 in
                 if status \<noteq> NET_INVALID then (False, network)
                 else let (status, network) = initialize_impl (at, network) NET_STATE_SIZE in (status = NET_OK, network))"

definition tcp_self_test :: bool where
  "tcp_self_test \<longleftrightarrow>
     tcp_transition_impl TCP_CLOSED TCP_ACTIVE_OPEN = Inr TCP_SYN_SENT \<and>
     tcp_transition_impl TCP_SYN_SENT TCP_SYN_ACK = Inr TCP_ESTABLISHED \<and>
     tcp_transition_impl TCP_ESTABLISHED TCP_DATA = Inr TCP_ESTABLISHED \<and>
     tcp_transition_impl TCP_ESTABLISHED TCP_ACTIVE_CLOSE = Inr TCP_FIN_WAIT \<and>
     tcp_transition_impl TCP_FIN_WAIT TCP_ACK = Inr TCP_CLOSED \<and>
     tcp_transition_impl TCP_ESTABLISHED TCP_PEER_FIN = Inr TCP_CLOSE_WAIT \<and>
     tcp_transition_impl TCP_CLOSE_WAIT TCP_ACTIVE_CLOSE = Inr TCP_LAST_ACK \<and>
     tcp_transition_impl TCP_LAST_ACK TCP_ACK = Inr TCP_CLOSED \<and>
     tcp_transition_impl TCP_ESTABLISHED TCP_RESET = Inr TCP_CLOSED \<and>
     tcp_transition_impl TCP_CLOSED TCP_DATA = Inl NET_STATE_ERROR \<and>
     tcp_transition_impl 99 TCP_DATA = Inl NET_INVALID"

end
