(* ===== verification/Net_Packets.thy ===== *)
theory Net_Packets
  imports Net Fifo
begin

text \<open>
  The packet core is correct: the Internet checksum as arithmetic modulo \<open>2 ^ 16 - 1\<close>, the fields of an accepted frame
  as the bytes of that frame, the two queues as bounded lists, and the way into the established TCP state.
\<close>

section \<open>The Internet checksum\<close>

text \<open>The sum of the 16-bit words of a buffer, most significant byte first, an odd byte padded with zero.\<close>

fun words_sum :: "u8 list \<Rightarrow> nat" where
  "words_sum (high # low # rest) = 256 * unat high + unat low + words_sum rest"
| "words_sum [final] = 256 * unat final"
| "words_sum [] = 0"

text \<open>The representative of a sum modulo \<open>2 ^ 16 - 1\<close> that one's complement addition computes.\<close>

definition ones_complement :: "nat \<Rightarrow> nat" where
  "ones_complement n = (if n = 0 then 0 else (n - 1) mod 65535 + 1)"

lemma unat_pair: "unat (push_bit 8 (ucast high) OR ucast low :: u32) = 256 * unat (high :: u8) + unat (low :: u8)"
proof -
  have d: "push_bit 8 (ucast high :: u32) AND ucast low = 0"
    by (rule bit_word_eqI) (auto simp: bit_simps dest: bit_imp_le_length)
  have p: "unat (push_bit 8 (ucast high) :: u32) = 256 * unat high"
    using unat_u8_less [of high] by (simp add: push_bit_eq_mult unat_word_ariths)
  have "unat (push_bit 8 (ucast high) + ucast low :: u32) = 256 * unat high + unat low"
    using unat_u8_less [of high] unat_u8_less [of low] p by (simp add: unat_word_ariths)
  then show ?thesis using disjunctive_add_eq_or [OF d] by simp
qed

lemma unat_final: "unat (push_bit 8 (ucast (b :: u8)) :: u32) = 256 * unat b"
  using unat_u8_less [of b] by (simp add: push_bit_eq_mult unat_word_ariths)

lemma checksum_add_sum:
  "unat acc + words_sum bs < 2 ^ 32 \<Longrightarrow> unat (checksum_add acc bs) = unat acc + words_sum bs"
proof (induction acc bs rule: checksum_add.induct)
  case (1 acc high low rest)
  have "unat (acc + (push_bit 8 (ucast high) OR ucast low)) = unat acc + (256 * unat high + unat low)"
    using 1(2) unat_pair [of high low] by (simp add: unat_word_ariths)
  then show ?case using 1 by simp
next
  case (2 acc final)
  then show ?case using unat_final [of final] by (simp add: unat_word_ariths)
qed simp

lemma words_sum_bound: "words_sum bs \<le> 65535 * ((length bs + 1) div 2)"
proof (induction bs rule: words_sum.induct)
  case (1 high low rest)
  then show ?case using unat_u8_less [of high] unat_u8_less [of low] by simp
next
  case (2 final)
  then show ?case using unat_u8_less [of final] by simp
qed simp

lemma ones_complement_step:
  assumes "65535 < n"
  shows "ones_complement (n mod 65536 + n div 65536) = ones_complement n"
proof -
  let ?q = "n div 65536" and ?r = "n mod 65536"
  have e: "n = ?q * 65536 + ?r" by simp
  have q: "0 < ?q" using assms by (simp add: div_greater_zero_iff)
  then have p: "0 < ?r + ?q" by simp
  have "n - 1 = (?r + ?q - 1) + ?q * 65535" using e p by linarith
  then have "(n - 1) mod 65535 = (?r + ?q - 1) mod 65535" by (metis mod_mult_self1)
  then show ?thesis using p assms by (simp add: ones_complement_def)
qed

lemma checksum_fold_value: "unat (checksum_fold acc) = ones_complement (unat acc)"
proof (induction acc rule: checksum_fold.induct)
  case (1 acc)
  show ?case
  proof (cases "drop_bit 16 acc = 0")
    case True
    have "unat acc div 2 ^ 16 = 0"
      using arg_cong [OF True, of unat] unfolding unat_drop_bit_eq by (simp add: drop_bit_eq_div)
    then have l: "unat acc < 65536" by (simp add: div_eq_0_iff)
    then have "unat (ucast acc :: u16) = unat acc" by (simp add: unat_ucast_narrow)
    then show ?thesis using True l by (subst checksum_fold.simps) (auto simp: ones_complement_def)
  next
    case False
    have "unat acc div 2 ^ 16 \<noteq> 0"
      using False unat_eq_0 [of "drop_bit 16 acc"] unfolding unat_drop_bit_eq by (simp add: drop_bit_eq_div)
    then have "65535 < unat acc" by (simp add: div_eq_0_iff)
    then show ?thesis using 1 [OF False] False fold_step_unat [of acc] ones_complement_step [of "unat acc"]
      by (subst checksum_fold.simps) simp
  qed
qed

lemma ones_complement_full: "ones_complement n = 65535 \<longleftrightarrow> n \<noteq> 0 \<and> n mod 65535 = 0"
proof (cases "n = 0")
  case False
  then obtain m where m: "n = Suc m" by (cases n) auto
  have "m mod 65535 = 65534 \<longleftrightarrow> Suc m mod 65535 = 0" by (simp add: mod_Suc)
  then show ?thesis using m by (simp add: ones_complement_def)
qed (simp add: ones_complement_def)

lemma fold_full: "checksum_fold acc = 0xFFFF \<longleftrightarrow> unat acc \<noteq> 0 \<and> unat acc mod 65535 = 0"
proof -
  have "checksum_fold acc = 0xFFFF \<longleftrightarrow> unat (checksum_fold acc) = 65535" by (simp add: word_unat_eq_iff)
  then show ?thesis using checksum_fold_value [of acc] ones_complement_full [of "unat acc"] by simp
qed

lemma checksum_valid_iff:
  assumes "length bs \<le> 65536"
  shows "checksum_valid bs \<longleftrightarrow> words_sum bs \<noteq> 0 \<and> words_sum bs mod 65535 = 0"
proof -
  have "(length bs + 1) div 2 \<le> 32768" using assms by simp
  then have "words_sum bs < 2 ^ 32" using words_sum_bound [of bs] by simp
  then have "unat (checksum_add 0 bs) = words_sum bs" using checksum_add_sum [of 0 bs] by simp
  then show ?thesis using fold_full [of "checksum_add 0 bs"] by (simp add: checksum_valid_def)
qed

lemma words_sum_append: "even (length xs) \<Longrightarrow> words_sum (xs @ ys) = words_sum xs + words_sum ys"
  by (induction xs rule: words_sum.induct) simp_all

lemma write_be16_split:
  assumes "i + 2 \<le> length bs"
  shows "write_be16 bs i v = take i bs @ [ucast (drop_bit 8 v), ucast v] @ drop (i + 2) bs"
    "bs = take i bs @ [bs ! i, bs ! (i + 1)] @ drop (i + 2) bs"
proof -
  have d: "drop i bs = bs ! i # bs ! (i + 1) # drop (i + 2) bs" using assms by (simp add: Cons_nth_drop_Suc)
  then show b: "bs = take i bs @ [bs ! i, bs ! (i + 1)] @ drop (i + 2) bs" using append_take_drop_id [of i bs] by simp
  have l: "length (take i bs) = i" using assms by simp
  have "write_be16 bs i v = (take i bs @ [bs ! i, bs ! (i + 1)] @ drop (i + 2) bs)[i := ucast (drop_bit 8 v), i + 1 := ucast v]"
    using assms b by (simp add: write_be16_def)
  also have "\<dots> = take i bs @ [ucast (drop_bit 8 v), ucast v] @ drop (i + 2) bs"
    using l by (simp add: list_update_append)
  finally show "write_be16 bs i v = take i bs @ [ucast (drop_bit 8 v), ucast v] @ drop (i + 2) bs" .
qed

lemma unat_halves: "256 * unat (ucast (drop_bit 8 v) :: u8) + unat (ucast v :: u8) = unat (v :: u16)"
proof -
  have "unat (drop_bit 8 v) = unat v div 2 ^ 8" unfolding unat_drop_bit_eq by (rule drop_bit_eq_div)
  moreover have "unat v div 2 ^ 8 < 2 ^ 8" using unat_u16_less [of v] by (simp add: less_mult_imp_div_less)
  ultimately have "unat (ucast (drop_bit 8 v) :: u8) = unat v div 256" by (simp add: unat_ucast_narrow)
  moreover have "unat (ucast v :: u8) = unat v mod 256" by (simp add: unat_ucast_narrow)
  ultimately show ?thesis by simp
qed

text \<open>A field of zeros at an even offset contributes nothing, and a number written there its value.\<close>

lemma words_sum_write:
  assumes "even i" "i + 2 \<le> length bs" "bs ! i = 0" "bs ! (i + 1) = 0"
  shows "words_sum (write_be16 bs i v) = words_sum bs + unat v"
proof -
  have e: "even (length (take i bs))" using assms(1,2) by simp
  have "words_sum bs = words_sum (take i bs) + words_sum (drop (i + 2) bs)"
    using words_sum_append [OF e] assms(3,4) by (subst write_be16_split(2) [OF assms(2)]) simp
  then show ?thesis using words_sum_append [OF e] unat_halves [of v] by (simp add: write_be16_split(1) [OF assms(2)])
qed

lemma unat_complement: "unat (NOT w :: u16) = 65535 - unat w"
proof -
  have "NOT w = - 1 - w" by (simp add: not_eq_complement)
  moreover have "unat (- 1 :: u16) = 65535" by (simp add: unsigned_minus_1_eq_mask mask_eq_exp_minus_1)
  ultimately show ?thesis using unat_sub [OF word_n1_ge [of w]] by simp
qed

text \<open>
  Claim C29. Sending and checking agree: a header whose checksum field is zero, completed with \<^verbatim>\<open>checksum_value\<close> at
  that field, passes \<^verbatim>\<open>checksum_valid\<close>.
\<close>

theorem header_checksum_roundtrip:
  assumes "even i" "i + 2 \<le> length header" "header ! i = 0" "header ! (i + 1) = 0" "length header \<le> 65536"
  shows "checksum_valid (write_be16 header i (checksum_value header))"
proof -
  let ?s = "words_sum header" and ?h = "write_be16 header i (checksum_value header)"
  have "(length header + 1) div 2 \<le> 32768" using assms(5) by simp
  then have "unat (checksum_add 0 header) = ?s" using checksum_add_sum [of 0 header] words_sum_bound [of header] by simp
  then have v: "unat (checksum_value header) = 65535 - ones_complement ?s"
    by (simp add: checksum_value_def unat_complement checksum_fold_value)
  have t: "words_sum ?h = ?s + (65535 - ones_complement ?s)" using words_sum_write [OF assms(1-4)] v by simp
  have "words_sum ?h \<noteq> 0 \<and> words_sum ?h mod 65535 = 0"
  proof (cases "?s = 0")
    case True
    then show ?thesis using t by (simp add: ones_complement_def)
  next
    case False
    let ?r = "(?s - 1) mod 65535"
    have r: "?r < 65535" "?s = (?s - 1) div 65535 * 65535 + ?r + 1" using False by simp_all
    have "words_sum ?h = ?s + (65535 - (?r + 1))" using t False by (simp add: ones_complement_def)
    then have "words_sum ?h = (?s - 1) div 65535 * 65535 + 65535" using r by linarith
    then show ?thesis by simp
  qed
  moreover have "length ?h \<le> 65536" using assms(5) by (simp add: write_be16_def)
  ultimately show ?thesis by (simp add: checksum_valid_iff)
qed

theorem header_checksum_roundtrip_witness:
  "checksum_valid (write_be16 [0x45, 0, 0, 0x20, 0x12, 0x34, 0x40, 0, 64, 17, 0, 0, 10, 0, 0, 1, 10, 0, 0, 2] 10
     (checksum_value [0x45, 0, 0, 0x20, 0x12, 0x34, 0x40, 0, 64, 17, 0, 0, 10, 0, 0, 1, 10, 0, 0, 2]))"
  by (rule header_checksum_roundtrip) simp_all

section \<open>Accepted frames\<close>

lemma or_invalid_Inr: "or_invalid r f = Inr s \<longleftrightarrow> (\<exists>v. r = Some v \<and> f v = Inr s)"
  by (cases r) (simp_all add: or_invalid_def)

lemma if_error: "(if b then Inl e else r) = Inr s \<longleftrightarrow> \<not> b \<and> r = Inr s"
  by simp

lemma slice_get_Some: "slice_get bs from to = Some xs \<longleftrightarrow> from \<le> to \<and> to \<le> length bs \<and> xs = take (to - from) (drop from bs)"
  by (auto simp: slice_get_def)

lemma byte_get_Some: "byte_get bs i = Some b \<longleftrightarrow> i < length bs \<and> b = bs ! i"
  by (auto simp: byte_get_def)

text \<open>Numbers in network byte order.\<close>

definition be_value :: "u8 list \<Rightarrow> nat" where "be_value bs = foldl (\<lambda>n b. 256 * n + unat b) 0 bs"

lemma unat_be16: "unat (be16 high low) = 256 * unat high + unat low"
proof -
  have d: "push_bit 8 (ucast high :: u16) AND ucast low = 0"
    by (rule bit_word_eqI) (auto simp: bit_simps dest: bit_imp_le_length)
  have p: "unat (push_bit 8 (ucast high) :: u16) = 256 * unat high"
    using unat_u8_less [of high] by (simp add: push_bit_eq_mult unat_word_ariths)
  have "unat (push_bit 8 (ucast high) + ucast low :: u16) = 256 * unat high + unat low"
    using unat_u8_less [of high] unat_u8_less [of low] p by (simp add: unat_word_ariths)
  then show ?thesis using disjunctive_add_eq_or [OF d] by (simp add: be16_def)
qed

lemma read_be16_value:
  assumes "read_be16 bs offset = Some v"
  shows "unat v = be_value (take 2 (drop offset bs))"
  using assms by (auto simp: read_be16_def slice_get_def be_value_def unat_be16 split: if_splits list.splits)

lemma unat_be32:
  fixes a b c d :: u8
  shows "unat (push_bit 24 (ucast a) OR push_bit 16 (ucast b) OR push_bit 8 (ucast c) OR ucast d :: u32) =
    256 * (256 * (256 * unat a + unat b) + unat c) + unat d"
proof -
  let ?a = "push_bit 24 (ucast a) :: u32" and ?b = "push_bit 16 (ucast b) :: u32" and ?c = "push_bit 8 (ucast c) :: u32" and ?d = "ucast d :: u32"
  have "?a AND (?b OR (?c OR ?d)) = 0" "?b AND (?c OR ?d) = 0" "?c AND ?d = 0"
    by (rule bit_word_eqI; auto simp: bit_simps dest: bit_imp_le_length)+
  then have "?a OR ?b OR ?c OR ?d = ?a + (?b + (?c + ?d))" by (simp add: disjunctive_add_eq_or or.assoc)
  moreover have "unat ?a = 16777216 * unat a" "unat ?b = 65536 * unat b" "unat ?c = 256 * unat c" "unat ?d = unat d"
    using unat_u8_less [of a] unat_u8_less [of b] unat_u8_less [of c] by (simp_all add: push_bit_eq_mult unat_word_ariths)
  ultimately show ?thesis
    using unat_u8_less [of a] unat_u8_less [of b] unat_u8_less [of c] unat_u8_less [of d] by (simp add: unat_word_ariths)
qed

lemma read_be32_value:
  assumes "read_be32 bs offset = Some v"
  shows "unat v = be_value (take 4 (drop offset bs))"
  using assms by (auto simp: read_be32_def slice_get_def be_value_def unat_be32 split: if_splits list.splits)

text \<open>The checksum of a segment covers a pseudo header of addresses, protocol and length.\<close>

definition pseudo_sum :: "u8 list \<Rightarrow> u8 list \<Rightarrow> u8 \<Rightarrow> u8 list \<Rightarrow> nat" where
  "pseudo_sum source destination protocol segment =
    words_sum source + words_sum destination + unat protocol + length segment + words_sum segment"

lemma transport_checksum_sum:
  assumes "transport_checksum_valid source destination protocol segment" "length segment < 2 ^ 16"
  shows "pseudo_sum source destination protocol segment mod 65535 = 0"
proof -
  have l: "length source = 4" "length destination = 4" using assms(1) by (auto simp: transport_checksum_valid_def split: if_splits)
  let ?a = "checksum_add (checksum_add 0 source) destination"
  let ?b = "?a + ucast protocol + of_nat (length segment)"
  have "(length segment + 1) div 2 \<le> 32768" using assms(2) by simp
  then have s: "words_sum source \<le> 131070" "words_sum destination \<le> 131070" "words_sum segment \<le> 65535 * 32768"
    using words_sum_bound [of source] words_sum_bound [of destination] words_sum_bound [of segment] l by simp_all
  have a: "unat ?a = words_sum source + words_sum destination" using s by (simp add: checksum_add_sum)
  have "unat (of_nat (length segment) :: u32) = length segment" using assms(2) by (simp add: unat_of_nat)
  then have b: "unat ?b = words_sum source + words_sum destination + unat protocol + length segment"
    using a s assms(2) unat_u8_less [of protocol] by (simp add: unat_word_ariths)
  have "unat (checksum_add ?b segment) = unat ?b + words_sum segment"
    by (rule checksum_add_sum) (use b s assms(2) unat_u8_less [of protocol] in simp)
  moreover have "checksum_fold (checksum_add ?b segment) = 0xFFFF"
    using assms(1) by (simp add: transport_checksum_valid_def Let_def split: if_splits)
  ultimately show ?thesis using fold_full b by (simp add: pseudo_sum_def)
qed

definition tcp_flags_legal :: "u8 \<Rightarrow> bool" where
  "tcp_flags_legal flags \<longleftrightarrow> flags \<noteq> 0 \<and> \<not> (flags AND 0x02 \<noteq> 0 \<and> flags AND 0x05 \<noteq> 0) \<and> \<not> (flags AND 0x04 \<noteq> 0 \<and> flags AND 0x01 \<noteq> 0)"

text \<open>What an accepted segment and its summary have to do with each other.\<close>

definition transport_sound :: "u8 list \<Rightarrow> u8 list \<Rightarrow> u8 list \<Rightarrow> packet_summary \<Rightarrow> bool" where
  "transport_sound source destination transport s \<longleftrightarrow>
     pseudo_sum source destination (ps_protocol s) transport mod 65535 = 0 \<and>
     unat (ps_source_port s) = be_value (take 2 transport) \<and> ps_source_port s \<noteq> 0 \<and>
     unat (ps_destination_port s) = be_value (take 2 (drop 2 transport)) \<and> ps_destination_port s \<noteq> 0 \<and>
     unat (ps_transport_header_length s) + unat (ps_payload_length s) = length transport \<and>
     (if ps_protocol s = 17
      then ps_transport_header_length s = 8 \<and> be_value (take 2 (drop 4 transport)) = length transport \<and> ps_tcp_flags s = 0
      else ps_protocol s = 6 \<and> unat (ps_transport_header_length s) = 4 * (unat (transport ! 12) div 16) \<and>
        20 \<le> unat (ps_transport_header_length s) \<and> ps_tcp_flags s = transport ! 13 \<and> tcp_flags_legal (ps_tcp_flags s))"

text \<open>The fields that the network layer has filled in already.\<close>

definition network_fields :: "packet_summary \<Rightarrow> u16 \<times> u16 \<times> u8 \<times> u32 \<times> u32" where
  "network_fields s = (ps_ether_type s, ps_ip_total_length s, ps_protocol s, ps_source_ipv4 s, ps_destination_ipv4 s)"

lemma inspect_udp_sound:
  assumes "inspect_udp source destination transport summary = Inr s" "ps_protocol summary = 17" "ps_tcp_flags summary = 0"
    "length transport < 2 ^ 16"
  shows "transport_sound source destination transport s \<and> network_fields s = network_fields summary"
proof -
  obtain n checksum sp dp :: u16 where n: "read_be16 transport 4 = Some n" "\<not> (unat n \<noteq> length transport \<or> unat n < 8)"
      and c: "\<not> (checksum = 0 \<or> \<not> transport_checksum_valid source destination 17 transport)"
      and p: "read_be16 transport 0 = Some sp" "read_be16 transport 2 = Some dp"
      and r: "inspect_ports (summary\<lparr>ps_transport_header_length := 8, ps_source_port := sp, ps_destination_port := dp,
        ps_payload_length := n - 8\<rparr>) = Inr s"
    using assms(1) unfolding inspect_udp_def or_invalid_Inr if_error by (elim exE conjE) (rule that; assumption)
  have "unat (n - 8) = unat n - unat (8 :: u16)" using n(2) by (intro unat_sub) (simp add: word_le_nat_alt)
  moreover have "sp \<noteq> 0" "dp \<noteq> 0" and s: "s = summary\<lparr>ps_transport_header_length := 8, ps_source_port := sp, ps_destination_port := dp,
        ps_payload_length := n - 8\<rparr>"
    using r unfolding inspect_ports_def if_error by simp_all
  ultimately show ?thesis
    using n c read_be16_value [OF n(1)] read_be16_value [OF p(1)] read_be16_value [OF p(2)] transport_checksum_sum [OF _ assms(4)] assms(2,3)
    unfolding s transport_sound_def network_fields_def by simp
qed

lemma tcp_flags_test:
  "\<not> (flags = 0 \<or> (flags AND 0x02 \<noteq> 0 \<and> (flags AND 0x04 \<noteq> 0 \<or> flags AND 0x01 \<noteq> 0)) \<or> (flags AND 0x04 \<noteq> 0 \<and> flags AND 0x01 \<noteq> 0))
    \<longleftrightarrow> tcp_flags_legal flags"
proof -
  have "flags AND 0x05 \<noteq> 0 \<longleftrightarrow> flags AND 0x04 \<noteq> 0 \<or> flags AND 0x01 \<noteq> 0"
  proof -
    have e: "(0x05 :: u8) = 0x04 OR 0x01" by simp
    show ?thesis unfolding e bit.conj_disj_distrib by (metis or_eq_0_iff or.right_neutral word_bw_comms(2))
  qed
  then show ?thesis by (auto simp: tcp_flags_legal_def)
qed

lemma inspect_tcp_sound:
  assumes "inspect_tcp source destination transport summary = Inr s" "ps_protocol summary = 6" "length transport < 2 ^ 16"
  shows "transport_sound source destination transport s \<and> network_fields s = network_fields summary"
proof -
  obtain offset :: u8 and flags :: u8 and checksum :: u16 and sp dp :: u16 where
      ob: "byte_get transport 12 = Some offset" "byte_get transport 13 = Some flags"
      and h: "\<not> (unat (drop_bit 4 offset) * 4 < 20 \<or> 60 < unat (drop_bit 4 offset) * 4 \<or> length transport < unat (drop_bit 4 offset) * 4)"
      and f: "\<not> (flags = 0 \<or> (flags AND 0x02 \<noteq> 0 \<and> (flags AND 0x04 \<noteq> 0 \<or> flags AND 0x01 \<noteq> 0)) \<or> (flags AND 0x04 \<noteq> 0 \<and> flags AND 0x01 \<noteq> 0))"
      and c: "\<not> (checksum = 0 \<or> \<not> transport_checksum_valid source destination 6 transport)"
      and p: "read_be16 transport 0 = Some sp" "read_be16 transport 2 = Some dp"
      and r: "inspect_ports (summary\<lparr>ps_tcp_flags := flags, ps_transport_header_length := of_nat (unat (drop_bit 4 offset) * 4),
               ps_source_port := sp, ps_destination_port := dp,
               ps_payload_length := of_nat (length transport - unat (drop_bit 4 offset) * 4)\<rparr>) = Inr s"
    using assms(1) unfolding inspect_tcp_def Let_def or_invalid_Inr if_error by (elim exE conjE) (rule that; assumption)
  define n where "n = unat (drop_bit 4 offset) * 4"
  have "unat (drop_bit 4 offset) = unat offset div 16" unfolding unat_drop_bit_eq by (simp add: drop_bit_eq_div)
  then have n: "20 \<le> n" "n \<le> 60" "n \<le> length transport" "n = 4 * (unat (transport ! 12) div 16)" "flags = transport ! 13"
    using h ob by (simp_all add: n_def byte_get_Some)
  have u: "unat (of_nat n :: u16) = n" "unat (of_nat (length transport - n) :: u16) = length transport - n"
    using n(2) assms(3) by (simp_all add: unat_of_nat)
  have sp: "sp \<noteq> 0" "dp \<noteq> 0" and s: "s = summary\<lparr>ps_tcp_flags := flags, ps_transport_header_length := of_nat n,
               ps_source_port := sp, ps_destination_port := dp, ps_payload_length := of_nat (length transport - n)\<rparr>"
    using r unfolding inspect_ports_def if_error n_def by simp_all
  have fl: "tcp_flags_legal flags" using f tcp_flags_test by blast
  show ?thesis
    using assms(2) n u sp fl c read_be16_value [OF p(1)] read_be16_value [OF p(2)] transport_checksum_sum [OF _ assms(3)]
    unfolding s transport_sound_def network_fields_def by simp
qed

lemma no_fragment:
  fixes frag :: u16
  assumes "frag AND 0xBFFF = 0"
  shows "unat frag \<in> {0, 0x4000}"
proof -
  have "bit (2 ^ 14 :: u16) n \<longleftrightarrow> n = 14" for n by (simp only: bit_exp_iff possible_bit_word) auto
  then have b: "bit (0x4000 :: u16) n \<longleftrightarrow> n = 14" for n by simp
  have "NOT 0x4000 = (0xBFFF :: u16)" by code_simp
  then have "frag AND NOT 0x4000 = 0" using assms by metis
  then have "\<not> bit (frag AND NOT 0x4000) n" for n by (simp only: bit_0_eq) simp
  then have z: "\<not> bit frag n" if "n \<noteq> 14" for n
    using that bit_imp_le_length [of frag n] unfolding bit_and_iff bit_not_iff b possible_bit_word by auto
  have "frag = (if bit frag 14 then 0x4000 else 0)"
  proof (rule bit_word_eqI)
    fix n
    show "bit frag n \<longleftrightarrow> bit (if bit frag 14 then 0x4000 else 0 :: u16) n"
      using z [of n] b [of n] by (cases "n = 14") auto
  qed
  then have "frag = 0x4000 \<or> frag = 0" by metis
  then show ?thesis by auto
qed

lemma inspect_ip_sound:
  assumes "inspect_ip ether_type ip = Inr s" "length ip < 2 ^ 16"
  defines "n \<equiv> unat (ps_ip_total_length s)"
  shows "20 \<le> n \<and> n \<le> length ip \<and> n = be_value (take 2 (drop 2 ip)) \<and> ip ! 0 = 0x45 \<and> words_sum (take 20 ip) mod 65535 = 0 \<and>
    be_value (take 2 (drop 6 ip)) \<in> {0, 0x4000} \<and> ip ! 8 \<noteq> 0 \<and> ps_protocol s = ip ! 9 \<and>
    unat (ps_source_ipv4 s) = be_value (take 4 (drop 12 ip)) \<and> unat (ps_destination_ipv4 s) = be_value (take 4 (drop 16 ip)) \<and>
    transport_sound (take 4 (drop 12 ip)) (take 4 (drop 16 ip)) (take (n - 20) (drop 20 ip)) s \<and> ps_ether_type s = ether_type"
proof -
  let ?summary = "\<lambda>tl protocol source_ipv4 destination_ipv4. \<lparr>ps_ether_type = ether_type, ps_ip_total_length = tl, ps_protocol = protocol,
     ps_tcp_flags = 0, ps_transport_header_length = 0, ps_source_ipv4 = source_ipv4, ps_destination_ipv4 = destination_ipv4,
     ps_source_port = 0, ps_destination_port = 0, ps_payload_length = 0, ps_reserved = 0\<rparr>"
  obtain tl header frag ttl protocol transport source destination sip dip where v: "\<not> byte_get ip 0 \<noteq> Some 0x45"
      and tl: "read_be16 ip 2 = Some tl"
      and t: "\<not> (unat tl < 20 \<or> length ip < unat tl)" and hd: "slice_get ip 0 20 = Some header" and c: "\<not> \<not> checksum_valid header"
      and fr: "read_be16 ip 6 = Some frag" "\<not> frag AND 0xBFFF \<noteq> 0"
      and b: "byte_get ip 8 = Some ttl" "\<not> ttl = 0" "byte_get ip 9 = Some protocol" and tr: "slice_get ip 20 (unat tl) = Some transport"
      and sl: "slice_get ip 12 16 = Some source" "slice_get ip 16 20 = Some destination"
      and ad: "read_be32 ip 12 = Some sip" "read_be32 ip 16 = Some dip"
      and r: "(if protocol = 17 then inspect_udp source destination transport (?summary tl protocol sip dip)
        else if protocol = 6 then inspect_tcp source destination transport (?summary tl protocol sip dip)
        else Inl NET_UNSUPPORTED) = Inr s"
    using assms(1) unfolding inspect_ip_def Let_def or_invalid_Inr if_error by (elim exE conjE) (rule that; assumption)
  define summary where "summary = ?summary tl protocol sip dip"
  have sm: "network_fields summary = (ether_type, tl, protocol, sip, dip)" "ps_protocol summary = protocol" "ps_tcp_flags summary = 0"
    by (simp_all add: summary_def network_fields_def)
  have e: "header = take 20 ip" "transport = take (unat tl - 20) (drop 20 ip)" "source = take 4 (drop 12 ip)" "destination = take 4 (drop 16 ip)"
      "ip ! 8 = ttl" "ip ! 0 = 0x45" "protocol = ip ! 9" "20 \<le> length ip"
    using hd tr sl b(1,3) v by (simp_all add: slice_get_Some byte_get_Some byte_get_def split: if_splits)
  have l: "length transport < 2 ^ 16" using assms(2) e(2) by simp
  have ts: "transport_sound source destination transport s \<and> network_fields s = network_fields summary"
  proof (cases "protocol = 17")
    case True
    then have "inspect_udp source destination transport summary = Inr s" using r by (simp add: summary_def)
    then show ?thesis using inspect_udp_sound [OF _ _ sm(3) l] sm(2) True by blast
  next
    case False
    then have p: "protocol = 6" using r by (auto split: if_splits)
    then have "inspect_tcp source destination transport summary = Inr s" using r by (simp add: summary_def)
    then show ?thesis using inspect_tcp_sound [OF _ _ l] sm(2) p by blast
  qed
  moreover have "words_sum (take 20 ip) mod 65535 = 0" using c e(1) checksum_valid_iff [of "take 20 ip"] by simp
  moreover have "unat frag \<in> {0, 0x4000}" by (rule no_fragment) (use fr(2) in simp)
  ultimately show ?thesis
    using t b(2) sm(1) e read_be16_value [OF tl] read_be16_value [OF fr(1)] read_be32_value [OF ad(1)] read_be32_value [OF ad(2)]
    by (simp add: n_def network_fields_def)
qed

text \<open>
  Claim C19. What the packet inspection accepts is sound, byte for byte. The frame has a legal length and carries IPv4
  with a twenty-byte header that adds up to a multiple of \<open>2 ^ 16 - 1\<close>, is no fragment and has a time to live. The
  summary reports the addresses, the protocol, the lengths, the ports and the flags that stand in the frame;
  ports are not zero and TCP flags are legal. The transport header and the payload that it reports fill the
  datagram exactly and lie inside the frame, so that a reader who trusts the reported lengths stays in bounds,
  and the transport checksum over the pseudo header and exactly those bytes adds up.
\<close>

theorem inspect_slice_sound:
  assumes "inspect_slice frame = Inr s"
  shows "34 \<le> length frame \<and> length frame \<le> MAX_FRAME \<and> be_value (take 2 (drop 12 frame)) = 0x0800 \<and>
    ps_ether_type s = 0x0800 \<and> frame ! 14 = 0x45 \<and> words_sum (take 20 (drop 14 frame)) mod 65535 = 0 \<and>
    be_value (take 2 (drop 20 frame)) \<in> {0, 0x4000} \<and> frame ! 22 \<noteq> 0 \<and> ps_protocol s = frame ! 23 \<and>
    unat (ps_source_ipv4 s) = be_value (take 4 (drop 26 frame)) \<and>
    unat (ps_destination_ipv4 s) = be_value (take 4 (drop 30 frame)) \<and>
    unat (ps_ip_total_length s) = be_value (take 2 (drop 16 frame)) \<and>
    unat (ps_ip_total_length s) = 20 + unat (ps_transport_header_length s) + unat (ps_payload_length s) \<and>
    34 + unat (ps_transport_header_length s) + unat (ps_payload_length s) \<le> length frame \<and>
    transport_sound (take 4 (drop 26 frame)) (take 4 (drop 30 frame))
      (take (unat (ps_transport_header_length s) + unat (ps_payload_length s)) (drop 34 frame)) s"
proof -
  obtain ether_type ip where l: "\<not> (length frame < 34 \<or> MAX_FRAME < length frame)" and e: "\<not> ether_type \<noteq> 0x0800"
      and et: "read_be16 frame 12 = Some ether_type"
      and g: "slice_get frame 14 (length frame) = Some ip" and r: "inspect_ip ether_type ip = Inr s"
    using assms unfolding inspect_slice_def or_invalid_Inr if_error by (elim exE conjE) (rule that; assumption)
  have ip: "ip = drop 14 frame" "length ip < 2 ^ 16" "length frame = 14 + length ip" using g l by (auto simp: slice_get_Some)
  note i = inspect_ip_sound [OF r ip(2)]
  let ?n = "unat (ps_ip_total_length s)"
  have n: "20 \<le> ?n" "?n \<le> length ip" using i by blast+
  have t: "?n - 20 = unat (ps_transport_header_length s) + unat (ps_payload_length s)"
  proof -
    have "unat (ps_transport_header_length s) + unat (ps_payload_length s) = length (take (?n - 20) (drop 20 ip))"
      using i unfolding transport_sound_def by blast
    then show ?thesis using n by simp
  qed
  have "?n = 20 + unat (ps_transport_header_length s) + unat (ps_payload_length s)" using n t by linarith
  moreover from this have "34 + unat (ps_transport_header_length s) + unat (ps_payload_length s) \<le> length frame"
    using n(2) ip(3) by linarith
  moreover have "be_value (take 2 (drop 12 frame)) = 0x0800" using read_be16_value [OF et] e by simp
  moreover have "ip ! k = frame ! (14 + k)" for k using ip(1) l by simp
  ultimately show ?thesis using i t l e ip(1) by (simp add: drop_drop add.commute)
qed

text \<open>The frame of the self test and what the inspection says about it.\<close>

lemma udp_fixture_accepted:
  "inspect_slice (build_udp_fixture (replicate 46 0)) = Inr \<lparr>ps_ether_type = 0x0800, ps_ip_total_length = 32, ps_protocol = 17,
     ps_tcp_flags = 0, ps_transport_header_length = 8, ps_source_ipv4 = 0x0A000001, ps_destination_ipv4 = 0x0A000002,
     ps_source_port = 41000, ps_destination_port = 443, ps_payload_length = 4, ps_reserved = 0\<rparr>"
  by code_simp

theorem inspect_slice_sound_witness:
  "34 + 8 + 4 \<le> length (build_udp_fixture (replicate 46 0)) \<and>
     words_sum (take 20 (drop 14 (build_udp_fixture (replicate 46 0)))) mod 65535 = 0"
  using inspect_slice_sound [OF udp_fixture_accepted] by simp

section \<open>Packet queues\<close>

text \<open>Where the caller keeps the state, the frame it sends, the buffer it receives into and the length.\<close>

record net_addresses =
  na_state :: u64
  na_frame :: u64
  na_output :: u64
  na_length :: u64

definition buffers_apart :: "u64 \<Rightarrow> nat \<Rightarrow> u64 \<Rightarrow> nat \<Rightarrow> bool" where
  "buffers_apart a m b n \<longleftrightarrow> unat a + m < 2 ^ 64 \<and> unat b + n < 2 ^ 64 \<and> (unat a + m \<le> unat b \<or> unat b + n \<le> unat a)"

definition addresses_ok :: "net_addresses \<Rightarrow> bool" where
  "addresses_ok na \<longleftrightarrow> na_state na \<noteq> 0 \<and> na_state na AND 15 = 0 \<and> na_frame na \<noteq> 0 \<and> na_output na \<noteq> 0 \<and> na_length na \<noteq> 0 \<and>
     buffers_apart (na_state na) 24288 (na_frame na) MAX_FRAME \<and> buffers_apart (na_state na) 24288 (na_output na) MAX_FRAME \<and>
     buffers_apart (na_state na) 24288 (na_length na) 8 \<and> buffers_apart (na_output na) MAX_FRAME (na_length na) 8"

lemma unat_add_small: "unat a + unat b < 2 ^ 64 \<Longrightarrow> unat (a + b :: u64) = unat a + unat b"
  by (simp add: unat_word_ariths)

lemma buffers_no_overlap:
  assumes "buffers_apart a m b n" "unat x \<le> m" "unat y \<le> n"
  shows "\<not> net_ranges_overlap a x b y"
proof -
  have u: "unat (a + x) = unat a + unat x" "unat (b + y) = unat b + unat y"
    using assms by (simp_all add: buffers_apart_def unat_add_small)
  then have "\<not> a + x < a" "\<not> b + y < b" by (simp_all add: word_less_nat_alt)
  then show ?thesis using assms u by (auto simp: net_ranges_overlap_def net_checked_add_def buffers_apart_def word_less_nat_alt)
qed

lemma state_pointer_ok: "addresses_ok na \<Longrightarrow> valid_state_pointer (na_state na)"
proof -
  assume a: "addresses_ok na"
  then have "unat (na_state na + 24288) = unat (na_state na) + 24288"
    using unat_add_small [of "na_state na" 24288] by (simp add: addresses_ok_def buffers_apart_def)
  then have "\<not> na_state na + 24288 < na_state na" by (simp add: word_less_nat_alt)
  then show ?thesis using a by (simp add: valid_state_pointer_def addresses_ok_def net_checked_add_def)
qed

definition sel :: "u32 \<Rightarrow> net_state \<Rightarrow> packet_queue" where "sel q net = (if q = 0 then ns_ingress net else ns_egress net)"

definition frame_of :: "packet \<Rightarrow> u8 list" where "frame_of p = take (unat (pk_length p)) (pk_bytes p)"

definition frames :: "u32 \<Rightarrow> net_state \<Rightarrow> u8 list list" where
  "frames q net = map frame_of (ring_list (pq_packets (sel q net)) (unat (pq_tail (sel q net))) (unat (pq_count (sel q net))))"

definition queue_ok :: "packet_queue \<Rightarrow> bool" where
  "queue_ok q \<longleftrightarrow> length (pq_packets q) = 8 \<and> unat (pq_tail q) < 8 \<and> unat (pq_count q) \<le> 8 \<and>
     unat (pq_head q) = (unat (pq_tail q) + unat (pq_count q)) mod 8 \<and>
     list_all (\<lambda>p. length (pk_bytes p) = MAX_FRAME) (pq_packets q) \<and>
     list_all (\<lambda>p. 0 < unat (pk_length p) \<and> unat (pk_length p) \<le> MAX_FRAME) (ring_list (pq_packets q) (unat (pq_tail q)) (unat (pq_count q)))"

definition net_ok :: "net_addresses \<Rightarrow> u32 \<Rightarrow> net_state \<Rightarrow> bool" where
  "net_ok na q net \<longleftrightarrow> addresses_ok na \<and> q < 2 \<and> ns_magic net = STATE_MAGIC \<and> queue_ok (sel q net)"

definition frame_accepted :: "u8 list \<Rightarrow> bool" where "frame_accepted frame \<longleftrightarrow> (\<exists>s. inspect_slice frame = Inr s)"

definition net_enq :: "net_addresses \<Rightarrow> u32 \<Rightarrow> u8 list \<Rightarrow> net_state \<Rightarrow> bool \<times> net_state" where
  "net_enq na q frame net =
    (let (status, net) = enqueue (na_state na, net) q (na_frame na, frame) (of_nat (length frame)) in (status = NET_OK, net))"

definition net_deq :: "net_addresses \<Rightarrow> u32 \<Rightarrow> net_state \<Rightarrow> u8 list option \<times> net_state" where
  "net_deq na q net =
    (let (status, written, net) = dequeue (na_state na, net) q (na_output na) (of_nat MAX_FRAME) (na_length na)
     in (if status = NET_OK then written else None, net))"

lemma select_sel: "q < 2 \<Longrightarrow> select_queue net q = Some (sel q net)"
proof -
  assume "q < 2"
  then have "unat q = 0 \<or> unat q = 1" by (auto simp: word_less_nat_alt)
  then have "q = 0 \<or> q = 1" by (simp add: word_unat_eq_iff)
  then show ?thesis by (auto simp: select_queue_def sel_def)
qed

lemma sel_put: "q < 2 \<Longrightarrow> sel q (put_queue q x net) = x" "ns_magic (put_queue q x net) = ns_magic net"
  by (auto simp: sel_def put_queue_def)

lemma frame_accepted_length: "frame_accepted frame \<Longrightarrow> 34 \<le> length frame \<and> length frame \<le> MAX_FRAME"
  by (auto simp: frame_accepted_def inspect_slice_def split: if_splits)

lemma net_enq_eq:
  assumes "net_ok na q net" "frame_accepted frame"
  shows "net_enq na q frame net = (if unat (pq_count (sel q net)) = 8 then (False, net)
    else (True, put_queue q ((sel q net)\<lparr>pq_packets := (pq_packets (sel q net))[unat (pq_head (sel q net)) :=
        \<lparr>pk_length = of_nat (length frame), pk_bytes = frame @ drop (length frame) (pk_bytes (pq_packets (sel q net) ! unat (pq_head (sel q net))))\<rparr>],
      pq_head := of_nat ((unat (pq_head (sel q net)) + 1) mod 8), pq_count := pq_count (sel q net) + 1\<rparr>) net))"
proof -
  note l = frame_accepted_length [OF assms(2)]
  obtain s where s: "inspect_slice frame = Inr s" using assms(2) by (auto simp: frame_accepted_def)
  have u: "unat (of_nat (length frame) :: u64) = length frame" using l by (simp add: unat_of_nat)
  have ok: "addresses_ok na" "q < 2" "ns_magic net = STATE_MAGIC" "queue_ok (sel q net)" using assms(1) by (simp_all add: net_ok_def)
  have o: "\<not> net_ranges_overlap (na_state na) NET_STATE_SIZE (na_frame na) (of_nat (length frame))"
    using buffers_no_overlap [of "na_state na" 24288 "na_frame na" MAX_FRAME NET_STATE_SIZE "of_nat (length frame)"] ok(1) l u
    by (simp add: addresses_ok_def)
  have g: "na_frame na \<noteq> 0" "(of_nat (length frame) :: u64) \<noteq> 0" "\<not> of_nat MAX_FRAME < (of_nat (length frame) :: u64)"
    using ok(1) l u by (auto simp: addresses_ok_def word_unat_eq_iff word_less_nat_alt)
  have h: "unat (pq_head (sel q net)) < 8" using ok(4) by (simp add: queue_ok_def)
  have m: "net_state_mut (na_state na, net) = Some net" using state_pointer_ok [OF ok(1)] ok(3) by (simp add: net_state_mut_def)
  have b: "length (pk_bytes (pq_packets (sel q net) ! unat (pq_head (sel q net)))) = MAX_FRAME" "length (pq_packets (sel q net)) = 8"
    using ok(4) h by (simp_all add: queue_ok_def list_all_length)
  have c: "unat (pq_count (sel q net)) \<le> 8" using ok(4) by (simp add: queue_ok_def)
  show ?thesis
    using s u o g h m b c l state_pointer_ok [OF ok(1)] select_sel [OF ok(2), of net]
    by (simp add: net_enq_def enqueue_def Let_def)
qed

lemma net_deq_eq:
  assumes "net_ok na q net"
  shows "net_deq na q net = (if pq_count (sel q net) = 0 then (None, net)
    else (Some (frame_of (pq_packets (sel q net) ! unat (pq_tail (sel q net)))),
      put_queue q ((sel q net)\<lparr>pq_packets := (pq_packets (sel q net))[unat (pq_tail (sel q net)) :=
        (pq_packets (sel q net) ! unat (pq_tail (sel q net)))\<lparr>pk_length := 0\<rparr>],
      pq_tail := of_nat ((unat (pq_tail (sel q net)) + 1) mod 8), pq_count := pq_count (sel q net) - 1\<rparr>) net))"
proof (cases "pq_count (sel q net) = 0")
  case True
  have ok: "addresses_ok na" "q < 2" "ns_magic net = STATE_MAGIC" using assms by (simp_all add: net_ok_def)
  have "\<not> net_ranges_overlap (na_state na) NET_STATE_SIZE (na_length na) 8"
    using buffers_no_overlap [of "na_state na" 24288 "na_length na" 8 NET_STATE_SIZE 8] ok(1) by (simp add: addresses_ok_def)
  then show ?thesis using True ok state_pointer_ok [OF ok(1)] select_sel [OF ok(2), of net]
    by (simp add: net_deq_def dequeue_def net_state_mut_def addresses_ok_def)
next
  case False
  let ?s = "sel q net" and ?p = "pq_packets (sel q net) ! unat (pq_tail (sel q net))"
  have ok: "addresses_ok na" "q < 2" "ns_magic net = STATE_MAGIC" "queue_ok ?s" using assms by (simp_all add: net_ok_def)
  have c: "0 < unat (pq_count ?s)" using False by (simp add: word_unat_eq_iff)
  have n: "0 < unat (pk_length ?p)" "unat (pk_length ?p) \<le> MAX_FRAME"
  proof -
    have m: "unat (pq_tail ?s) mod length (pq_packets ?s) = unat (pq_tail ?s)" using ok(4) by (simp add: queue_ok_def)
    have "list_all (\<lambda>p. 0 < unat (pk_length p) \<and> unat (pk_length p) \<le> MAX_FRAME)
        (ring_list (pq_packets ?s) (unat (pq_tail ?s)) (unat (pq_count ?s)))"
      using ok(4) by (simp add: queue_ok_def)
    then show "0 < unat (pk_length ?p)" "unat (pk_length ?p) \<le> MAX_FRAME"
      unfolding ring_list_dequeue [OF c] m by simp_all
  qed
  have u: "unat (of_nat (unat (pk_length ?p)) :: u64) = unat (pk_length ?p)" using n by (simp add: unat_of_nat)
  have o: "\<not> net_ranges_overlap (na_state na) NET_STATE_SIZE (na_length na) 8"
    "\<not> net_ranges_overlap (na_state na) NET_STATE_SIZE (na_output na) (of_nat (unat (pk_length ?p)))"
    "\<not> net_ranges_overlap (na_output na) (of_nat (unat (pk_length ?p))) (na_length na) 8"
    using buffers_no_overlap [of "na_state na" 24288 "na_length na" 8 NET_STATE_SIZE 8]
      buffers_no_overlap [of "na_state na" 24288 "na_output na" MAX_FRAME NET_STATE_SIZE "of_nat (unat (pk_length ?p))"]
      buffers_no_overlap [of "na_output na" MAX_FRAME "na_length na" 8 "of_nat (unat (pk_length ?p))" 8] ok(1) n(2) u
    by (simp_all add: addresses_ok_def)
  have g: "\<not> of_nat MAX_FRAME < (of_nat (unat (pk_length ?p)) :: u64)" using n u by (simp add: word_less_nat_alt)
  have t: "unat (pq_tail ?s) < length (pq_packets ?s)" using ok(4) by (simp add: queue_ok_def)
  have m: "net_state_mut (na_state na, net) = Some net" using state_pointer_ok [OF ok(1)] ok(3) by (simp add: net_state_mut_def)
  show ?thesis
    using False n o g t m ok(1) state_pointer_ok [OF ok(1)] select_sel [OF ok(2), of net]
    by (simp add: net_deq_def dequeue_def Let_def addresses_ok_def frame_of_def)
qed

lemma enqueue_ring:
  assumes "queue_ok s" "unat (pq_count s) < 8" "34 \<le> length frame" "length frame \<le> MAX_FRAME"
  defines "p \<equiv> \<lparr>pk_length = of_nat (length frame), pk_bytes = frame @ drop (length frame) (pk_bytes (pq_packets s ! unat (pq_head s)))\<rparr>"
  defines "s' \<equiv> s\<lparr>pq_packets := (pq_packets s)[unat (pq_head s) := p],
      pq_head := of_nat ((unat (pq_head s) + 1) mod 8), pq_count := pq_count s + 1\<rparr>"
  shows "queue_ok s'" "ring_list (pq_packets s') (unat (pq_tail s')) (unat (pq_count s')) =
      ring_list (pq_packets s) (unat (pq_tail s)) (unat (pq_count s)) @ [p]" "frame_of p = frame"
proof -
  have q: "length (pq_packets s) = 8" "unat (pq_tail s) < 8" "unat (pq_head s) = (unat (pq_tail s) + unat (pq_count s)) mod 8"
      "list_all (\<lambda>p. length (pk_bytes p) = MAX_FRAME) (pq_packets s)"
    using assms(1) by (simp_all add: queue_ok_def)
  have c: "unat (pq_count s') = Suc (unat (pq_count s))" using assms(2) by (simp add: s'_def unat_word_ariths)
  have h: "unat (pq_head s) < 8" using q(3) by simp
  have l: "unat (pk_length p) = length frame" using assms(4) by (simp add: p_def unat_of_nat)
  have pb: "length (pk_bytes p) = MAX_FRAME" using q(1,4) h assms(4) by (simp add: p_def list_all_length)
  show r: "ring_list (pq_packets s') (unat (pq_tail s')) (unat (pq_count s')) =
      ring_list (pq_packets s) (unat (pq_tail s)) (unat (pq_count s)) @ [p]"
    using ring_list_enqueue [of "unat (pq_count s)" "pq_packets s" "unat (pq_tail s)" p] assms(2) q(1,3) unfolding c
    by (simp add: s'_def)
  show "frame_of p = frame" using l by (simp add: frame_of_def) (simp add: p_def)
  have hd: "unat (pq_head s') = (unat (pq_tail s') + unat (pq_count s')) mod 8"
    using q(3) unfolding c by (simp add: s'_def unat_of_nat mod_simps)
  have "list_all (\<lambda>p. length (pk_bytes p) = MAX_FRAME) (pq_packets s')"
    using q(4) pb h q(1) by (simp add: s'_def list_all_length nth_list_update)
  moreover have "frame \<noteq> []" using assms(3) by auto
  ultimately show "queue_ok s'" using assms(1) q hd c r l assms(2-4) unfolding queue_ok_def by (simp add: s'_def)
qed

lemma dequeue_ring:
  assumes "queue_ok s" "pq_count s \<noteq> 0"
  defines "i \<equiv> unat (pq_tail s)"
  defines "s' \<equiv> s\<lparr>pq_packets := (pq_packets s)[i := (pq_packets s ! i)\<lparr>pk_length := 0\<rparr>],
      pq_tail := of_nat ((i + 1) mod 8), pq_count := pq_count s - 1\<rparr>"
  shows "queue_ok s'" "ring_list (pq_packets s) i (unat (pq_count s)) =
      pq_packets s ! i # ring_list (pq_packets s') (unat (pq_tail s')) (unat (pq_count s'))"
proof -
  have q: "length (pq_packets s) = 8" "i < 8" "unat (pq_head s) = (i + unat (pq_count s)) mod 8" "unat (pq_count s) \<le> 8"
      "list_all (\<lambda>p. length (pk_bytes p) = MAX_FRAME) (pq_packets s)"
    using assms(1) by (simp_all add: queue_ok_def i_def)
  have c: "0 < unat (pq_count s)" "unat (pq_count s') = unat (pq_count s) - 1"
    using assms(2) by (simp_all add: s'_def word_unat_eq_iff unat_minus_one)
  have t: "unat (pq_tail s') = (i + 1) mod 8" by (simp add: s'_def unat_of_nat)
  have "i \<noteq> ((i + 1) mod 8 + k) mod 8" if "k < unat (pq_count s) - 1" for k
    using ring_index_neq [of 0 "k + 1" 8 i] that q(2,4) by (simp add: mod_simps)
  then have o: "ring_list (pq_packets s') (unat (pq_tail s')) (unat (pq_count s')) = ring_list (pq_packets s) ((i + 1) mod 8) (unat (pq_count s) - 1)"
    using ring_list_update_other [of "unat (pq_count s) - 1" i "(i + 1) mod 8" "pq_packets s"] q(1) c(2) t by (simp add: s'_def)
  show r: "ring_list (pq_packets s) i (unat (pq_count s)) = pq_packets s ! i # ring_list (pq_packets s') (unat (pq_tail s')) (unat (pq_count s'))"
    using ring_list_dequeue [OF c(1), of "pq_packets s" i] q(1,2) o by simp
  have "unat (pq_head s') = (unat (pq_tail s') + unat (pq_count s')) mod 8"
  proof -
    have "((i + 1) mod 8 + (unat (pq_count s) - 1)) mod 8 = (i + 1 + (unat (pq_count s) - 1)) mod 8" by (rule mod_add_left_eq)
    also have "i + 1 + (unat (pq_count s) - 1) = i + unat (pq_count s)" using c(1) by simp
    finally have "((i + 1) mod 8 + (unat (pq_count s) - 1)) mod 8 = unat (pq_head s)" using q(3) by simp
    moreover have "unat (pq_head s') = unat (pq_head s)" by (simp add: s'_def)
    ultimately show ?thesis unfolding c(2) t by simp
  qed
  moreover have "list_all (\<lambda>p. length (pk_bytes p) = MAX_FRAME) (pq_packets s')"
    using q(5,1,2) by (simp add: s'_def list_all_length nth_list_update)
  moreover have "list_all (\<lambda>p. 0 < unat (pk_length p) \<and> unat (pk_length p) \<le> MAX_FRAME)
      (ring_list (pq_packets s') (unat (pq_tail s')) (unat (pq_count s')))"
    using assms(1) r by (simp add: queue_ok_def i_def)
  moreover have "length (pq_packets s') = 8" using q(1) by (simp add: s'_def)
  moreover have "unat (pq_tail s') < 8" using t by simp
  moreover have "unat (pq_count s') \<le> 8" using c(2) q(4) by simp
  ultimately show "queue_ok s'" by (simp add: queue_ok_def)
qed

interpretation net_fifo: bounded_fifo "net_ok na q" "frames q" "net_enq na q" "net_deq na q" frame_accepted 8 for na q
proof (unfold_locales, goal_cases)
  case (1 net frame)
  then have s: "queue_ok (sel q net)" "q < 2" by (simp_all add: net_ok_def)
  have c: "unat (pq_count (sel q net)) \<le> 8" using s(1) by (simp add: queue_ok_def)
  show ?case using 1 net_enq_eq [OF 1] enqueue_ring(1) [OF s(1), of frame] frame_accepted_length [OF 1(2)] c s(2)
    by (auto simp: net_ok_def sel_put)
next
  case (2 net)
  then have s: "queue_ok (sel q net)" "q < 2" by (simp_all add: net_ok_def)
  show ?case using 2 net_deq_eq [OF 2] dequeue_ring(1) [OF s(1)] s(2) by (auto simp: net_ok_def sel_put)
next
  case (3 net frame)
  then have c: "unat (pq_count (sel q net)) \<le> 8" by (simp add: net_ok_def queue_ok_def)
  show ?case using net_enq_eq [OF 3] c by (auto simp: frames_def)
next
  case (4 net frame)
  then have s: "queue_ok (sel q net)" "q < 2" by (simp_all add: net_ok_def)
  have c: "unat (pq_count (sel q net)) \<le> 8" using s(1) by (simp add: queue_ok_def)
  show ?case using net_enq_eq [OF 4] enqueue_ring(2,3) [OF s(1), of frame] frame_accepted_length [OF 4(2)] c s(2)
    by (auto simp: frames_def sel_put)
next
  case (5 net)
  then have "pq_count (sel q net) = 0" by (simp add: frames_def word_unat_eq_iff) (metis length_0_conv length_ring_list)
  then show ?case using net_deq_eq [OF 5(1)] by simp
next
  case (6 net x xs)
  then have s: "queue_ok (sel q net)" "q < 2" by (simp_all add: net_ok_def)
  have c: "pq_count (sel q net) \<noteq> 0" using 6(2) by (auto simp: frames_def)
  show ?case using net_deq_eq [OF 6(1)] dequeue_ring(2) [OF s(1) c] 6(2) c s(2) by (auto simp: frames_def sel_put)
next
  case (7 net)
  then show ?case by (simp add: net_ok_def queue_ok_def frames_def)
qed

lemma initialized_ok:
  assumes "addresses_ok na" "q < 2"
  shows "\<exists>net'. initialize_impl (na_state na, net) NET_STATE_SIZE = (NET_OK, net') \<and> net_ok na q net' \<and> frames q net' = []"
proof -
  have "queue_ok zero_packet_queue" by (simp add: queue_ok_def zero_packet_queue_def zero_packet_def list_all_length ring_list_def)
  then show ?thesis using assms state_pointer_ok [OF assms(1)]
    by (simp add: initialize_impl_def net_ok_def sel_def frames_def zero_packet_queue_def)
qed

text \<open>
  Claim C20. The packet queues are bounded lists. Over any sequence of sends and receives on one queue of an
  initialised state, with frames that the inspection accepts and buffers apart from the state, \<^verbatim>\<open>enqueue\<close> accepts a
  frame exactly when fewer than eight are waiting, and \<^verbatim>\<open>dequeue\<close> hands out the oldest one, whole and
  unaltered, or nothing when the queue is empty.
\<close>

theorem packets_refine_bounded_queue:
  assumes "net_ok na q net" "list_all frame_accepted (fifo_items ops)"
    and "fifo_run (net_enq na q) (net_deq na q) ops net = (accepted, delivered, net')"
  shows "bounded_queue QUEUE_CAPACITY ops (frames q net) = (accepted, delivered, frames q net') \<and> net_ok na q net'"
  using net_fifo.fifo_refines [OF assms] net_fifo.fifo_order [OF assms] by simp

definition addresses_demo :: net_addresses where
  "addresses_demo = \<lparr>na_state = 0x100000, na_frame = 0x200000, na_output = 0x300000, na_length = 0x400000\<rparr>"

theorem packets_refine_bounded_queue_witness:
  "\<exists>net accepted net'. net_ok addresses_demo 0 net \<and>
     fifo_run (net_enq addresses_demo 0) (net_deq addresses_demo 0)
       [Enq (build_udp_fixture (replicate 46 0)), Deq, Deq] net = (accepted, [build_udp_fixture (replicate 46 0)], net') \<and>
     frames 0 net' = []"
proof -
  have a: "addresses_ok addresses_demo" by (simp add: addresses_ok_def addresses_demo_def buffers_apart_def)
  obtain net where n: "net_ok addresses_demo 0 net" "frames 0 net = []"
    using initialized_ok [OF a, of 0] by auto
  let ?f = "build_udp_fixture (replicate 46 0)"
  obtain accepted delivered net' where r: "fifo_run (net_enq addresses_demo 0) (net_deq addresses_demo 0) [Enq ?f, Deq, Deq] net = (accepted, delivered, net')"
    by (metis surj_pair)
  have i: "list_all frame_accepted (fifo_items [Enq ?f, Deq, Deq])" using udp_fixture_accepted by (auto simp: frame_accepted_def)
  show ?thesis using packets_refine_bounded_queue [OF n(1) i r] n r by auto
qed

section \<open>TCP states\<close>

fun tcp_run :: "u32 \<Rightarrow> u32 list \<Rightarrow> u32 option" where
  "tcp_run state [] = Some state"
| "tcp_run state (event # events) =
    (case tcp_transition_impl state event of Inl _ \<Rightarrow> None | Inr next \<Rightarrow> tcp_run next events)"

lemma tcp_run_snoc: "tcp_run s (es @ [e]) = Some t \<longleftrightarrow> (\<exists>u. tcp_run s es = Some u \<and> tcp_transition_impl u e = Inr t)"
  by (induction es arbitrary: s) (auto split: sum.splits)

lemma tcp_into:
  "tcp_transition_impl u e = Inr TCP_SYN_SENT \<longleftrightarrow> u = TCP_CLOSED \<and> e = TCP_ACTIVE_OPEN"
  "tcp_transition_impl u e = Inr TCP_ESTABLISHED \<longleftrightarrow>
     u = TCP_SYN_SENT \<and> e = TCP_SYN_ACK \<or> u = TCP_ESTABLISHED \<and> (e = TCP_DATA \<or> e = TCP_ACK)"
  by (auto simp: tcp_transition_impl_def split: if_splits)

text \<open>
  Claim C30. A connection is established only by a handshake: a sequence of events that leads from the closed to the
  established state ends with an active open in the closed state, the answer to it, and then nothing but data and
  acknowledgements.
\<close>

theorem tcp_established_by_handshake:
  assumes "tcp_run TCP_CLOSED events = Some TCP_ESTABLISHED"
  shows "\<exists>before after. events = before @ [TCP_ACTIVE_OPEN, TCP_SYN_ACK] @ after \<and> tcp_run TCP_CLOSED before = Some TCP_CLOSED \<and>
    list_all (\<lambda>e. e = TCP_DATA \<or> e = TCP_ACK) after"
  using assms
proof (induction events rule: rev_induct)
  case (snoc e es)
  then obtain u where u: "tcp_run TCP_CLOSED es = Some u" "tcp_transition_impl u e = Inr TCP_ESTABLISHED"
    by (auto simp: tcp_run_snoc)
  from u(2) [unfolded tcp_into] show ?case
  proof
    assume s: "u = TCP_SYN_SENT \<and> e = TCP_SYN_ACK"
    then obtain es' e' where es: "es = es' @ [e']" using u(1) by (cases es rule: rev_cases) auto
    then have "tcp_run TCP_CLOSED es' = Some TCP_CLOSED" "e' = TCP_ACTIVE_OPEN" using u(1) s by (auto simp: tcp_run_snoc tcp_into)
    then show ?thesis using es s by (intro exI [of _ es'] exI [of _ "[]"]) simp
  next
    assume s: "u = TCP_ESTABLISHED \<and> (e = TCP_DATA \<or> e = TCP_ACK)"
    then obtain before after where "es = before @ [TCP_ACTIVE_OPEN, TCP_SYN_ACK] @ after"
        "tcp_run TCP_CLOSED before = Some TCP_CLOSED" "list_all (\<lambda>e. e = TCP_DATA \<or> e = TCP_ACK) after"
      using snoc.IH u(1) by auto
    then show ?thesis using s by (intro exI [of _ before] exI [of _ "after @ [e]"]) simp
  qed
qed simp

theorem tcp_established_by_handshake_witness:
  "\<exists>before after. [TCP_ACTIVE_OPEN, TCP_RESET, TCP_ACTIVE_OPEN, TCP_SYN_ACK, TCP_DATA] = before @ [TCP_ACTIVE_OPEN, TCP_SYN_ACK] @ after \<and>
     tcp_run TCP_CLOSED before = Some TCP_CLOSED"
  using tcp_established_by_handshake [of "[TCP_ACTIVE_OPEN, TCP_RESET, TCP_ACTIVE_OPEN, TCP_SYN_ACK, TCP_DATA]"]
  by (auto simp: tcp_transition_impl_def)

end
