(* ===== verification/Spec2Isabelle.thy ===== *)
theory Spec2Isabelle
  imports Capability Ipc Anonymity Heap User_Space Elf_Loader Round_Robin Network_Isolation Ramfs_Files Ps2_Input Net_Packets Run_Frame
begin

text \<open>
  ArgusOS: a verification development of the kernel of a small UEFI operating system, C and Rust under
  \<^verbatim>\<open>src/\<close>. The loader hands a boot record to the kernel, which takes over the physical pages, builds its
  page tables and heap, finds the interrupt controllers through ACPI, and runs three applications in user mode
  under a round-robin scheduler. Processes reach the kernel through system calls that name objects by
  capability handles only.

  \<^bold>\<open>Conventions.\<close> C integers are words of their width, so that arithmetic wraps as in C; a pointer is its address,
  since the kernel runs identity-mapped; memory is a byte for every address (\<^verbatim>\<open>Memory\<close>). Structs are records, static
  variables are fields of the record of their component, null is \<open>None\<close> or address 0, error returns are values.
  Contracts that several components meet are locales, each interpreted on the definitions of the code:
  \<^verbatim>\<open>handle_store\<close> (capability table and endpoints), \<^verbatim>\<open>bounded_fifo\<close> and \<^verbatim>\<open>ring_buffer\<close> (the queues of \<^verbatim>\<open>ipc.c\<close>,
  \<^verbatim>\<open>ps2.c\<close> and \<^verbatim>\<open>rust_net.rs\<close>), \<^verbatim>\<open>simulation\<close> (the file system), \<^verbatim>\<open>run_relation\<close> (runs of a process).

  \<^bold>\<open>Theories.\<close>
  \<^item> \<^verbatim>\<open>Argus_Prelude\<close>, \<^verbatim>\<open>Handle_Store\<close>, \<^verbatim>\<open>Fifo\<close>, \<^verbatim>\<open>Ring\<close>, \<^verbatim>\<open>Simulation\<close>: types, shared lemmas, contracts.
  \<^item> \<^verbatim>\<open>Memory\<close> (\<^verbatim>\<open>memory.c\<close>): loads, stores and byte loops; the loops copy, move, fill and compare as specified.
  \<^item> \<^verbatim>\<open>Boot_Info\<close> (\<^verbatim>\<open>boot_info.h\<close>, parts of \<^verbatim>\<open>boot.c\<close>), \<^verbatim>\<open>Pmm\<close> (\<^verbatim>\<open>pmm.c\<close>): which pages are managed after
    initialisation, first fit, and that allocating and freeing are inverse.
  \<^item> \<^verbatim>\<open>Heap\<close> (\<^verbatim>\<open>heap.c\<close>): first fit, splitting and merging over every reachable heap; live blocks keep their bytes.
  \<^item> \<^verbatim>\<open>Page_Table\<close>, \<^verbatim>\<open>Paging\<close>, \<^verbatim>\<open>User_Space\<close> (\<^verbatim>\<open>paging.c\<close>): the tables as a tree, what mapping and unmapping do to
    the translation, and that user spaces are isolated.
  \<^item> \<^verbatim>\<open>Acpi\<close>, \<^verbatim>\<open>Apic\<close>, \<^verbatim>\<open>Ports\<close>, \<^verbatim>\<open>Serial\<close>, \<^verbatim>\<open>Arch\<close> (\<^verbatim>\<open>acpi.c\<close>, \<^verbatim>\<open>apic.c\<close>, \<^verbatim>\<open>serial.c\<close>, \<^verbatim>\<open>arch.c\<close>, parts of
    \<^verbatim>\<open>cpu.S\<close>): discovery and routing of interrupts, the serial line, the processor tables.
  \<^item> \<^verbatim>\<open>Ps2\<close>, \<^verbatim>\<open>Ps2_Input\<close> (\<^verbatim>\<open>ps2.c\<close>, \<^verbatim>\<open>input.c\<close>): the driver refines a list of 63 characters; what can be typed.
  \<^item> \<^verbatim>\<open>Capability\<close>, \<^verbatim>\<open>Ipc\<close>, \<^verbatim>\<open>Anonymity\<close> (\<^verbatim>\<open>capability.c\<close>, \<^verbatim>\<open>ipc.c\<close>, \<^verbatim>\<open>anonymity.c\<close>): handles against their
    histories, delivery in order, the policy for network capabilities.
  \<^item> \<^verbatim>\<open>Elf_Loader\<close> (\<^verbatim>\<open>elf_loader.c\<close>): what an accepted image satisfies, and where its page limit fails.
  \<^item> \<^verbatim>\<open>Process\<close>, \<^verbatim>\<open>Syscall\<close>, \<^verbatim>\<open>Scheduler\<close> (\<^verbatim>\<open>process.c\<close>): the process table, loaders, system calls, interrupts, user
    mode, scheduler and applications. \<^verbatim>\<open>Confinement\<close> and \<^verbatim>\<open>Run_Frame\<close> show what a system call and a whole run
    can change, \<^verbatim>\<open>Network_Isolation\<close> that no process holds a network capability, \<^verbatim>\<open>Round_Robin\<close> that the calls of
    \<^verbatim>\<open>process_run_ready_once\<close> starve nobody.
  \<^item> \<^verbatim>\<open>Ramfs\<close>, \<^verbatim>\<open>Ramfs_Files\<close> (\<^verbatim>\<open>rust_ramfs.rs\<close>, \<^verbatim>\<open>ramfs.c\<close>): the file system refines a bounded map of paths.
  \<^item> \<^verbatim>\<open>Net\<close>, \<^verbatim>\<open>Net_Packets\<close> (\<^verbatim>\<open>rust_net.rs\<close>): checksums, sound inspection of frames, packet queues as bounded lists,
    the handshake of TCP.

  \<^bold>\<open>Parameters.\<close> The behaviour of the processor in user mode, of the devices behind the ports, and the interrupt
  handlers are arguments. Properties of whole runs assume handlers that leave processes, memory and endpoints
  alone; the handlers of the timer and of the PS/2 controller, which the kernel registers, are shown to be such.

  \<^bold>\<open>Loops.\<close> Loops bounded in the code recurse on their bound. The heap walks, the wait of the serial line and the
  run in user mode have no bound in the code and are partial functions whose value is \<open>None\<close> when they do
  not end; that they end is proved: on reachable heaps, for a transmitter that becomes ready, and, with preemption
  on, by the next timer interrupt.

  \<^bold>\<open>Not modelled.\<close> The firmware side of the loader; the disk, FAT32, PCI and block layers; the C side of the packet
  core; graphics, desktop and shells; the module registry; the applications themselves, which the
  properties of \<^verbatim>\<open>Confinement\<close> quantify over; the randomised self test of the heap.
\<close>

section \<open>The interrupt handler of the PS/2 controller\<close>

text \<open>
  \<^verbatim>\<open>ps2_interrupt\<close> as a handler of the kernel, for any state \<open>s\<close> of the driver, which the kernel record does not
  hold: it is one of the handlers that runs of a process allow.
\<close>

definition ps2_handler :: "ps2 \<Rightarrow> interrupt_frame \<Rightarrow> kernel \<Rightarrow> kernel" where
  "ps2_handler s frame k = (let (_, a, v) = ps2_interrupt s (k_apic k) (k_vm k) in k\<lparr>k_apic := a, k_vm := v\<rparr>)"

lemma ps2_handler_quiet: "quiet_handler (ps2_handler s)"
  by (simp add: quiet_handler_def ps2_handler_def ps2_interrupt_def apic_eoi_def apic_write_def cpu_wrmsr_def
      control_def Let_def)

lemma ps2_handler_queues: "k_endpoints (ps2_handler s frame k) = k_endpoints k"
  by (simp add: ps2_handler_def Let_def split_beta)

lemma registered_handlers_allowed:
  assumes "\<And>h. env_handlers env h = timer_handler \<or> (\<exists>s. env_handlers env h = ps2_handler s)"
  shows "handlers_quiet env \<and> handlers_spare_queues env"
  unfolding handlers_quiet_def handlers_spare_queues_def
  using assms quiet_timer_handler ps2_handler_quiet timer_handler_queues ps2_handler_queues by metis

end
